(* ===== verification/Prelude.thy ===== *)
theory Prelude
  imports Main "HOL-Library.Word"
begin

text \<open>
  The shared vocabulary of the development: machine integers at their C++ widths, the error values
  that stand for the C++ exceptions, assertion failures and accesses outside an object, counted
  loops whose body may fail, and the byte-addressed memory of a memory-mapped transaction log.
  Scalars in that memory are little-endian, as on the x86-64 targets the build files name.
\<close>

unbundle bit_operations_syntax

named_theorems result_simps \<open>rewriting of computations that may fail\<close>
named_theorems mem_simps \<open>loads, stores and the regions they touch\<close>
named_theorems const_simps \<open>the numeric constants of the program\<close>

section \<open>Machine types and failing computations\<close>

type_synonym u8 = "8 word"
type_synonym u16 = "16 word"
type_synonym u32 = "32 word"
type_synonym u64 = "64 word"
type_synonym mem = "u8 list"

text \<open>
  \<open>OutOfBounds\<close>: an access outside the array or the mapped log (undefined behaviour in C++).
  \<open>IndexFull\<close>: \<open>std::out_of_range("Index is full")\<close>.
  \<open>NullCown\<close>: an operation on an empty \<open>cown_ptr\<close>.
  \<open>AssertFailed\<close>: a failing \<open>assert\<close>.
  \<open>DivByZero\<close>: an integer division or remainder by zero.
  \<open>BadArgument\<close>: the usage-message exit of a \<open>main\<close>.
  \<open>NullPointer\<close>: the use of a null pointer or the resumption of an empty coroutine handle.
  \<open>NotANumber\<close>: an integer conversion of a floating-point value that is not a number or infinite.
  \<open>ExitFailure\<close>: a failure message followed by \<open>exit\<close>.
  \<open>Overflow\<close>: a signed integer operation whose value does not fit its type.
  \<open>BadCast\<close>: the use of an object through a pointer to an unrelated class.
\<close>

datatype error = OutOfBounds | IndexFull | NullCown | AssertFailed | DivByZero | BadArgument
  | NullPointer | ExitFailure | Overflow | NotANumber | BadCast

type_synonym 'a result = "error + 'a"

definition rbind :: "'a result \<Rightarrow> ('a \<Rightarrow> 'b result) \<Rightarrow> 'b result" where
  "rbind r f = (case r of Inl e \<Rightarrow> Inl e | Inr x \<Rightarrow> f x)"

definition rmap :: "('a \<Rightarrow> 'b) \<Rightarrow> 'a result \<Rightarrow> 'b result" where
  "rmap f r = (case r of Inl e \<Rightarrow> Inl e | Inr x \<Rightarrow> Inr (f x))"

definition is_ok :: "'a result \<Rightarrow> bool" where
  "is_ok r = (case r of Inl e \<Rightarrow> False | Inr x \<Rightarrow> True)"

lemma rbind_simps [simp]: "rbind (Inl e) f = Inl e" "rbind (Inr x) f = f x"
  by (simp_all add: rbind_def)

lemma rmap_simps [simp]: "rmap f (Inl e) = Inl e" "rmap f (Inr x) = Inr (f x)"
  by (simp_all add: rmap_def)

lemma is_ok_simps [simp]: "\<not> is_ok (Inl e)" "is_ok (Inr x)"
  by (simp_all add: is_ok_def)

lemma rbind_Inr_iff [result_simps]: "rbind r f = Inr y \<longleftrightarrow> (\<exists>x. r = Inr x \<and> f x = Inr y)"
  by (cases r) auto

lemma rmap_Inr_iff [result_simps]: "rmap f r = Inr y \<longleftrightarrow> (\<exists>x. r = Inr x \<and> y = f x)"
  by (cases r) auto

lemma is_ok_iff [result_simps]: "is_ok r \<longleftrightarrow> (\<exists>x. r = Inr x)"
  by (cases r) auto

text \<open>A counted loop \<open>for (x : xs) s = f(x, s)\<close> that stops at the first failure.\<close>

fun rfold :: "('i \<Rightarrow> 's \<Rightarrow> 's result) \<Rightarrow> 'i list \<Rightarrow> 's \<Rightarrow> 's result" where
  "rfold f [] s = Inr s"
| "rfold f (x # xs) s = rbind (f x s) (rfold f xs)"

lemma rfold_append: "rfold f (xs @ ys) s = rbind (rfold f xs s) (rfold f ys)"
proof (induction xs arbitrary: s)
  case Nil
  show ?case by simp
next
  case (Cons x xs)
  show ?case by (cases "f x s") (simp_all add: Cons.IH)
qed

lemma rfold_cong:
  "(\<And>x t. x \<in> set xs \<Longrightarrow> f x t = g x t) \<Longrightarrow> rfold f xs s = rfold g xs s"
  by (induction xs arbitrary: s) (auto simp: rbind_def split: sum.splits)

lemma rfold_map: "rfold f (map g xs) s = rfold (\<lambda>x. f (g x)) xs s"
  by (induction xs arbitrary: s) (auto simp: rbind_def split: sum.splits)

lemma rfold_total:
  assumes "P s" and "\<And>x s. x \<in> set xs \<Longrightarrow> P s \<Longrightarrow> \<exists>s'. f x s = Inr s' \<and> P s'"
  shows "\<exists>s'. rfold f xs s = Inr s' \<and> P s'"
  using assms
proof (induction xs arbitrary: s)
  case Nil
  then show ?case by simp
next
  case (Cons x xs)
  then obtain s1 where "f x s = Inr s1" and "P s1" by fastforce
  moreover have "\<exists>s'. rfold f xs s1 = Inr s' \<and> P s'"
    using Cons.IH [OF \<open>P s1\<close>] Cons.prems(2) by simp
  ultimately show ?case by simp
qed

text \<open>The loop rule for \<open>for (i = 0; i < n; i++)\<close>, with the invariant indexed by \<open>i\<close>.\<close>

lemma rfold_upt_total:
  assumes "P 0 s" and "\<And>i s. i < n \<Longrightarrow> P i s \<Longrightarrow> \<exists>s'. f i s = Inr s' \<and> P (Suc i) s'"
  shows "\<exists>s'. rfold f [0..<n] s = Inr s' \<and> P n s'"
  using assms
proof (induction n)
  case 0
  then show ?case by simp
next
  case (Suc n)
  then obtain s1 where s1: "rfold f [0..<n] s = Inr s1" "P n s1" by force
  with Suc.prems(2) [of n s1] show ?case by (auto simp: rfold_append)
qed

lemma rfold_upt_inv:
  assumes "rfold f [0..<n] s = Inr s'" and "P 0 s"
    and "\<And>i s s'. i < n \<Longrightarrow> P i s \<Longrightarrow> f i s = Inr s' \<Longrightarrow> P (Suc i) s'"
  shows "P n s'"
  using assms
proof (induction n arbitrary: s')
  case 0
  then show ?case by simp
next
  case (Suc n)
  then obtain s1 where "rfold f [0..<n] s = Inr s1" "f n s1 = Inr s'"
    by (auto simp: rfold_append result_simps)
  then show ?case using Suc.IH [of s1] Suc.prems(2,3) by (meson less_Suc_eq)
qed

lemma map_upt_add: "map f [0..<a + b] = map f [0..<a] @ map (\<lambda>i. f (a + i)) [0..<b]"
  by (induction b) simp_all

text \<open>Digits of a mixed-radix number are determined by it.\<close>

lemma mixed_radix:
  assumes "x * m + y = x' * m + (y' :: nat)" and "y < m" and "y' < m"
  shows "x = x' \<and> y = y'"
proof -
  have "(x * m + y) div m = x" "(x' * m + y') div m = x'" using assms(2,3) by simp_all
  with assms(1) have "x = x'" by simp
  with assms(1) show ?thesis by simp
qed

section \<open>Word facts\<close>

lemma unat_lt_2p: "unat (w :: 'a::len word) < 2 ^ LENGTH('a)"
  by (rule unsigned_less)

lemma unat_u8_lt [simp]: "unat (b :: u8) < 256"
  using unat_lt_2p [of b] by simp

lemma unat_ucast_u32_u64 [simp]: "unat (ucast (w :: u32) :: u64) = unat w"
  by (simp add: unsigned_ucast_eq unat_lt_2p take_bit_nat_eq_self_iff [THEN iffD2]
      order_less_le_trans [OF unat_lt_2p [of w]])

lemma word_nat_roundtrip [simp]: "word_of_nat (unat (w :: 'a::len word)) = w"
  by simp

lemma unat_of_nat_small: "n < 2 ^ LENGTH('a) \<Longrightarrow> unat (word_of_nat n :: 'a::len word) = n"
  by (simp add: unsigned_of_nat take_bit_nat_eq_self_iff)

lemma unat_add_small:
  "unat (a :: 'a::len word) + unat b < 2 ^ LENGTH('a) \<Longrightarrow> unat (a + b) = unat a + unat b"
  by (simp add: unat_word_ariths)

lemma unat_add_of_nat:
  assumes "unat (a :: 'a::len word) + b < 2 ^ LENGTH('a)"
  shows "unat (a + of_nat b) = unat a + b"
  using assms by (subst unat_add_small) (simp_all add: unat_of_nat_small)

lemma unat_sub_le: "b \<le> a \<Longrightarrow> unat (a - b :: 'a::len word) = unat a - unat b"
  by (simp add: unat_sub)

lemma unat_mult_small:
  "unat (a :: 'a::len word) * unat b < 2 ^ LENGTH('a) \<Longrightarrow> unat (a * b) = unat a * unat b"
  by (simp add: unat_word_ariths)

lemma unat_pred: "1 \<le> unat (w :: 'a::len word) \<Longrightarrow> unat (w - 1) = unat w - 1"
  by (rule unat_minus_one) (auto simp: unat_eq_0)

section \<open>Vectors\<close>

text \<open>\<open>v[i]\<close> as a value and as the target of an assignment; an index outside the vector is undefined.\<close>

definition vec_at :: "'a list \<Rightarrow> nat \<Rightarrow> 'a result" where
  "vec_at xs i = (if i < length xs then Inr (xs ! i) else Inl OutOfBounds)"

definition vec_put :: "nat \<Rightarrow> 'a \<Rightarrow> 'a list \<Rightarrow> 'a list result" where
  "vec_put i x xs = (if i < length xs then Inr (xs[i := x]) else Inl OutOfBounds)"

lemma vec_at_ok [simp]: "i < length xs \<Longrightarrow> vec_at xs i = Inr (xs ! i)"
  by (simp add: vec_at_def)

lemma vec_put_ok [simp]: "i < length xs \<Longrightarrow> vec_put i x xs = Inr (xs[i := x])"
  by (simp add: vec_put_def)

text \<open>A loop that assigns \<open>v[i]\<close> for \<open>i\<close> from \<open>a\<close> to \<open>b\<close>.\<close>

lemma rfold_fill:
  assumes "\<And>i xs. a \<le> i \<Longrightarrow> i < b \<Longrightarrow> length xs = n \<Longrightarrow> f i xs = Inr (xs[i := g i])"
    and "length xs = n" and "a \<le> b" and "b \<le> n"
  shows "rfold f [a..<b] xs = Inr (take a xs @ map g [a..<b] @ drop b xs)"
  using assms(3,4,1)
proof (induction b rule: dec_induct)
  case base
  show ?case by simp
next
  case (step b)
  have "rfold f [a..<b] xs = Inr (take a xs @ map g [a..<b] @ drop b xs)"
    using step.IH step.prems by simp
  moreover have "length (take a xs @ map g [a..<b] @ drop b xs) = n"
    using step assms(2) by simp
  ultimately have "rfold f [a..<Suc b] xs = Inr ((take a xs @ map g [a..<b] @ drop b xs)[b := g b])"
    using step by (simp add: rfold_append)
  moreover have "drop b xs = xs ! b # drop (Suc b) xs"
    using step assms(2) by (simp add: Cons_nth_drop_Suc)
  ultimately show ?case using step assms(2) by (simp add: list_update_append)
qed

end
