(* ===== verification/Memory.thy ===== *)
theory Memory
  imports Prelude
begin

text \<open>
  Little-endian scalars in a byte-addressed memory: the memory-mapped transaction log that every
  pipeline stage reads through a \<open>char*\<close> and a \<open>reinterpret_cast\<close> to a packed struct.  A load or
  a store outside the mapping is \<open>OutOfBounds\<close>.  The lemmas give length preservation, reading back
  what was stored, and the frame rule for disjoint regions.
\<close>

section \<open>Scalars as bytes\<close>

definition bytes_of :: "nat \<Rightarrow> nat \<Rightarrow> u8 list" where
  "bytes_of n x = map (\<lambda>i. word_of_nat (x div 256 ^ i)) [0..<n]"

fun nat_of_bytes :: "u8 list \<Rightarrow> nat" where
  "nat_of_bytes [] = 0"
| "nat_of_bytes (b # bs) = unat b + 256 * nat_of_bytes bs"

lemma length_bytes_of [simp]: "length (bytes_of n x) = n"
  by (simp add: bytes_of_def)

lemma nth_bytes_of: "i < n \<Longrightarrow> bytes_of n x ! i = word_of_nat (x div 256 ^ i)"
  by (simp add: bytes_of_def)

lemma bytes_of_Suc: "bytes_of (Suc n) x = word_of_nat x # bytes_of n (x div 256)"
proof (rule nth_equalityI)
  fix i
  assume "i < length (bytes_of (Suc n) x)"
  then show "bytes_of (Suc n) x ! i = (word_of_nat x # bytes_of n (x div 256)) ! i"
    by (cases i) (simp_all add: nth_bytes_of div_mult2_eq)
qed simp

lemma nat_of_bytes_bytes_of: "nat_of_bytes (bytes_of n x) = x mod 256 ^ n"
proof (induction n arbitrary: x)
  case 0
  show ?case by (simp add: bytes_of_def)
next
  case (Suc n)
  have "x mod 256 + 256 * (x div 256 mod 256 ^ n) = x mod 256 ^ Suc n"
    using mod_mult2_eq [of x 256 "256 ^ n"] by simp
  then show ?case
    by (simp add: bytes_of_Suc Suc.IH unsigned_of_nat take_bit_eq_mod)
qed

lemma nat_of_bytes_lt: "nat_of_bytes bs < 256 ^ length bs"
proof (induction bs)
  case Nil
  show ?case by simp
next
  case (Cons b bs)
  have "unat b + 256 * nat_of_bytes bs < 256 + 256 * nat_of_bytes bs"
    using unat_u8_lt [of b] by linarith
  also have "\<dots> \<le> 256 * 256 ^ length bs"
    using Cons.IH by (metis Suc_leI mult_Suc_right mult_le_mono2)
  finally show ?case by simp
qed

lemma bytes_of_nat_of_bytes: "length bs = n \<Longrightarrow> bytes_of n (nat_of_bytes bs) = bs"
proof (induction bs arbitrary: n)
  case Nil
  then show ?case by (simp add: bytes_of_def)
next
  case (Cons b bs)
  have "(unat b + 256 * nat_of_bytes bs) div 256 = nat_of_bytes bs"
    using unat_u8_lt [of b] by simp
  moreover have "(word_of_nat (256 * nat_of_bytes bs) :: u8) = 0"
    by (simp add: word_of_nat_eq_0_iff del: of_nat_mult)
  ultimately show ?case
    using Cons by (auto simp: bytes_of_Suc)
qed

section \<open>Loads and stores\<close>

definition load :: "nat \<Rightarrow> nat \<Rightarrow> mem \<Rightarrow> nat result" where
  "load n off m =
     (if off + n \<le> length m then Inr (nat_of_bytes (take n (drop off m))) else Inl OutOfBounds)"

definition store :: "nat \<Rightarrow> nat \<Rightarrow> nat \<Rightarrow> mem \<Rightarrow> mem result" where
  "store n off x m =
     (if off + n \<le> length m then Inr (take off m @ bytes_of n x @ drop (off + n) m)
      else Inl OutOfBounds)"

definition load_u16 :: "nat \<Rightarrow> mem \<Rightarrow> u16 result" where
  "load_u16 off m = rmap word_of_nat (load 2 off m)"

definition load_u32 :: "nat \<Rightarrow> mem \<Rightarrow> u32 result" where
  "load_u32 off m = rmap word_of_nat (load 4 off m)"

definition load_u64 :: "nat \<Rightarrow> mem \<Rightarrow> u64 result" where
  "load_u64 off m = rmap word_of_nat (load 8 off m)"

definition load_u8 :: "nat \<Rightarrow> mem \<Rightarrow> u8 result" where
  "load_u8 off m = rmap word_of_nat (load 1 off m)"

definition store_u64 :: "nat \<Rightarrow> u64 \<Rightarrow> mem \<Rightarrow> mem result" where
  "store_u64 off w m = store 8 off (unat w) m"

lemmas typed_loads = load_u8_def load_u16_def load_u32_def load_u64_def

lemma load_ok: "off + n \<le> length m \<Longrightarrow> load n off m = Inr (nat_of_bytes (take n (drop off m)))"
  by (simp add: load_def)

lemma load_Inl_iff: "load n off m = Inl e \<longleftrightarrow> length m < off + n \<and> e = OutOfBounds"
  by (auto simp: load_def)

lemma store_length [mem_simps]: "store n off x m = Inr m' \<Longrightarrow> length m' = length m"
  by (auto simp: store_def split: if_splits)

lemma store_ok: "off + n \<le> length m \<Longrightarrow> \<exists>m'. store n off x m = Inr m'"
  by (simp add: store_def)

text \<open>Reading back a stored scalar.\<close>

lemma load_store_same:
  assumes "store n off x m = Inr m'"
  shows "load n off m' = Inr (x mod 256 ^ n)"
proof -
  from assms have le: "off + n \<le> length m"
    and m': "m' = take off m @ bytes_of n x @ drop (off + n) m"
    by (auto simp: store_def split: if_splits)
  have "take n (drop off m') = bytes_of n x"
    using le m' by simp
  then show ?thesis
    using le m' by (simp add: load_def nat_of_bytes_bytes_of)
qed

text \<open>The frame rule: a store leaves every byte outside its region alone.\<close>

lemma store_nth_other:
  assumes "store n off x m = Inr m'" and "i < off \<or> off + n \<le> i" and "i < length m"
  shows "m' ! i = m ! i"
  using assms by (auto simp: store_def nth_append split: if_splits)

lemma load_cong:
  assumes "length m = length m'" and "\<And>i. off \<le> i \<Longrightarrow> i < off + n \<Longrightarrow> i < length m \<Longrightarrow> m ! i = m' ! i"
  shows "load n off m = load n off m'"
proof (cases "off + n \<le> length m")
  case True
  have "take n (drop off m) = take n (drop off m')"
    by (rule nth_equalityI) (use True assms in auto)
  then show ?thesis using assms(1) by (simp add: load_def)
next
  case False
  then show ?thesis using assms(1) by (simp add: load_def)
qed

lemma load_store_other:
  assumes "store n off x m = Inr m'" and "off' + n' \<le> off \<or> off + n \<le> off'"
  shows "load n' off' m' = load n' off' m"
proof (rule load_cong)
  show "length m' = length m" using assms(1) by (rule store_length)
  then show "\<And>i. off' \<le> i \<Longrightarrow> i < off' + n' \<Longrightarrow> i < length m' \<Longrightarrow> m' ! i = m ! i"
    using store_nth_other [OF assms(1)] assms(2) by fastforce
qed

lemma load_u64_store_same: "store_u64 off w m = Inr m' \<Longrightarrow> load_u64 off m' = Inr w"
  using unat_lt_2p [of w] by (simp add: store_u64_def load_u64_def load_store_same)

lemma load_at_append [mem_simps]:
  "off = length xs \<Longrightarrow> length bs = n \<Longrightarrow> load n off (xs @ bs @ ys) = Inr (nat_of_bytes bs)"
  by (simp add: load_def)

section \<open>Filling an array field\<close>

text \<open>\<open>same_outside a b m m'\<close>: the memories differ at most in the bytes from \<open>a\<close> up to \<open>b\<close>.\<close>

definition same_outside :: "nat \<Rightarrow> nat \<Rightarrow> mem \<Rightarrow> mem \<Rightarrow> bool" where
  "same_outside a b m m' \<longleftrightarrow>
     length m' = length m \<and> (\<forall>i<length m. i < a \<or> b \<le> i \<longrightarrow> m' ! i = m ! i)"

lemma same_outside_refl [simp]: "same_outside a b m m"
  by (simp add: same_outside_def)

lemma same_outside_length: "same_outside a b m m' \<Longrightarrow> length m' = length m"
  by (simp add: same_outside_def)

lemma same_outside_store:
  assumes "same_outside a b m m1" and "store n off x m1 = Inr m2" and "a \<le> off" and "off + n \<le> b"
  shows "same_outside a b m m2"
  using assms store_length [OF assms(2)] store_nth_other [OF assms(2)]
  by (auto simp: same_outside_def)

lemma same_outside_load:
  assumes "same_outside a b m m'" and "off + n \<le> a \<or> b \<le> off"
  shows "load n off m' = load n off m"
  by (rule load_cong) (use assms in \<open>auto simp: same_outside_def\<close>)

lemma same_outside_loads:
  assumes "same_outside a b m m'"
  shows "off + 8 \<le> a \<or> b \<le> off \<Longrightarrow> load_u64 off m' = load_u64 off m"
    and "off + 4 \<le> a \<or> b \<le> off \<Longrightarrow> load_u32 off m' = load_u32 off m"
    and "off + 2 \<le> a \<or> b \<le> off \<Longrightarrow> load_u16 off m' = load_u16 off m"
    and "off + 1 \<le> a \<or> b \<le> off \<Longrightarrow> load_u8 off m' = load_u8 off m"
  using same_outside_load [OF assms] by (simp_all add: typed_loads)

text \<open>
  The loops \<open>txm->cown_ptrs[i] = ...\<close>: every step stores one 64-bit value at the \<open>i\<close>-th place of an
  array, whatever it reads outside the array.
\<close>

lemma fill_loop:
  assumes "\<And>i m'. i < n \<Longrightarrow> same_outside a (a + 8 * n) m m' \<Longrightarrow> f i m' = store_u64 (a + 8 * i) (v i) m'"
    and "a + 8 * n \<le> length m"
  shows "\<exists>m'. rfold f [0..<n] m = Inr m' \<and> same_outside a (a + 8 * n) m m' \<and>
     (\<forall>i<n. load_u64 (a + 8 * i) m' = Inr (v i))"
proof (rule rfold_upt_total [where P = "\<lambda>k m'. same_outside a (a + 8 * n) m m' \<and>
    (\<forall>i<k. load_u64 (a + 8 * i) m' = Inr (v i))"])
  show "same_outside a (a + 8 * n) m m \<and> (\<forall>i<0. load_u64 (a + 8 * i) m = Inr (v i))" by simp
next
  fix i m'
  assume i: "i < n" and P: "same_outside a (a + 8 * n) m m' \<and> (\<forall>j<i. load_u64 (a + 8 * j) m' = Inr (v j))"
  then have "a + 8 * i + 8 \<le> length m'" using assms(2) by (simp add: same_outside_def)
  then obtain m2 where m2: "store 8 (a + 8 * i) (unat (v i)) m' = Inr m2" using store_ok by blast
  then have st: "store_u64 (a + 8 * i) (v i) m' = Inr m2" by (simp add: store_u64_def)
  have "load_u64 (a + 8 * j) m2 = Inr (v j)" if "j < Suc i" for j
  proof (cases "j = i")
    case True
    then show ?thesis using load_u64_store_same [OF st] by simp
  next
    case False
    then have "load 8 (a + 8 * j) m2 = load 8 (a + 8 * j) m'"
      using that by (intro load_store_other [OF m2]) simp
    then show ?thesis using P False that by (simp add: load_u64_def)
  qed
  moreover have "same_outside a (a + 8 * n) m m2"
    using P by (intro same_outside_store [OF _ m2]) (use i in auto)
  ultimately show "\<exists>s'. f i m' = Inr s' \<and> same_outside a (a + 8 * n) m s' \<and>
      (\<forall>j<Suc i. load_u64 (a + 8 * j) s' = Inr (v j))"
    using assms(1) [OF i] P st by auto
qed

text \<open>A loop of loads: the values of an array.\<close>

fun rmapM :: "('a \<Rightarrow> 'b result) \<Rightarrow> 'a list \<Rightarrow> 'b list result" where
  "rmapM f [] = Inr []"
| "rmapM f (x # xs) = rbind (f x) (\<lambda>y. rmap ((#) y) (rmapM f xs))"

lemma rmapM_ok: "(\<And>x. x \<in> set xs \<Longrightarrow> f x = Inr (g x)) \<Longrightarrow> rmapM f xs = Inr (map g xs)"
  by (induction xs) simp_all

section \<open>Arrays of blocks\<close>

lemma length_concat_blocks: "\<forall>x\<in>set xs. length x = b \<Longrightarrow> length (concat xs) = b * length xs"
  by (induction xs) simp_all

lemma concat_block:
  "\<forall>x\<in>set xs. length x = b \<Longrightarrow> k < length xs \<Longrightarrow> take b (drop (b * k) (concat xs)) = xs ! k"
proof (induction xs arbitrary: k)
  case (Cons x xs)
  then show ?case by (cases k) simp_all
qed simp

lemma load_concat:
  assumes "\<forall>x\<in>set xs. length x = b" and "k < length xs" and "off + n \<le> b"
  shows "load n (b * k + off) (concat xs) = load n off (xs ! k)"
proof -
  have "b * Suc k \<le> b * length xs" using assms(2) by (intro mult_le_mono2) simp
  then have "b * k + off + n \<le> length (concat xs)"
    using assms(3) by (simp add: length_concat_blocks [OF assms(1)])
  moreover have "take n (drop (b * k + off) (concat xs)) = take n (drop off (xs ! k))"
    using assms(3) by (simp add: drop_take min_def add.commute flip: concat_block [OF assms(1,2)])
  moreover have "length (xs ! k) = b" using assms(1,2) by simp
  ultimately show ?thesis using assms(3) by (simp add: load_def)
qed

lemma load_prefix: "load n (length p + off) (p @ m) = load n off m"
  by (simp add: load_def)

lemma load_front: "off + n \<le> length p \<Longrightarrow> load n off (p @ m) = load n off p"
  by (simp add: load_def)

end
