(* ===== verification/Row_Tables.thy ===== *)
theory Row_Tables
  imports Memory
begin

text \<open>
  The row stores that map a key to the \<open>cown_ptr\<close> of a row: \<open>Index\<close> of
  \<^verbatim>\<open>app/ycsb/db.hpp\<close>, which appends, and \<open>Table\<close> of \<^verbatim>\<open>app/tpcc/tables.hpp\<close>
  (\<^verbatim>\<open>app/chain/tables.hpp\<close> holds the same text), which stores under a caller-chosen key.
  A \<open>cown_ptr\<close> is a value of the type parameter \<open>'c\<close>; \<open>None\<close> is the default, empty one.
  The locale \<open>row_table\<close> is the contract the loaders and the pipeline stages use; both stores
  are shown to satisfy it.
\<close>

section \<open>The stores\<close>

definition DB_SIZE :: nat where
  "DB_SIZE = 10000000"

record 'c index =
  idx_map :: "nat \<Rightarrow> 'c option"
  idx_cnt :: u64

definition new_index :: "'c index" where
  "new_index = \<lparr>idx_map = (\<lambda>_. None), idx_cnt = 0\<rparr>"

text \<open>
  \<open>get_row_addr\<close> and \<open>get_row\<close> give access to \<open>map[key]\<close>; \<open>std::move\<close> in \<open>get_row\<close> only casts
  the reference, and no caller moves from it.
\<close>

definition index_get_row :: "u64 \<Rightarrow> 'c index \<Rightarrow> 'c option result" where
  "index_get_row key t =
     (if unat key < DB_SIZE then Inr (idx_map t (unat key)) else Inl OutOfBounds)"

definition index_insert_row :: "'c \<Rightarrow> 'c index \<Rightarrow> (u64 \<times> 'c index) result" where
  "index_insert_row r t =
     (if unat (idx_cnt t) < DB_SIZE
      then Inr (idx_cnt t, t\<lparr>idx_map := (idx_map t)(unat (idx_cnt t) := Some r),
                             idx_cnt := idx_cnt t + 1\<rparr>)
      else Inl IndexFull)"

text \<open>\<open>tbl_size\<close> is the template argument \<open>DB_SIZE\<close> of \<open>Table\<close>.\<close>

record 'c table =
  tbl_map :: "nat \<Rightarrow> 'c option"
  tbl_cnt :: u64
  tbl_size :: nat
  start_addr :: u64

definition new_table :: "nat \<Rightarrow> 'c table" where
  "new_table n = \<lparr>tbl_map = (\<lambda>_. None), tbl_cnt = 0, tbl_size = n, start_addr = 0\<rparr>"

definition get_row_addr :: "u64 \<Rightarrow> 'c table \<Rightarrow> 'c option result" where
  "get_row_addr key t =
     (if unat key < tbl_size t then Inr (tbl_map t (unat key)) else Inl OutOfBounds)"

definition insert_row :: "u64 \<Rightarrow> 'c \<Rightarrow> 'c table \<Rightarrow> (u64 \<times> 'c table) result" where
  "insert_row key r t =
     (if unat (tbl_cnt t) < tbl_size t
      then if unat key < tbl_size t
           then Inr (tbl_cnt t, t\<lparr>tbl_map := (tbl_map t)(unat key := Some r),
                                  tbl_cnt := tbl_cnt t + 1\<rparr>)
           else Inl OutOfBounds
      else Inl IndexFull)"

definition index_inv :: "'c index \<Rightarrow> bool" where
  "index_inv t \<longleftrightarrow> unat (idx_cnt t) \<le> DB_SIZE \<and>
     (\<forall>i. idx_map t i \<noteq> None \<longleftrightarrow> i < unat (idx_cnt t))"

definition table_inv :: "'c table \<Rightarrow> bool" where
  "table_inv t \<longleftrightarrow> tbl_size t < 2 ^ 64 \<and> unat (tbl_cnt t) \<le> tbl_size t \<and>
     dom (tbl_map t) \<subseteq> {..<tbl_size t} \<and> card (dom (tbl_map t)) \<le> unat (tbl_cnt t)"

text \<open>The loaders insert a list of rows, one after the other.\<close>

definition insert_all :: "('k \<Rightarrow> 'c \<Rightarrow> 't \<Rightarrow> (u64 \<times> 't) result) \<Rightarrow> ('k \<times> 'c) list \<Rightarrow> 't \<Rightarrow> 't result" where
  "insert_all ins kcs t = rfold (\<lambda>(k, c) s. rmap snd (ins k c s)) kcs t"

section \<open>The contract of a row store\<close>

locale row_table =
  fixes get :: "u64 \<Rightarrow> 't \<Rightarrow> 'c option result"
    and ins :: "u64 \<Rightarrow> 'c \<Rightarrow> 't \<Rightarrow> (u64 \<times> 't) result"
    and used :: "'t \<Rightarrow> nat"
    and capacity :: "'t \<Rightarrow> nat"
    and admits :: "u64 \<Rightarrow> 't \<Rightarrow> bool"
    and inv :: "'t \<Rightarrow> bool"
  assumes ins_ok: "inv t \<Longrightarrow> used t < capacity t \<Longrightarrow> admits k t \<Longrightarrow>
      \<exists>t'. ins k c t = Inr (word_of_nat (used t), t') \<and> inv t' \<and> used t' = Suc (used t) \<and>
           capacity t' = capacity t \<and>
           (\<forall>k'. get k' t' = (if k' = k then Inr (Some c) else get k' t))"
    and ins_full: "inv t \<Longrightarrow> capacity t \<le> used t \<Longrightarrow> ins k c t = Inl IndexFull"
begin

text \<open>Loading rows under distinct admissible keys: all of them are found afterwards.\<close>

lemma insert_all_ok:
  assumes "inv t" and "used t + length kcs \<le> capacity t" and "distinct (map fst kcs)"
    and "\<And>i s. i < length kcs \<Longrightarrow> inv s \<Longrightarrow> used s = used t + i \<Longrightarrow> capacity s = capacity t \<Longrightarrow>
           admits (fst (kcs ! i)) s"
  shows "\<exists>t'. insert_all ins kcs t = Inr t' \<and> inv t' \<and> used t' = used t + length kcs \<and>
     capacity t' = capacity t \<and>
     (\<forall>k. get k t' = (case map_of kcs k of Some c \<Rightarrow> Inr (Some c) | None \<Rightarrow> get k t))"
  using assms
proof (induction kcs arbitrary: t)
  case Nil
  then show ?case by (simp add: insert_all_def)
next
  case (Cons kc kcs)
  obtain k c where kc: "kc = (k, c)" by (cases kc)
  have adm: "admits k t" and lt: "used t < capacity t"
    using Cons.prems(1,2) Cons.prems(4) [of 0 t] kc by auto
  from ins_ok [OF Cons.prems(1) lt adm, of c] obtain s where
    s: "ins k c t = Inr (word_of_nat (used t), s)" "inv s" "used s = Suc (used t)"
       "capacity s = capacity t" "\<forall>k'. get k' s = (if k' = k then Inr (Some c) else get k' t)"
    by blast
  obtain t' where t': "insert_all ins kcs s = Inr t'" "inv t'" "used t' = used s + length kcs"
      "capacity t' = capacity s"
      "\<forall>k. get k t' = (case map_of kcs k of Some c \<Rightarrow> Inr (Some c) | None \<Rightarrow> get k s)"
  proof (atomize_elim, rule Cons.IH)
    fix i u
    assume "i < length kcs" "inv u" "used u = used s + i" "capacity u = capacity s"
    then show "admits (fst (kcs ! i)) u"
      using Cons.prems(4) [of "Suc i" u] s by simp
  qed (use Cons.prems s in auto)
  have "map_of kcs k = None"
    using Cons.prems(3) kc by (auto simp: map_of_eq_None_iff)
  moreover have "insert_all ins (kc # kcs) t = insert_all ins kcs s"
    using kc s(1) by (simp add: insert_all_def)
  ultimately show ?case
    using kc s(3-5) t' by (intro exI [of _ t']) (simp split: option.split)
qed

end

section \<open>Both stores satisfy the contract\<close>

lemma unat_Suc: "unat (w :: u64) < 2 ^ 64 - 1 \<Longrightarrow> unat (w + 1) = Suc (unat w)"
  by (simp add: unat_word_ariths)

lemma card_insert_le: "card (insert x A) \<le> Suc (card A)"
  by (cases "finite A") (simp_all add: card_insert_if)

lemma table_insert_inv:
  assumes "table_inv t" and "insert_row key r t = Inr (n, t')"
  shows "table_inv t'"
proof -
  have "unat (tbl_cnt t + 1) = Suc (unat (tbl_cnt t))"
    using assms by (intro unat_Suc) (auto simp: insert_row_def table_inv_def split: if_splits)
  moreover have "t' = t\<lparr>tbl_map := (tbl_map t)(unat key \<mapsto> r), tbl_cnt := tbl_cnt t + 1\<rparr>"
    and "unat (tbl_cnt t) < tbl_size t" and "unat key < tbl_size t"
    using assms(2) by (auto simp: insert_row_def split: if_splits)
  ultimately show ?thesis
    using assms(1) card_insert_le [of "unat key" "dom (tbl_map t)"] by (simp add: table_inv_def)
qed

interpretation tbl: row_table get_row_addr insert_row "\<lambda>t. unat (tbl_cnt t)" tbl_size
    "\<lambda>k t. unat k < tbl_size t" table_inv
proof
  fix t :: "'c table" and k :: u64 and c
  assume inv: "table_inv t" and "unat (tbl_cnt t) < tbl_size t" and "unat k < tbl_size t"
  moreover from this have "unat (tbl_cnt t + 1) = Suc (unat (tbl_cnt t))"
    by (intro unat_Suc) (auto simp: table_inv_def)
  ultimately show "\<exists>t'. insert_row k c t = Inr (word_of_nat (unat (tbl_cnt t)), t') \<and>
      table_inv t' \<and> unat (tbl_cnt t') = Suc (unat (tbl_cnt t)) \<and> tbl_size t' = tbl_size t \<and>
      (\<forall>k'. get_row_addr k' t' = (if k' = k then Inr (Some c) else get_row_addr k' t))"
    using table_insert_inv [OF inv, of k c] by (auto simp: insert_row_def get_row_addr_def word_unat_eq_iff)
qed (simp add: insert_row_def)

interpretation idx: row_table index_get_row "\<lambda>_. index_insert_row" "\<lambda>t. unat (idx_cnt t)" "\<lambda>_. DB_SIZE"
    "\<lambda>k t. k = idx_cnt t" index_inv
proof
  fix t :: "'c index" and k :: u64 and c
  assume "index_inv t" and "unat (idx_cnt t) < DB_SIZE" and "k = idx_cnt t"
  moreover from this have "unat (idx_cnt t + 1) = Suc (unat (idx_cnt t))"
    by (intro unat_Suc) (auto simp: DB_SIZE_def)
  ultimately show "\<exists>t'. index_insert_row c t = Inr (word_of_nat (unat (idx_cnt t)), t') \<and>
      index_inv t' \<and> unat (idx_cnt t') = Suc (unat (idx_cnt t)) \<and> DB_SIZE = DB_SIZE \<and>
      (\<forall>k'. index_get_row k' t' = (if k' = k then Inr (Some c) else index_get_row k' t))"
    by (auto simp: index_insert_row_def index_get_row_def index_inv_def less_Suc_eq word_unat_eq_iff)
qed (simp add: index_insert_row_def)

lemma new_table_inv [simp]: "n < 2 ^ 64 \<Longrightarrow> table_inv (new_table n)"
  by (simp add: table_inv_def new_table_def)

lemma new_index_inv [simp]: "index_inv new_index"
  by (simp add: index_inv_def new_index_def)

lemma table_insert_full: "tbl_size t \<le> unat (tbl_cnt t) \<Longrightarrow> insert_row key r t = Inl IndexFull"
  by (simp add: insert_row_def)

lemma table_insert_outside:
  "unat (tbl_cnt t) < tbl_size t \<Longrightarrow> tbl_size t \<le> unat key \<Longrightarrow> insert_row key r t = Inl OutOfBounds"
  by (simp add: insert_row_def)

text \<open>Rows inserted into an index one after the other are found under their positions.\<close>

lemma index_appends:
  assumes "length cs \<le> DB_SIZE"
  shows "\<exists>t. insert_all (\<lambda>_. index_insert_row) (map (\<lambda>i. (of_nat i :: u64, cs ! i)) [0..<length cs]) new_index = Inr t \<and>
     index_inv t \<and> unat (idx_cnt t) = length cs \<and> (\<forall>i<length cs. index_get_row (of_nat i) t = Inr (Some (cs ! i)))"
proof -
  let ?kcs = "map (\<lambda>i. (of_nat i :: u64, cs ! i)) [0..<length cs]"
  have cnt0: "unat (idx_cnt (new_index :: 'a index)) = 0" by (simp add: new_index_def)
  have small: "unat (of_nat i :: u64) = i" if "i < length cs" for i
    using that assms by (intro unat_of_nat_small) (simp add: DB_SIZE_def)
  have "inj_on (\<lambda>i. of_nat i :: u64) {0..<length cs}"
    using small by (intro inj_onI) (metis atLeastLessThan_iff)
  then have "distinct (map fst ?kcs)" by (simp add: distinct_map comp_def)
  then obtain t where t: "insert_all (\<lambda>_. index_insert_row) ?kcs new_index = Inr t" "index_inv t"
      "unat (idx_cnt t) = length cs"
      "\<forall>k. index_get_row k t = (case map_of ?kcs k of Some c \<Rightarrow> Inr (Some c) | None \<Rightarrow> index_get_row k new_index)"
    using idx.insert_all_ok [of new_index ?kcs] assms small cnt0
    by (auto simp: word_unat_eq_iff)
  have "map_of ?kcs (of_nat i) = Some (cs ! i)" if "i < length cs" for i
    using \<open>distinct (map fst ?kcs)\<close> that by (intro map_of_is_SomeI) (auto simp: image_iff)
  with t show ?thesis by (intro exI [of _ t]) auto
qed

section \<open>Properties\<close>



end
