(* ===== verification/Tpcc_Keys.thy ===== *)
theory Tpcc_Keys
  imports Row_Tables
begin

text \<open>
  The constants of \<^verbatim>\<open>app/tpcc/constants.hpp\<close> and the hash keys of \<^verbatim>\<open>app/tpcc/entries.hpp\<close>, at the
  widths C++ computes them: \<open>uint32_t\<close> operands are combined in 32 bits, and the sum is widened to 64
  bits where an operand is a \<open>uint64_t\<close> or on return.  A name ending in \<open>_static\<close> is the static
  overload.  The lemmas give the value of each key as a natural number, its bound by the table it
  indexes, and when two rows have the same key.
\<close>

section \<open>Constants\<close>

definition NUM_TRANSACTIONS :: u64 where
  "NUM_TRANSACTIONS = 3200 * 2"

definition MAX_ORDER_TRANSACTIONS :: u64 where
  "MAX_ORDER_TRANSACTIONS = (NUM_TRANSACTIONS div 10) * 6"

definition NUM_WAREHOUSES :: u32 where
  "NUM_WAREHOUSES = 1"

definition NUM_ITEMS :: u32 where
  "NUM_ITEMS = 100000"

definition STOCK_PER_WAREHOUSE :: u32 where
  "STOCK_PER_WAREHOUSE = 100000"

definition DISTRICTS_PER_WAREHOUSE :: u32 where
  "DISTRICTS_PER_WAREHOUSE = 10"

definition CUSTOMERS_PER_DISTRICT :: u32 where
  "CUSTOMERS_PER_DISTRICT = 3000"

definition INITIAL_ORDERS_PER_DISTRICT :: u32 where
  "INITIAL_ORDERS_PER_DISTRICT = 3000"

definition INITIAL_NEW_ORDERS_PER_DISTRICT :: u32 where
  "INITIAL_NEW_ORDERS_PER_DISTRICT = 900"

definition TSIZE_WAREHOUSE :: u64 where
  "TSIZE_WAREHOUSE = ucast NUM_WAREHOUSES"

definition TSIZE_DISTRICT :: u64 where
  "TSIZE_DISTRICT = ucast (NUM_WAREHOUSES * DISTRICTS_PER_WAREHOUSE)"

definition TSIZE_CUSTOMER :: u64 where
  "TSIZE_CUSTOMER = ucast (NUM_WAREHOUSES * DISTRICTS_PER_WAREHOUSE * CUSTOMERS_PER_DISTRICT)"

definition TSIZE_ITEM :: u64 where
  "TSIZE_ITEM = ucast NUM_ITEMS"

definition TSIZE_STOCK :: u64 where
  "TSIZE_STOCK = ucast (NUM_WAREHOUSES * STOCK_PER_WAREHOUSE)"

definition TSIZE_ORDER :: u64 where
  "TSIZE_ORDER = ucast (NUM_WAREHOUSES * DISTRICTS_PER_WAREHOUSE) *
     (ucast INITIAL_ORDERS_PER_DISTRICT + MAX_ORDER_TRANSACTIONS) * 30"

definition TSIZE_NEW_ORDER :: u64 where
  "TSIZE_NEW_ORDER = ucast (NUM_WAREHOUSES * DISTRICTS_PER_WAREHOUSE) *
     (ucast INITIAL_NEW_ORDERS_PER_DISTRICT + MAX_ORDER_TRANSACTIONS) * 30"

definition TSIZE_ORDER_LINE :: u64 where
  "TSIZE_ORDER_LINE = TSIZE_ORDER * 30"

definition TSIZE_HISTORY :: u64 where
  "TSIZE_HISTORY = ucast (NUM_WAREHOUSES * DISTRICTS_PER_WAREHOUSE * CUSTOMERS_PER_DISTRICT)"

lemmas tpcc_consts = NUM_TRANSACTIONS_def MAX_ORDER_TRANSACTIONS_def NUM_WAREHOUSES_def NUM_ITEMS_def
  STOCK_PER_WAREHOUSE_def DISTRICTS_PER_WAREHOUSE_def CUSTOMERS_PER_DISTRICT_def
  INITIAL_ORDERS_PER_DISTRICT_def INITIAL_NEW_ORDERS_PER_DISTRICT_def

lemmas tpcc_tsizes = TSIZE_WAREHOUSE_def TSIZE_DISTRICT_def TSIZE_CUSTOMER_def TSIZE_ITEM_def
  TSIZE_STOCK_def TSIZE_ORDER_def TSIZE_NEW_ORDER_def TSIZE_ORDER_LINE_def TSIZE_HISTORY_def

lemma tsize_unat [const_simps]:
  "unat TSIZE_WAREHOUSE = 1" "unat TSIZE_DISTRICT = 10" "unat TSIZE_CUSTOMER = 30000"
  "unat TSIZE_ITEM = 100000" "unat TSIZE_STOCK = 100000" "unat TSIZE_ORDER = 2052000"
  "unat TSIZE_NEW_ORDER = 1422000" "unat TSIZE_ORDER_LINE = 61560000" "unat TSIZE_HISTORY = 30000"
  by (simp_all add: tpcc_tsizes tpcc_consts)

section \<open>Hash keys\<close>

definition Warehouse_hash_key :: "u32 \<Rightarrow> u64" where
  "Warehouse_hash_key wid = ucast (wid - 1)"

definition District_hash_key :: "u32 \<Rightarrow> u32 \<Rightarrow> u64" where
  "District_hash_key wid did = ucast (((wid - 1) * DISTRICTS_PER_WAREHOUSE) + (did - 1))"

definition Item_hash_key :: "u64 \<Rightarrow> u64" where
  "Item_hash_key i_id = i_id - 1"

definition Item_hash_key_static :: "u32 \<Rightarrow> u64" where
  "Item_hash_key_static iid = ucast (iid - 1)"

definition Customer_hash_key :: "u32 \<Rightarrow> u32 \<Rightarrow> u32 \<Rightarrow> u64" where
  "Customer_hash_key wid did cid =
     ucast (((wid - 1) * DISTRICTS_PER_WAREHOUSE * CUSTOMERS_PER_DISTRICT) +
            ((did - 1) * CUSTOMERS_PER_DISTRICT) + (cid - 1))"

text \<open>The member function has a 64-bit order number, the static one a 32-bit one.\<close>

definition Order_hash_key :: "u32 \<Rightarrow> u32 \<Rightarrow> u64 \<Rightarrow> u64" where
  "Order_hash_key w_id d_id o_id =
     (ucast ((w_id - 1) * DISTRICTS_PER_WAREHOUSE) * (ucast INITIAL_ORDERS_PER_DISTRICT + MAX_ORDER_TRANSACTIONS)) +
     (ucast (d_id - 1) * (ucast INITIAL_ORDERS_PER_DISTRICT + MAX_ORDER_TRANSACTIONS)) + (o_id - 1)"

definition Order_hash_key_static :: "u32 \<Rightarrow> u32 \<Rightarrow> u32 \<Rightarrow> u64" where
  "Order_hash_key_static wid did oid =
     (ucast ((wid - 1) * DISTRICTS_PER_WAREHOUSE) * (ucast INITIAL_ORDERS_PER_DISTRICT + MAX_ORDER_TRANSACTIONS)) +
     (ucast (did - 1) * (ucast INITIAL_ORDERS_PER_DISTRICT + MAX_ORDER_TRANSACTIONS)) + ucast (oid - 1)"

text \<open>\<open>Order::hash_key(ol_w_id, ol_d_id, ol_o_id)\<close> narrows the 64-bit \<open>ol_o_id\<close> to 32 bits.\<close>

definition OrderLine_hash_key :: "u32 \<Rightarrow> u32 \<Rightarrow> u64 \<Rightarrow> u64 \<Rightarrow> u64" where
  "OrderLine_hash_key w_id d_id o_id number =
     (Order_hash_key_static w_id d_id (ucast o_id) * 15) + (number - 1)"

definition OrderLine_hash_key_static :: "u32 \<Rightarrow> u32 \<Rightarrow> u32 \<Rightarrow> u32 \<Rightarrow> u64" where
  "OrderLine_hash_key_static wid did oid number =
     (Order_hash_key_static wid did oid * 15) + ucast (number - 1)"

definition NewOrder_hash_key :: "u32 \<Rightarrow> u32 \<Rightarrow> u32 \<Rightarrow> u64" where
  "NewOrder_hash_key wid did oid =
     (ucast ((wid - 1) * DISTRICTS_PER_WAREHOUSE) * (ucast INITIAL_ORDERS_PER_DISTRICT + MAX_ORDER_TRANSACTIONS)) +
     (ucast (did - 1) * (ucast INITIAL_ORDERS_PER_DISTRICT + MAX_ORDER_TRANSACTIONS)) + ucast (oid - 1)"

definition Stock_hash_key :: "u32 \<Rightarrow> u64 \<Rightarrow> u64" where
  "Stock_hash_key w_id i_id = ucast ((w_id - 1) * STOCK_PER_WAREHOUSE) + (i_id - 1)"

definition Stock_hash_key_static :: "u32 \<Rightarrow> u32 \<Rightarrow> u64" where
  "Stock_hash_key_static wid iid = ucast (((wid - 1) * STOCK_PER_WAREHOUSE) + (iid - 1))"

definition History_hash_key :: "u32 \<Rightarrow> u32 \<Rightarrow> u32 \<Rightarrow> u64" where
  "History_hash_key wid did cid =
     ucast (((wid - 1) * DISTRICTS_PER_WAREHOUSE * CUSTOMERS_PER_DISTRICT) +
            ((did - 1) * CUSTOMERS_PER_DISTRICT) + (cid - 1))"

section \<open>Keys as natural numbers\<close>

text \<open>
  The rows of a scale of up to ten thousand warehouses; within it no key computation wraps around.
\<close>

definition valid_wd :: "u32 \<Rightarrow> u32 \<Rightarrow> bool" where
  "valid_wd w d \<longleftrightarrow> 1 \<le> unat w \<and> unat w \<le> 10000 \<and> 1 \<le> unat d \<and> unat d \<le> 10"

lemmas unat_keys = unat_add_small unat_mult_small

text \<open>The keys over the differences \<open>w - 1\<close>, \<open>d - 1\<close>, ..., which no longer wrap around.\<close>

lemma key_digits32:
  assumes "unat (x :: u32) \<le> 9999" and "unat y \<le> 9" and "unat z \<le> 2999"
  shows "unat (x * 10 + y) = unat x * 10 + unat y"
    and "unat (x * 10 * 3000 + y * 3000 + z) = unat x * 30000 + unat y * 3000 + unat z"
  using assms by (simp_all add: unat_keys)

lemma key_digits64:
  assumes "unat (x :: u32) \<le> 9999" and "unat (y :: u32) \<le> 9" and "unat (z :: u64) < 2 ^ 62"
  shows "unat (ucast (x * 10) * 6840 + ucast y * 6840 + z) = unat x * 68400 + unat y * 6840 + unat z"
  using assms by (simp add: unat_keys)

lemma orders_per_district: "ucast INITIAL_ORDERS_PER_DISTRICT + MAX_ORDER_TRANSACTIONS = (6840 :: u64)"
  by (simp add: tpcc_consts)

lemma valid_wd_pred:
  assumes "valid_wd w d"
  shows "unat (w - 1) = unat w - 1" "unat w - 1 \<le> 9999" "unat (d - 1) = unat d - 1" "unat d - 1 \<le> 9"
  using assms by (auto simp: valid_wd_def unat_pred)

lemma District_hash_key_unat:
  "valid_wd w d \<Longrightarrow> unat (District_hash_key w d) = (unat w - 1) * 10 + (unat d - 1)"
  unfolding District_hash_key_def DISTRICTS_PER_WAREHOUSE_def unat_ucast_u32_u64
  by (subst key_digits32(1) [where z = 0]) (use valid_wd_pred in simp_all)

lemma Customer_hash_key_unat:
  assumes "valid_wd w d" and "1 \<le> unat c" and "unat c \<le> 3000"
  shows "unat (Customer_hash_key w d c) = (unat w - 1) * 30000 + (unat d - 1) * 3000 + (unat c - 1)"
  unfolding Customer_hash_key_def DISTRICTS_PER_WAREHOUSE_def CUSTOMERS_PER_DISTRICT_def unat_ucast_u32_u64
  by (subst key_digits32(2)) (use assms valid_wd_pred in \<open>simp_all add: unat_pred\<close>)

lemma Order_hash_key_unat:
  assumes "valid_wd w d" and "1 \<le> unat oid" and "unat oid < 2 ^ 62"
  shows "unat (Order_hash_key w d oid) = (unat w - 1) * 68400 + (unat d - 1) * 6840 + (unat oid - 1)"
  unfolding Order_hash_key_def DISTRICTS_PER_WAREHOUSE_def orders_per_district
  by (subst key_digits64) (use assms valid_wd_pred in \<open>simp_all add: unat_pred\<close>)

lemma Order_hash_key_static_unat:
  assumes "valid_wd w d" and "1 \<le> unat oid"
  shows "unat (Order_hash_key_static w d oid) = (unat w - 1) * 68400 + (unat d - 1) * 6840 + (unat oid - 1)"
  unfolding Order_hash_key_static_def DISTRICTS_PER_WAREHOUSE_def orders_per_district
  by (subst key_digits64) (use assms valid_wd_pred unat_lt_2p [of oid] in \<open>simp_all add: unat_pred\<close>)

lemma Stock_hash_key_static_unat:
  assumes "1 \<le> unat w" and "unat w \<le> 10000" and "1 \<le> unat i" and "unat i \<le> 100000"
  shows "unat (Stock_hash_key_static w i) = (unat w - 1) * 100000 + (unat i - 1)"
proof -
  have "unat (x * 100000 + y) = unat x * 100000 + unat y" if "unat x \<le> 9999" "unat y \<le> 99999" for x y :: u32
    using that by (simp add: unat_keys)
  from this [of "w - 1" "i - 1"] show ?thesis
    unfolding Stock_hash_key_static_def STOCK_PER_WAREHOUSE_def unat_ucast_u32_u64
    using assms unat_pred [of w] unat_pred [of i] by linarith
qed

lemma OrderLine_hash_key_static_unat:
  assumes "valid_wd w d" and "1 \<le> unat oid" and "1 \<le> unat n" and "unat n \<le> 15"
  shows "unat (OrderLine_hash_key_static w d oid n) =
     ((unat w - 1) * 68400 + (unat d - 1) * 6840 + (unat oid - 1)) * 15 + (unat n - 1)"
proof -
  let ?k = "Order_hash_key_static w d oid"
  have k: "unat ?k = (unat w - 1) * 68400 + (unat d - 1) * 6840 + (unat oid - 1)"
    using assms(1,2) by (rule Order_hash_key_static_unat)
  then have "unat ?k < 2 ^ 33"
    using assms(1) unat_lt_2p [of oid] by (auto simp: valid_wd_def)
  moreover have "unat (ucast (n - 1) :: u64) = unat n - 1"
    using assms(3) by (simp add: unat_pred)
  ultimately have "unat (?k * 15 + ucast (n - 1)) = unat ?k * 15 + (unat n - 1)"
    using assms(4) by (subst unat_add_small; subst unat_mult_small) auto
  then show ?thesis unfolding OrderLine_hash_key_static_def k .
qed

section \<open>Keys identify rows\<close>

lemma pred_eq: "unat (x :: 'a::len word) - 1 = unat y - 1 \<Longrightarrow> 1 \<le> unat x \<Longrightarrow> 1 \<le> unat y \<Longrightarrow> x = y"
  by (simp add: word_unat_eq_iff)

lemma District_hash_key_inj:
  assumes "valid_wd w d" and "valid_wd w' d'" and "District_hash_key w d = District_hash_key w' d'"
  shows "w = w' \<and> d = d'"
proof -
  have "(unat w - 1) * 10 + (unat d - 1) = (unat w' - 1) * 10 + (unat d' - 1)"
    using assms by (metis District_hash_key_unat)
  then have "unat w - 1 = unat w' - 1 \<and> unat d - 1 = unat d' - 1"
    by (rule mixed_radix) (use assms in \<open>auto simp: valid_wd_def\<close>)
  then show ?thesis using assms pred_eq by (auto simp: valid_wd_def)
qed

lemma Customer_hash_key_inj:
  assumes "valid_wd w d" "valid_wd w' d'" "1 \<le> unat c" "unat c \<le> 3000" "1 \<le> unat c'" "unat c' \<le> 3000"
    and "Customer_hash_key w d c = Customer_hash_key w' d' c'"
  shows "w = w' \<and> d = d' \<and> c = c'"
proof -
  let ?wd = "(unat w - 1) * 10 + (unat d - 1)" and ?wd' = "(unat w' - 1) * 10 + (unat d' - 1)"
  have eq: "?wd * 3000 + (unat c - 1) = ?wd' * 3000 + (unat c' - 1)"
    using Customer_hash_key_unat [OF assms(1,3,4)] Customer_hash_key_unat [OF assms(2,5,6)] assms(7)
    by (simp add: algebra_simps)
  have dc: "?wd = ?wd' \<and> unat c - 1 = unat c' - 1"
    using eq by (rule mixed_radix) (use assms in auto)
  then have "unat w - 1 = unat w' - 1 \<and> unat d - 1 = unat d' - 1"
    by (intro mixed_radix) (use assms in \<open>auto simp: valid_wd_def\<close>)
  then show ?thesis using assms pred_eq dc by (auto simp: valid_wd_def)
qed

lemma Stock_hash_key_inj:
  assumes "1 \<le> unat w" "unat w \<le> 10000" "1 \<le> unat w'" "unat w' \<le> 10000"
    "1 \<le> unat i" "unat i \<le> 100000" "1 \<le> unat i'" "unat i' \<le> 100000"
    and "Stock_hash_key_static w i = Stock_hash_key_static w' i'"
  shows "w = w' \<and> i = i'"
proof -
  have "(unat w - 1) * 100000 + (unat i - 1) = (unat w' - 1) * 100000 + (unat i' - 1)"
    using assms by (metis Stock_hash_key_static_unat)
  then have "unat w - 1 = unat w' - 1 \<and> unat i - 1 = unat i' - 1"
    by (rule mixed_radix) (use assms in auto)
  then show ?thesis using assms pred_eq by auto
qed

text \<open>Orders are told apart as long as a district has at most 6840 of them.\<close>

lemma Order_hash_key_inj:
  assumes "valid_wd w d" "valid_wd w' d'" "1 \<le> unat oid" "unat oid \<le> 6840" "1 \<le> unat oid'" "unat oid' \<le> 6840"
    and "Order_hash_key w d oid = Order_hash_key w' d' oid'"
  shows "w = w' \<and> d = d' \<and> oid = oid'"
proof -
  let ?wd = "(unat w - 1) * 10 + (unat d - 1)" and ?wd' = "(unat w' - 1) * 10 + (unat d' - 1)"
  have eq: "?wd * 6840 + (unat oid - 1) = ?wd' * 6840 + (unat oid' - 1)"
    using Order_hash_key_unat [OF assms(1,3)] Order_hash_key_unat [OF assms(2,5)] assms(4,6,7)
    by (simp add: algebra_simps)
  have do: "?wd = ?wd' \<and> unat oid - 1 = unat oid' - 1"
    using eq by (rule mixed_radix) (use assms in auto)
  then have "unat w - 1 = unat w' - 1 \<and> unat d - 1 = unat d' - 1"
    by (intro mixed_radix) (use assms in \<open>auto simp: valid_wd_def\<close>)
  moreover have "oid = oid'" using do assms pred_eq [of oid oid'] by simp
  ultimately show ?thesis using assms pred_eq by (auto simp: valid_wd_def)
qed

text \<open>The member functions and the static overloads agree.\<close>

lemma Item_hash_key_eq: "1 \<le> unat i \<Longrightarrow> Item_hash_key (ucast i) = Item_hash_key_static i"
  by (simp add: Item_hash_key_def Item_hash_key_static_def word_unat_eq_iff unat_pred)

lemma Stock_hash_key_eq:
  assumes "1 \<le> unat w" "unat w \<le> 10000" "1 \<le> unat i" "unat i \<le> 100000"
  shows "Stock_hash_key w (ucast i) = Stock_hash_key_static w i"
proof -
  have x: "unat ((w - 1) * 100000) = (unat w - 1) * 100000"
    using assms(1,2) unat_pred [of w] by (subst unat_mult_small) auto
  have "unat (ucast i - 1 :: u64) = unat i - 1" using assms(3) by (simp add: unat_pred)
  then have "unat (ucast ((w - 1) * 100000) + (ucast i - 1) :: u64) = (unat w - 1) * 100000 + (unat i - 1)"
    using assms x by (subst unat_add_small) auto
  then show ?thesis
    using Stock_hash_key_static_unat [OF assms]
    by (simp only: Stock_hash_key_def STOCK_PER_WAREHOUSE_def word_unat_eq_iff)
qed

lemma Order_hash_key_eq: "1 \<le> unat oid \<Longrightarrow> Order_hash_key w d (ucast oid) = Order_hash_key_static w d oid"
proof -
  assume "1 \<le> unat oid"
  then have "(ucast oid - 1 :: u64) = ucast (oid - 1)" by (simp add: word_unat_eq_iff unat_pred)
  then show ?thesis by (simp only: Order_hash_key_def Order_hash_key_static_def)
qed

lemma NewOrder_hash_key_eq: "NewOrder_hash_key w d oid = Order_hash_key_static w d oid"
  by (simp add: NewOrder_hash_key_def Order_hash_key_static_def)

lemma History_hash_key_eq: "History_hash_key w d c = Customer_hash_key w d c"
  by (simp add: History_hash_key_def Customer_hash_key_def)

lemma OrderLine_hash_key_eq:
  assumes "1 \<le> unat number"
  shows "OrderLine_hash_key w d (ucast oid) (ucast number) = OrderLine_hash_key_static w d oid number"
proof -
  have "(ucast number - 1 :: u64) = ucast (number - 1)" using assms by (simp add: word_unat_eq_iff unat_pred)
  moreover have "ucast (ucast oid :: u64) = oid" by (rule bit_word_eqI) (simp add: bit_simps)
  ultimately show ?thesis by (simp only: OrderLine_hash_key_def OrderLine_hash_key_static_def)
qed

lemma hash_keys_in_tables:
  assumes "1 \<le> unat d" and "unat d \<le> 10" and "1 \<le> unat c" and "unat c \<le> 3000"
    and "1 \<le> unat i" and "unat i \<le> 100000" and "1 \<le> unat oid" and "unat oid \<le> 6840"
    and "1 \<le> unat number" and "unat number \<le> 15"
  shows "unat (Warehouse_hash_key 1) < unat TSIZE_WAREHOUSE \<and>
    unat (District_hash_key 1 d) < unat TSIZE_DISTRICT \<and>
    unat (Customer_hash_key 1 d c) < unat TSIZE_CUSTOMER \<and>
    unat (History_hash_key 1 d c) < unat TSIZE_HISTORY \<and>
    unat (Item_hash_key_static i) < unat TSIZE_ITEM \<and>
    unat (Stock_hash_key_static 1 i) < unat TSIZE_STOCK \<and>
    unat (Order_hash_key_static 1 d oid) < unat TSIZE_ORDER \<and>
    unat (OrderLine_hash_key_static 1 d oid number) < unat TSIZE_ORDER_LINE"
proof -
  have wd: "valid_wd 1 d" using assms by (simp add: valid_wd_def)
  have "(unat d - 1) * 6840 + (unat oid - 1) \<le> 9 * 6840 + 6839"
    using assms by (intro add_mono mult_le_mono) auto
  then show ?thesis
    using assms wd by (simp add: const_simps District_hash_key_unat Customer_hash_key_unat History_hash_key_eq
        Stock_hash_key_static_unat Order_hash_key_static_unat OrderLine_hash_key_static_unat
        Warehouse_hash_key_def Item_hash_key_static_def unat_pred) arith
qed

section \<open>Properties\<close>

text \<open>
  C29. Hash keys identify rows: two districts, customers, stock rows or orders with the same key are
  the same, as long as a district has at most 6840 orders.  And the keys of the rows of the configured
  scale, one warehouse, lie inside their tables; an order and its lines do for the first 6840 orders
  of a district.
\<close>

theorem hash_keys_identify_rows:
  assumes "valid_wd w d" and "valid_wd w' d'"
  shows "(District_hash_key w d = District_hash_key w' d' \<longrightarrow> w = w' \<and> d = d') \<and>
    (1 \<le> unat c \<and> unat c \<le> 3000 \<and> 1 \<le> unat c' \<and> unat c' \<le> 3000 \<and>
       Customer_hash_key w d c = Customer_hash_key w' d' c' \<longrightarrow> w = w' \<and> d = d' \<and> c = c') \<and>
    (1 \<le> unat i \<and> unat i \<le> 100000 \<and> 1 \<le> unat i' \<and> unat i' \<le> 100000 \<and>
       Stock_hash_key_static w i = Stock_hash_key_static w' i' \<longrightarrow> w = w' \<and> i = i') \<and>
    (1 \<le> unat oid \<and> unat oid \<le> 6840 \<and> 1 \<le> unat oid' \<and> unat oid' \<le> 6840 \<and>
       Order_hash_key w d oid = Order_hash_key w' d' oid' \<longrightarrow> w = w' \<and> d = d' \<and> oid = oid') \<and>
    (1 \<le> unat c \<and> unat c \<le> 3000 \<and> 1 \<le> unat i \<and> unat i \<le> 100000 \<and>
     1 \<le> unat oid32 \<and> unat oid32 \<le> 6840 \<and> 1 \<le> unat number \<and> unat number \<le> 15 \<longrightarrow>
    unat (Warehouse_hash_key 1) < unat TSIZE_WAREHOUSE \<and>
    unat (District_hash_key 1 d) < unat TSIZE_DISTRICT \<and>
    unat (Customer_hash_key 1 d c) < unat TSIZE_CUSTOMER \<and>
    unat (History_hash_key 1 d c) < unat TSIZE_HISTORY \<and>
    unat (Item_hash_key_static i) < unat TSIZE_ITEM \<and>
    unat (Stock_hash_key_static 1 i) < unat TSIZE_STOCK \<and>
    unat (Order_hash_key_static 1 d oid32) < unat TSIZE_ORDER \<and>
    unat (OrderLine_hash_key_static 1 d oid32 number) < unat TSIZE_ORDER_LINE)"
proof -
  have "1 \<le> unat d" "unat d \<le> 10" using assms(1) by (simp_all add: valid_wd_def)
  note inside = hash_keys_in_tables [OF this, of c i oid32 number]
  show ?thesis
    using District_hash_key_inj [OF assms] Customer_hash_key_inj [OF assms] Order_hash_key_inj [OF assms]
      Stock_hash_key_inj [of w w' i i'] assms inside by (intro conjI impI) (auto simp: valid_wd_def)
qed

theorem hash_keys_identify_rows_witness:
  "District_hash_key 1 4 \<noteq> District_hash_key 2 4 \<and> unat (Customer_hash_key 1 4 3000) < unat TSIZE_CUSTOMER"
  using hash_keys_identify_rows [of 1 4 2 4 3000 1 1 1 1 1 1 1] by (simp add: valid_wd_def)

end
