(* ===== verification/Tpcc_Rand.thy ===== *)
theory Tpcc_Rand
  imports Complex_Main Prelude
begin

text \<open>
  The random source of the TPC-C loader: \<open>FastRandom\<close> and \<open>XORRandom\<close> of \<^verbatim>\<open>app/tpcc/fastrandom.hpp\<close>
  and \<open>Rand\<close> of \<^verbatim>\<open>app/tpcc/rand.hpp\<close>.  The linear congruential generator is exact.  What the loader
  takes from elsewhere is a record of arguments: the values of libc's \<open>rand()\<close>, the permutations of
  \<open>std::random_shuffle\<close>, the rounding of \<open>double\<close> arithmetic in \<open>randomNumber\<close>, the rounding to
  \<open>float\<close>, and the bytes a \<open>memcpy\<close> reads after the end of a string.  Where one expression draws
  twice, the left operand is drawn first; C++ leaves that order open.
\<close>

section \<open>FastRandom\<close>

definition set_seed0 :: "u64 \<Rightarrow> u64" where
  "set_seed0 seed = (seed XOR 0x5DEECE66D) AND (2 ^ 48 - 1)"

definition next_bits :: "nat \<Rightarrow> u64 \<Rightarrow> u64 \<times> u64" where
  "next_bits bits seed0 = (let seed = (seed0 * 0x5DEECE66D + 0xB) AND (2 ^ 48 - 1) in
     (drop_bit (48 - bits) seed, seed))"

definition fr_next :: "u64 \<Rightarrow> u64 \<times> u64" where
  "fr_next seed = (case next_bits 32 seed of (hi, s1) \<Rightarrow>
     case next_bits 32 s1 of (lo, s2) \<Rightarrow> (push_bit 32 hi + lo, s2))"

definition next_u32 :: "u64 \<Rightarrow> u32 \<times> u64" where
  "next_u32 seed = (case next_bits 32 seed of (v, s) \<Rightarrow> (ucast v, s))"

definition next_u16 :: "u64 \<Rightarrow> u16 \<times> u64" where
  "next_u16 seed = (case next_bits 16 seed of (v, s) \<Rightarrow> (ucast v, s))"

text \<open>The numerator of \<open>next_uniform\<close>, whose denominator is \<open>2 ^ 53\<close>.\<close>

definition next_uniform :: "u64 \<Rightarrow> u64 \<times> u64" where
  "next_uniform seed = (case next_bits 26 seed of (hi, s1) \<Rightarrow>
     case next_bits 27 s1 of (lo, s2) \<Rightarrow> (push_bit 27 hi + lo, s2))"

definition next_char :: "u64 \<Rightarrow> char \<times> u64" where
  "next_char seed = (case next_bits 8 seed of (v, s) \<Rightarrow> (char_of (unat (v mod 256)), s))"

definition readables :: string where
  "readables = ''0123456789@ABCDEFGHIJKLMNOPQRSTUVWXYZ_abcdefghijklmnopqrstuvwxyz''"

definition next_readable_char :: "u64 \<Rightarrow> (char \<times> u64) result" where
  "next_readable_char seed = (case next_bits 6 seed of (v, s) \<Rightarrow>
     if unat v < length readables then Inr (readables ! unat v, s)
     else if unat v = length readables then Inr (CHR 0x00, s) else Inl OutOfBounds)"

fun next_string :: "nat \<Rightarrow> u64 \<Rightarrow> string \<times> u64" where
  "next_string 0 seed = ([], seed)"
| "next_string (Suc len) seed = (case next_char seed of (c, s1) \<Rightarrow>
     case next_string len s1 of (cs, s2) \<Rightarrow> (c # cs, s2))"

fun next_readable_string :: "nat \<Rightarrow> u64 \<Rightarrow> (string \<times> u64) result" where
  "next_readable_string 0 seed = Inr ([], seed)"
| "next_readable_string (Suc len) seed =
     rbind (next_readable_char seed) (\<lambda>(c, s1). rmap (\<lambda>(cs, s2). (c # cs, s2)) (next_readable_string len s1))"

section \<open>XORRandom\<close>

text \<open>At the width \<open>T\<close> of its template argument.\<close>

definition xor_next :: "'a::len word \<Rightarrow> 'a word \<times> 'a word" where
  "xor_next state =
     (let x1 = state XOR push_bit 13 state; x2 = x1 XOR drop_bit 7 x1; x3 = x2 XOR push_bit 17 x2 in (x3, x3))"

definition xor_next_range :: "'a::len word \<Rightarrow> 'a word \<Rightarrow> 'a word \<Rightarrow> ('a word \<times> 'a word) result" where
  "xor_next_range lo hi state =
     (if hi - lo = 0 then Inl DivByZero
      else case xor_next state of (x, state') \<Rightarrow> Inr (x mod (hi - lo) + lo, state'))"

text \<open>The initial states of the two instances.\<close>

definition XORRandom32 :: u32 where
  "XORRandom32 = 0x25F16D1D"

definition XORRandom64 :: u64 where
  "XORRandom64 = 0x2545F4914F6CDD1D"

text \<open>Each step of \<open>Next\<close> is injective, so that a state other than 0 never becomes 0.\<close>

lemma push_bit_fixed:
  fixes x :: "'a::len word"
  assumes "push_bit k x = x" and "0 < k"
  shows "x = 0"
proof -
  have "\<not> bit x n" for n
  proof (induction n rule: less_induct)
    case (less n)
    have "bit x n \<longleftrightarrow> bit (push_bit k x) n" using assms(1) by simp
    then show ?case using less [of "n - k"] assms(2) by (auto simp: bit_push_bit_iff)
  qed
  then show ?thesis by (simp add: bit_eq_iff)
qed

lemma drop_bit_fixed:
  fixes x :: "'a::len word"
  assumes "drop_bit k x = x" and "0 < k"
  shows "x = 0"
proof -
  have "bit x n \<longleftrightarrow> bit x (n + j * k)" for n j
  proof (induction j)
    case (Suc j)
    have "bit x (n + j * k) \<longleftrightarrow> bit (drop_bit k x) (n + j * k)" using assms(1) by simp
    also have "\<dots> \<longleftrightarrow> bit x (n + Suc j * k)" by (simp add: bit_drop_bit_eq algebra_simps)
    finally show ?case using Suc by simp
  qed simp
  moreover have "\<not> bit x (n + LENGTH('a) * k)" for n
  proof -
    have "LENGTH('a) \<le> n + LENGTH('a) * k" using assms(2) by (simp add: trans_le_add2)
    then show ?thesis using bit_imp_le_length [of x "n + LENGTH('a) * k"] by linarith
  qed
  ultimately have "\<not> bit x n" for n by blast
  then show ?thesis by (simp add: bit_eq_iff)
qed

lemma xor_eq_0: "x XOR y = 0 \<longleftrightarrow> y = x" for x y :: "'a::len word"
  by (auto simp: bit_eq_iff bit_xor_iff)

lemma xor_push_nonzero: "x XOR push_bit k x \<noteq> 0" if "x \<noteq> 0" "0 < k" for x :: "'a::len word"
  using that push_bit_fixed [of k x] by (auto simp: xor_eq_0)

lemma xor_drop_nonzero: "x XOR drop_bit k x \<noteq> 0" if "x \<noteq> 0" "0 < k" for x :: "'a::len word"
  using that drop_bit_fixed [of k x] by (auto simp: xor_eq_0)

lemma xor_next_nonzero: "state \<noteq> 0 \<Longrightarrow> snd (xor_next state) \<noteq> 0"
  unfolding xor_next_def Let_def snd_conv by (intro xor_push_nonzero xor_drop_nonzero) simp_all

lemma xor_random_nonzero: "state \<noteq> 0 \<Longrightarrow> ((\<lambda>s. snd (xor_next s)) ^^ n) state \<noteq> 0"
  by (induction n) (simp_all add: xor_next_nonzero)

lemma xor_random_never_zero:
  "((\<lambda>s. snd (xor_next s)) ^^ n) XORRandom32 \<noteq> 0" "((\<lambda>s. snd (xor_next s)) ^^ n) XORRandom64 \<noteq> 0"
  by (rule xor_random_nonzero; simp add: XORRandom32_def XORRandom64_def)+

section \<open>Rand\<close>

record rand_env =
  libc_rand :: "nat \<Rightarrow> nat"
  dbl_pick :: "u64 \<Rightarrow> int \<Rightarrow> int \<Rightarrow> int"
  shuffled :: "nat \<Rightarrow> u32 list \<Rightarrow> u32 list"
  fl :: "rat \<Rightarrow> rat"
  beyond :: "nat \<Rightarrow> string"

record rand_state =
  fr_seed :: u64
  rand_calls :: nat
  shuffles :: nat
  copies :: nat
  tl_hack :: u32

definition new_rand :: rand_state where
  "new_rand = \<lparr>fr_seed = set_seed0 0xdeadbeef, rand_calls = 0, shuffles = 0, copies = 0, tl_hack = 100000\<rparr>"

text \<open>Computations that draw from the source and may fail an assertion.\<close>

type_synonym 'a gen = "rand_env \<Rightarrow> rand_state \<Rightarrow> ('a \<times> rand_state) result"

definition gret :: "'a \<Rightarrow> 'a gen" where
  "gret x e s = Inr (x, s)"

definition gbind :: "'a gen \<Rightarrow> ('a \<Rightarrow> 'b gen) \<Rightarrow> 'b gen" where
  "gbind g f e s = rbind (g e s) (\<lambda>(x, s'). f x e s')"

definition draw :: "(u64 \<Rightarrow> ('a \<times> u64) result) \<Rightarrow> 'a gen" where
  "draw f e s = rmap (\<lambda>(x, seed). (x, s\<lparr>fr_seed := seed\<rparr>)) (f (fr_seed s))"

definition rand :: "nat gen" where
  "rand e s = Inr (libc_rand e (rand_calls s), s\<lparr>rand_calls := Suc (rand_calls s)\<rparr>)"

definition checkBetweenInclusive :: "int \<Rightarrow> int \<Rightarrow> int \<Rightarrow> int result" where
  "checkBetweenInclusive v lower upper = (if lower \<le> v \<and> v \<le> upper then Inr v else Inl AssertFailed)"

definition randomNumber :: "int \<Rightarrow> int \<Rightarrow> int gen" where
  "randomNumber lo hi e s = (case next_uniform (fr_seed s) of (u, seed) \<Rightarrow>
     rmap (\<lambda>v. (v, s\<lparr>fr_seed := seed\<rparr>)) (checkBetweenInclusive (dbl_pick e u lo hi) lo hi))"

partial_function (option) randomNumberExcluding ::
  "int \<Rightarrow> int \<Rightarrow> int \<Rightarrow> rand_env \<Rightarrow> rand_state \<Rightarrow> (int \<times> rand_state) result option" where
  "randomNumberExcluding lo hi exclude e s =
     (case randomNumber lo hi e s of
        Inl err \<Rightarrow> Some (Inl err)
      | Inr (ret, s') \<Rightarrow> if ret = exclude then randomNumberExcluding lo hi exclude e s' else Some (Inr (ret, s')))"

definition nonUniformRandom :: "int \<Rightarrow> int \<Rightarrow> int \<Rightarrow> int \<Rightarrow> int gen" where
  "nonUniformRandom A C lo hi =
     gbind (randomNumber 0 A) (\<lambda>x. gbind (randomNumber lo hi) (\<lambda>y.
       gret (((x OR y) + C) mod (hi - lo + 1) + lo)))"

text \<open>The vector behind \<open>generate_random_o_c_id\<close>; \<open>back()\<close> of an empty vector is undefined.\<close>

definition generate_random_o_c_id ::
  "(nat list \<Rightarrow> nat list) \<Rightarrow> bool \<times> nat list \<Rightarrow> (nat \<times> bool \<times> nat list) result" where
  "generate_random_o_c_id shuffle s =
     (let v = (if fst s then snd s else shuffle [0..<3000]) in
      if v = [] then Inl OutOfBounds else Inr (last v, True, butlast v))"

definition make_permutation :: "int \<Rightarrow> int \<Rightarrow> u32 list gen" where
  "make_permutation lo hi e s =
     Inr (shuffled e (shuffles s) (map word_of_int [lo..hi]), s\<lparr>shuffles := Suc (shuffles s)\<rparr>)"

definition GetCurrentTime :: "u32 gen" where
  "GetCurrentTime e s = Inr (tl_hack s + 1, s\<lparr>tl_hack := tl_hack s + 1\<rparr>)"

definition generateRandomString :: "nat \<Rightarrow> string gen" where
  "generateRandomString len = draw (next_readable_string len)"

definition generateRandomString2 :: "int \<Rightarrow> int \<Rightarrow> string gen" where
  "generateRandomString2 min_chars max_chars =
     gbind (randomNumber min_chars max_chars) (\<lambda>len. generateRandomString (nat len))"

fun randomNStr_from :: "nat \<Rightarrow> u64 \<Rightarrow> string \<times> u64" where
  "randomNStr_from 0 seed = ([], seed)"
| "randomNStr_from (Suc len) seed = (case fr_next seed of (v, s1) \<Rightarrow>
     case randomNStr_from len s1 of (cs, s2) \<Rightarrow> (char_of (48 + unat (v mod 10)) # cs, s2))"

definition randomNStr :: "nat \<Rightarrow> string gen" where
  "randomNStr len = draw (\<lambda>seed. Inr (randomNStr_from len seed))"

definition syllables :: "string list" where
  "syllables = [''BAR'', ''OUGHT'', ''ABLE'', ''PRI'', ''PRES'', ''ESE'', ''ANTI'', ''CALLY'', ''ATION'', ''EING'']"

definition syllable :: "int \<Rightarrow> string result" where
  "syllable i = (if 0 \<le> i \<and> i < 10 then Inr (syllables ! nat i) else Inl OutOfBounds)"

definition Lastname :: "int \<Rightarrow> string result" where
  "Lastname num = rbind (syllable (num div 100)) (\<lambda>a. rbind (syllable (num div 10 mod 10)) (\<lambda>b.
     rbind (syllable (num mod 10)) (\<lambda>c. Inr (a @ b @ c))))"

definition getCustomerLastName :: "int \<Rightarrow> string gen" where
  "getCustomerLastName num e s = rmap (\<lambda>n. (n, s)) (Lastname num)"

definition getNonUniformCustomerLastNameLoad :: "string gen" where
  "getNonUniformCustomerLastNameLoad = gbind (nonUniformRandom 255 157 0 999) getCustomerLastName"

definition transactionGetRandomCustomerID :: "int gen" where
  "transactionGetRandomCustomerID = gbind (nonUniformRandom 1023 259 1 3000)
     (\<lambda>v e s. rmap (\<lambda>v. (v, s)) (checkBetweenInclusive v 1 3000))"

text \<open>\<open>memcpy(field, str.c_str(), n)\<close>: the string, its terminator, then what lies behind it.\<close>

definition memcpy_str :: "nat \<Rightarrow> string \<Rightarrow> string gen" where
  "memcpy_str n str e s = Inr (take n (str @ CHR 0x00 # beyond e (copies s)), s\<lparr>copies := Suc (copies s)\<rparr>)"

definition copy_random :: "nat \<Rightarrow> int \<Rightarrow> int \<Rightarrow> string gen" where
  "copy_random n lo hi = gbind (generateRandomString2 lo hi) (memcpy_str n)"

definition copy_random1 :: "nat \<Rightarrow> nat \<Rightarrow> string gen" where
  "copy_random1 n len = gbind (generateRandomString len) (memcpy_str n)"

section \<open>Ranges\<close>

lemma next_bits_lt:
  assumes "bits \<le> 48"
  shows "unat (fst (next_bits bits seed)) < 2 ^ bits"
proof -
  let ?s = "(seed * 0x5DEECE66D + 0xB) AND (2 ^ 48 - 1) :: u64"
  have "?s \<le> 2 ^ 48 - 1" by (rule word_and_le1)
  then have "unat ?s < 2 ^ 48" by (simp add: word_le_nat_alt)
  also have "(2 :: nat) ^ 48 = 2 ^ bits * 2 ^ (48 - bits)" using assms by (simp flip: power_add)
  finally have "unat ?s div 2 ^ (48 - bits) < 2 ^ bits" by (simp add: less_mult_imp_div_less)
  moreover have "unat (drop_bit (48 - bits) ?s) = unat ?s div 2 ^ (48 - bits)"
    by (simp only: unat_drop_bit_eq drop_bit_eq_div [of _ "unat ?s"])
  ultimately show ?thesis by (simp add: next_bits_def Let_def)
qed

lemma length_readables: "length readables = 64"
  by (simp add: readables_def)

lemma next_readable_char_ok: "\<exists>c s'. next_readable_char s = Inr (c, s') \<and> c \<in> set readables"
  using next_bits_lt [of 6 s] by (auto simp: next_readable_char_def length_readables split: prod.splits)

lemma next_readable_string_ok:
  "\<exists>str s'. next_readable_string len s = Inr (str, s') \<and> length str = len \<and> set str \<subseteq> set readables"
proof (induction len arbitrary: s)
  case 0
  show ?case by simp
next
  case (Suc len)
  obtain c s1 where c: "next_readable_char s = Inr (c, s1)" "c \<in> set readables"
    using next_readable_char_ok by blast
  obtain str s2 where "next_readable_string len s1 = Inr (str, s2)" "length str = len" "set str \<subseteq> set readables"
    using Suc.IH [of s1] by blast
  with c show ?case by simp
qed

lemma next_uniform_lt: "unat (fst (next_uniform seed)) < 2 ^ 53"
proof -
  obtain hi s1 where hi: "next_bits 26 seed = (hi, s1)" by fastforce
  obtain lo s2 where lo: "next_bits 27 s1 = (lo, s2)" by fastforce
  have b: "unat hi < 2 ^ 26" "unat lo < 2 ^ 27"
    using next_bits_lt [of 26 seed] next_bits_lt [of 27 s1] hi lo by simp_all
  have "unat (push_bit 27 hi) = unat hi * 2 ^ 27"
    using b(1) by (simp add: unat_word_ariths push_bit_eq_mult)
  then have "unat (push_bit 27 hi + lo) = unat hi * 2 ^ 27 + unat lo"
    using b by (subst unat_add_small) simp_all
  then show ?thesis using b hi lo by (simp add: next_uniform_def)
qed

text \<open>
  The assumption on \<open>double\<close> arithmetic: scaling a number below one to a range of the loader stays in
  that range.
\<close>

definition pick_ok :: "rand_env \<Rightarrow> bool" where
  "pick_ok e \<longleftrightarrow> (\<forall>u lo hi. unat u < 2 ^ 53 \<longrightarrow> lo \<le> hi \<longrightarrow> lo \<le> dbl_pick e u lo hi \<and> dbl_pick e u lo hi \<le> hi)"

text \<open>Computations that always succeed, with a property of what they return.\<close>

definition gok :: "rand_env \<Rightarrow> 'a gen \<Rightarrow> ('a \<Rightarrow> bool) \<Rightarrow> bool" where
  "gok e g P \<longleftrightarrow> (\<forall>s. \<exists>x s'. g e s = Inr (x, s') \<and> P x)"

lemma gok_ret [intro]: "P x \<Longrightarrow> gok e (gret x) P"
  by (simp add: gok_def gret_def)

lemma gok_bind [intro]: "gok e g P \<Longrightarrow> (\<And>x. P x \<Longrightarrow> gok e (f x) R) \<Longrightarrow> gok e (gbind g f) R"
  unfolding gok_def gbind_def
proof
  fix s
  assume g: "\<forall>s. \<exists>x s'. g e s = Inr (x, s') \<and> P x" and f: "\<And>x. P x \<Longrightarrow> \<forall>s. \<exists>y s'. f x e s = Inr (y, s') \<and> R y"
  from g obtain x s1 where "g e s = Inr (x, s1)" "P x" by blast
  moreover from f [OF this(2)] obtain y s2 where "f x e s1 = Inr (y, s2)" "R y" by blast
  ultimately show "\<exists>y s'. rbind (g e s) (\<lambda>(x, s'). f x e s') = Inr (y, s') \<and> R y" by simp
qed

lemma gok_mono: "gok e g P \<Longrightarrow> (\<And>x. P x \<Longrightarrow> R x) \<Longrightarrow> gok e g R"
  by (fastforce simp: gok_def)

lemma gok_rand: "gok e rand (\<lambda>_. True)"
  by (simp add: gok_def rand_def)

lemma gok_time: "gok e GetCurrentTime (\<lambda>_. True)"
  by (simp add: gok_def GetCurrentTime_def)

lemma gok_memcpy: "gok e (memcpy_str n str) (\<lambda>_. True)"
  by (simp add: gok_def memcpy_str_def)

lemma gok_randomNumber: "pick_ok e \<Longrightarrow> lo \<le> hi \<Longrightarrow> gok e (randomNumber lo hi) (\<lambda>v. lo \<le> v \<and> v \<le> hi)"
  unfolding gok_def
proof
  fix s :: rand_state
  assume "pick_ok e" "lo \<le> hi"
  obtain u seed where u: "next_uniform (fr_seed s) = (u, seed)" by fastforce
  then have "unat u < 2 ^ 53" using next_uniform_lt [of "fr_seed s"] by simp
  then have "lo \<le> dbl_pick e u lo hi \<and> dbl_pick e u lo hi \<le> hi"
    using \<open>pick_ok e\<close> \<open>lo \<le> hi\<close> by (simp add: pick_ok_def)
  then show "\<exists>v s'. randomNumber lo hi e s = Inr (v, s') \<and> lo \<le> v \<and> v \<le> hi"
    using u by (simp add: randomNumber_def checkBetweenInclusive_def)
qed

lemma gok_nonUniform:
  assumes "pick_ok e" and "0 \<le> A" and "lo \<le> hi"
  shows "gok e (nonUniformRandom A C lo hi) (\<lambda>v. lo \<le> v \<and> v \<le> hi)"
  unfolding nonUniformRandom_def
proof (rule gok_bind [OF gok_randomNumber [OF assms(1,2)]], rule gok_bind [OF gok_randomNumber [OF assms(1,3)]], rule gok_ret)
  fix x y
  have "0 \<le> ((x OR y) + C) mod (hi - lo + 1)" "((x OR y) + C) mod (hi - lo + 1) < hi - lo + 1"
    using assms(3) pos_mod_bound [of "hi - lo + 1"] by (simp, smt (verit))
  then show "lo \<le> ((x OR y) + C) mod (hi - lo + 1) + lo \<and> ((x OR y) + C) mod (hi - lo + 1) + lo \<le> hi"
    by linarith
qed

lemma gok_string: "gok e (generateRandomString len) (\<lambda>str. length str = len \<and> set str \<subseteq> set readables)"
  unfolding gok_def generateRandomString_def draw_def
proof
  fix s
  obtain str s' where "next_readable_string len (fr_seed s) = Inr (str, s')" "length str = len"
      "set str \<subseteq> set readables"
    using next_readable_string_ok by blast
  then show "\<exists>x s'. rmap (\<lambda>(x, seed). (x, s\<lparr>fr_seed := seed\<rparr>)) (next_readable_string len (fr_seed s)) = Inr (x, s') \<and>
      length x = len \<and> set x \<subseteq> set readables" by simp
qed

lemma gok_string2:
  assumes "pick_ok e" and "lo \<le> hi"
  shows "gok e (generateRandomString2 lo hi) (\<lambda>str. nat lo \<le> length str \<and> length str \<le> nat hi)"
  unfolding generateRandomString2_def
  by (rule gok_bind [OF gok_randomNumber [OF assms]], rule gok_mono [OF gok_string]) auto

lemma gok_nstr: "gok e (randomNStr len) (\<lambda>_. True)"
  by (auto simp: gok_def randomNStr_def draw_def split: prod.splits)

lemma gok_permutation: "gok e (make_permutation lo hi) (\<lambda>_. True)"
  by (simp add: gok_def make_permutation_def)

lemma gok_copy: "pick_ok e \<Longrightarrow> lo \<le> hi \<Longrightarrow> gok e (copy_random n lo hi) (\<lambda>_. True)"
  unfolding copy_random_def by (rule gok_bind [OF gok_string2]) (auto intro: gok_memcpy)

lemma gok_copy1: "gok e (copy_random1 n len) (\<lambda>_. True)"
  unfolding copy_random1_def by (rule gok_bind [OF gok_string]) (rule gok_memcpy)

lemma Lastname_ok: "0 \<le> num \<Longrightarrow> num < 1000 \<Longrightarrow> \<exists>n. Lastname num = Inr n"
proof -
  assume "0 \<le> num" "num < 1000"
  then have "0 \<le> num div 100 \<and> num div 100 < 10" by presburger
  then show ?thesis by (simp add: Lastname_def syllable_def)
qed

lemma gok_lastname: "0 \<le> num \<Longrightarrow> num < 1000 \<Longrightarrow> gok e (getCustomerLastName num) (\<lambda>_. True)"
  using Lastname_ok by (fastforce simp: gok_def getCustomerLastName_def)

lemma gok_lastname_load: "pick_ok e \<Longrightarrow> gok e getNonUniformCustomerLastNameLoad (\<lambda>_. True)"
  unfolding getNonUniformCustomerLastNameLoad_def
  by (rule gok_bind [OF gok_nonUniform]) (auto intro: gok_lastname)

lemmas gok_rules = gok_rand gok_time gok_memcpy gok_string gok_string2 gok_nstr gok_copy gok_copy1
  gok_lastname gok_lastname_load gok_randomNumber

text \<open>An instance of the sources of randomness: the smallest choice everywhere, exact arithmetic.\<close>

definition least_env :: rand_env where
  "least_env = \<lparr>libc_rand = (\<lambda>_. 0), dbl_pick = (\<lambda>u lo hi. lo), shuffled = (\<lambda>_ xs. xs),
     fl = (\<lambda>x. x), beyond = (\<lambda>_. [])\<rparr>"

lemma least_env_pick [simp]: "pick_ok least_env"
  by (simp add: pick_ok_def least_env_def)

section \<open>Properties\<close>



end
