(* ===== verification/Behaviours.thy ===== *)
theory Behaviours
  imports Prelude
begin

text \<open>
  What the programs rely on from the Verona runtime's \<open>when(c1, ..., cn) << body\<close>: a behaviour runs
  once, with exclusive access to the cowns it names, and two behaviours that name a common cown run
  in the order in which they were spawned.  The runtime itself is a submodule and is not modelled;
  its freedom is the predicate \<open>boc_order\<close>, which holds of every completion order the contract
  allows, and its address functions are fields of a record that is an argument of the models.
  The locales turn the contract into determinism: every allowed order has the effect of running
  the behaviours one by one in spawn order.
\<close>

section \<open>The runtime's contract\<close>

text \<open>
  \<open>boc_order conflict spawned completed\<close>: from the behaviours spawned so far and not yet run, the
  runtime may next complete any one that conflicts with none spawned before it.
\<close>

inductive boc_order :: "('b \<Rightarrow> 'b \<Rightarrow> bool) \<Rightarrow> 'b list \<Rightarrow> 'b list \<Rightarrow> bool"
  for conflict :: "'b \<Rightarrow> 'b \<Rightarrow> bool" where
  boc_done: "boc_order conflict [] []"
| boc_pick: "(\<forall>x\<in>set xs. \<not> conflict x b) \<Longrightarrow> boc_order conflict (xs @ ys) ord \<Longrightarrow>
     boc_order conflict (xs @ b # ys) (b # ord)"

inductive_cases boc_order_NilE: "boc_order conflict [] ord"
inductive_cases boc_order_ConsE: "boc_order conflict bs (b # ord)"

text \<open>
  The three runtime functions that tie a cown to an address: \<open>make_cown_custom<T>(addr, ...)\<close>,
  \<open>cown_ptr::get_base_addr()\<close> and \<open>get_cown_ptr_from_addr<T>(addr)\<close>.
\<close>

record 'c verona =
  make_cown_custom :: "u64 \<Rightarrow> 'c"
  get_base_addr :: "'c \<Rightarrow> u64"
  get_cown_ptr_from_addr :: "u64 \<Rightarrow> 'c"

text \<open>
  The hypothesis on them: a cown built at an address lies at a fixed distance from it, and the
  address a cown reports leads back to that cown.
\<close>

definition verona_ok :: "'c verona \<Rightarrow> bool" where
  "verona_ok V \<longleftrightarrow>
     (\<exists>d. \<forall>a. get_base_addr V (make_cown_custom V a) = a + d) \<and>
     (\<forall>c. get_cown_ptr_from_addr V (get_base_addr V c) = c)"

lemma verona_ok_back [simp]: "verona_ok V \<Longrightarrow> get_cown_ptr_from_addr V (get_base_addr V c) = c"
  by (simp add: verona_ok_def)

lemma verona_ok_distance:
  "verona_ok V \<Longrightarrow>
     get_base_addr V (make_cown_custom V a) - get_base_addr V (make_cown_custom V b) = a - b"
  by (auto simp: verona_ok_def)

lemma verona_ok_inj: "verona_ok V \<Longrightarrow> make_cown_custom V a = make_cown_custom V b \<Longrightarrow> a = b"
  using verona_ok_distance [of V a b] by simp

section \<open>Independent behaviours commute\<close>

lemma boc_order_perm: "boc_order conflict bs ord \<Longrightarrow> length ord = length bs \<and> set ord = set bs"
  by (induction rule: boc_order.induct) auto

lemma boc_order_serial: "boc_order conflict bs bs"
proof (induction bs)
  case Nil
  show ?case by (rule boc_done)
next
  case (Cons b bs)
  then show ?case using boc_pick [of "[]" conflict b bs bs] by simp
qed

locale behaviours =
  fixes run :: "'b \<Rightarrow> 's \<Rightarrow> 's"
    and conflict :: "'b \<Rightarrow> 'b \<Rightarrow> bool"
  assumes indep_commute: "\<not> conflict a b \<Longrightarrow> run a (run b s) = run b (run a s)"
begin

lemma fold_commute:
  "\<forall>x\<in>set xs. \<not> conflict x b \<Longrightarrow> run b (fold run xs s) = fold run xs (run b s)"
  by (induction xs arbitrary: s) (simp_all add: indep_commute [symmetric])

text \<open>Every order the runtime may choose has the effect of the serial order.\<close>

lemma boc_deterministic: "boc_order conflict bs ord \<Longrightarrow> fold run ord s = fold run bs s"
  by (induction arbitrary: s rule: boc_order.induct) (simp_all add: fold_commute)

end

text \<open>
  A body that touches the rows of its own cowns only: rows are values of a store indexed by cowns.
\<close>

locale cown_bodies =
  fixes body :: "'b \<Rightarrow> ('c \<Rightarrow> 'v) \<Rightarrow> ('c \<Rightarrow> 'v)"
    and cowns :: "'b \<Rightarrow> 'c set"
  assumes body_frame: "c \<notin> cowns b \<Longrightarrow> body b st c = st c"
    and body_local: "(\<And>c. c \<in> cowns b \<Longrightarrow> st c = st' c) \<Longrightarrow> c \<in> cowns b \<Longrightarrow> body b st c = body b st' c"
begin

lemma body_disjoint_commute:
  assumes "cowns a \<inter> cowns b = {}"
  shows "body a (body b st) = body b (body a st)"
proof
  fix c
  have disj: "\<And>c. c \<in> cowns a \<Longrightarrow> c \<notin> cowns b" using assms by auto
  consider "c \<in> cowns a" | "c \<in> cowns b" | "c \<notin> cowns a" "c \<notin> cowns b" by auto
  then show "body a (body b st) c = body b (body a st) c"
  proof cases
    case 1
    have "body a (body b st) c = body a st c"
      by (rule body_local [OF _ 1]) (simp add: body_frame disj)
    then show ?thesis using 1 disj by (simp add: body_frame)
  next
    case 2
    have "body b (body a st) c = body b st c"
      by (rule body_local [OF _ 2]) (use disj body_frame in blast)
    then show ?thesis using 2 disj body_frame by metis
  next
    case 3
    then show ?thesis by (simp add: body_frame)
  qed
qed

end

sublocale cown_bodies \<subseteq> behaviours body "\<lambda>a b. cowns a \<inter> cowns b \<noteq> {}"
  by unfold_locales (rule body_disjoint_commute, simp)

text \<open>An instance of the runtime's address functions: a cown is the address it was built at.\<close>

definition flat_verona :: "u64 verona" where
  "flat_verona = \<lparr>make_cown_custom = (\<lambda>a. a), get_base_addr = (\<lambda>c. c), get_cown_ptr_from_addr = (\<lambda>a. a)\<rparr>"

lemma flat_verona_simps [simp]:
  "make_cown_custom flat_verona a = a" "get_base_addr flat_verona c = c" "get_cown_ptr_from_addr flat_verona a = a"
  by (simp_all add: flat_verona_def)

lemma flat_verona_ok [simp]: "verona_ok flat_verona"
  by (auto simp: verona_ok_def intro: exI [of _ 0])

end
