(* ===== verification/Tpcc_Db.thy ===== *)
theory Tpcc_Db
  imports Tpcc_Keys Tpcc_Rand Behaviours
begin

text \<open>
  The rows of \<^verbatim>\<open>app/tpcc/entries.hpp\<close>, the nine tables of \<^verbatim>\<open>app/tpcc/tables.hpp\<close> and the
  \<open>Database\<close> of \<^verbatim>\<open>app/tpcc/db.hpp\<close>.  A table is the array of \<open>cown_ptr\<close>s of \<open>Row_Tables\<close> together
  with the contents of the cowns it leads to.  Character arrays are strings, \<open>float\<close> fields are
  rational numbers that went through the rounding argument \<open>fl\<close>.
\<close>

section \<open>Rows\<close>

record warehouse =
  w_id :: u32
  w_name :: string
  w_street_1 :: string
  w_street_2 :: string
  w_city :: string
  w_tax :: u32
  w_ytd :: u64
  w_state :: string
  w_zip :: string
  w_magic :: u32

record district =
  d_id :: u32
  d_w_id :: u32
  d_name :: string
  d_street_1 :: string
  d_street_2 :: string
  d_city :: string
  d_state :: string
  d_zip :: string
  d_tax :: rat
  d_ytd :: u64
  d_next_o_id :: u64
  d_magic :: u32

record item =
  i_id :: u64
  i_name :: string
  i_price :: rat
  i_data :: string
  i_im_id :: u64

record customer =
  c_id :: u32
  c_d_id :: u32
  c_w_id :: u32
  c_first :: string
  c_last :: string
  c_street_1 :: string
  c_street_2 :: string
  c_city :: string
  c_phone :: string
  c_state :: string
  c_credit :: string
  c_middle :: string
  c_zip :: string
  c_since :: u64
  c_credit_lim :: u64
  c_discount :: u64
  c_balance :: rat
  c_ytd_payment :: u64
  c_payment_cnt :: u64
  c_delivery_cnt :: u64
  c_data :: string

text \<open>Fields that neither the constructor nor the code sets are uninitialised; they hold \<open>0\<close> here.\<close>

record order =
  o_id :: u64
  o_d_id :: u32
  o_w_id :: u32
  o_c_id :: u32
  o_entry_d :: u64
  o_carrier_id :: u64
  o_ol_cnt :: u32
  o_all_local :: u32

record order_line =
  ol_o_id :: u64
  ol_d_id :: u32
  ol_w_id :: u32
  ol_i_id :: u64
  ol_number :: u64
  ol_supply_w_id :: u64
  ol_delivery_d :: u64
  ol_quantity :: u64
  ol_amount :: u64
  ol_dist_info :: string

record new_order =
  no_o_id :: u32
  no_d_id :: u32
  no_w_id :: u32

record stock =
  s_w_id :: u32
  s_i_id :: u64
  s_quantity :: u64
  s_ytd :: u64
  s_order_cnt :: u64
  s_remote_cnt :: u64
  s_dists :: "string list"
  s_data :: string

record history =
  h_c_id :: u32
  h_c_d_id :: u32
  h_c_w_id :: u32
  h_d_id :: u32
  h_w_id :: u32
  h_date :: u64
  h_amount :: rat
  h_data :: string

definition Order :: "u32 \<Rightarrow> u32 \<Rightarrow> u64 \<Rightarrow> order" where
  "Order wid did oid = \<lparr>o_id = oid, o_d_id = did, o_w_id = wid, o_c_id = 0, o_entry_d = 0,
     o_carrier_id = 0, o_ol_cnt = 0, o_all_local = 0\<rparr>"

definition OrderLine :: "u32 \<Rightarrow> u32 \<Rightarrow> u64 \<Rightarrow> u64 \<Rightarrow> order_line" where
  "OrderLine w d oid number = \<lparr>ol_o_id = oid, ol_d_id = d, ol_w_id = w, ol_i_id = 0, ol_number = number,
     ol_supply_w_id = 0, ol_delivery_d = 0, ol_quantity = 0, ol_amount = 0, ol_dist_info = []\<rparr>"

definition NewOrder :: "u32 \<Rightarrow> u32 \<Rightarrow> u32 \<Rightarrow> new_order" where
  "NewOrder wid did oid = \<lparr>no_o_id = oid, no_d_id = did, no_w_id = wid\<rparr>"

section \<open>Tables\<close>

record ('c, 'r) row_store =
  rs_table :: "'c table"
  rs_rows :: "'c \<rightharpoonup> 'r"

definition new_store :: "u64 \<Rightarrow> ('c, 'r) row_store" where
  "new_store sz = \<lparr>rs_table = new_table (unat sz), rs_rows = (\<lambda>_. None)\<rparr>"

text \<open>\<open>t.insert_row(key, make_cown_custom<T>(addr, row))\<close>: the cown at \<open>addr\<close> now holds \<open>row\<close>.\<close>

definition insert_new_row :: "u64 \<Rightarrow> 'c \<Rightarrow> 'r \<Rightarrow> ('c, 'r) row_store \<Rightarrow> ('c, 'r) row_store result" where
  "insert_new_row key c row t =
     rmap (\<lambda>(_, tb). \<lparr>rs_table = tb, rs_rows = (rs_rows t)(c \<mapsto> row)\<rparr>) (insert_row key c (rs_table t))"

record 'c database =
  warehouse_table :: "('c, warehouse) row_store"
  district_table :: "('c, district) row_store"
  customer_table :: "('c, customer) row_store"
  order_line_table :: "('c, order_line) row_store"
  stock_table :: "('c, stock) row_store"
  order_table :: "('c, order) row_store"
  new_order_table :: "('c, new_order) row_store"
  item_table :: "('c, item) row_store"
  history_table :: "('c, history) row_store"

definition new_database :: "'c database" where
  "new_database = \<lparr>warehouse_table = new_store TSIZE_WAREHOUSE, district_table = new_store TSIZE_DISTRICT,
     customer_table = new_store TSIZE_CUSTOMER, order_line_table = new_store TSIZE_ORDER_LINE,
     stock_table = new_store TSIZE_STOCK, order_table = new_store TSIZE_ORDER,
     new_order_table = new_store TSIZE_NEW_ORDER, item_table = new_store TSIZE_ITEM,
     history_table = new_store TSIZE_HISTORY\<rparr>"

section \<open>Loaded tables\<close>

text \<open>
  \<open>loaded sz cown key P xs t\<close>: the table holds one row for each element of \<open>xs\<close>, in the cown and
  under the key that belong to that element, and the row satisfies \<open>P\<close>.
\<close>

definition loaded ::
  "nat \<Rightarrow> ('x \<Rightarrow> 'c) \<Rightarrow> ('x \<Rightarrow> u64) \<Rightarrow> ('x \<Rightarrow> 'r \<Rightarrow> bool) \<Rightarrow> 'x list \<Rightarrow> ('c, 'r) row_store \<Rightarrow> bool" where
  "loaded sz cown key P xs t \<longleftrightarrow> table_inv (rs_table t) \<and> tbl_size (rs_table t) = sz \<and>
     unat (tbl_cnt (rs_table t)) = length xs \<and> dom (rs_rows t) = cown ` set xs \<and>
     (\<forall>k c. get_row_addr k (rs_table t) = Inr (Some c) \<longrightarrow> c \<in> dom (rs_rows t)) \<and>
     (\<forall>x\<in>set xs. get_row_addr (key x) (rs_table t) = Inr (Some (cown x)) \<and>
        (\<exists>row. rs_rows t (cown x) = Some row \<and> P x row))"

lemma loaded_new: "loaded (unat sz) cown key P [] (new_store sz)"
  using unat_lt_2p [of sz] by (simp add: loaded_def new_store_def new_table_def table_inv_def get_row_addr_def)

lemma insert_new_row_ok:
  assumes "table_inv (rs_table t)" and "unat (tbl_cnt (rs_table t)) < tbl_size (rs_table t)"
    and "unat key < tbl_size (rs_table t)"
  obtains t' where "insert_new_row key c row t = Inr t'" "table_inv (rs_table t')"
    "unat (tbl_cnt (rs_table t')) = Suc (unat (tbl_cnt (rs_table t)))" "tbl_size (rs_table t') = tbl_size (rs_table t)"
    "\<forall>k. get_row_addr k (rs_table t') = (if k = key then Inr (Some c) else get_row_addr k (rs_table t))"
    "rs_rows t' = (rs_rows t)(c \<mapsto> row)"
proof -
  obtain tb where tb: "insert_row key c (rs_table t) = Inr (word_of_nat (unat (tbl_cnt (rs_table t))), tb)"
      "table_inv tb" "unat (tbl_cnt tb) = Suc (unat (tbl_cnt (rs_table t)))" "tbl_size tb = tbl_size (rs_table t)"
      "\<forall>k. get_row_addr k tb = (if k = key then Inr (Some c) else get_row_addr k (rs_table t))"
    using tbl.ins_ok [OF assms, of c] by blast
  show ?thesis
    by (rule that [of "\<lparr>rs_table = tb, rs_rows = (rs_rows t)(c \<mapsto> row)\<rparr>"]) (use tb in \<open>simp_all add: insert_new_row_def\<close>)
qed

lemma loaded_insert:
  assumes "loaded sz cown key P xs t" and "length xs < sz" and "unat (key x) < sz" and "P x row"
    and "\<And>y. y \<in> set xs \<Longrightarrow> key y \<noteq> key x \<and> cown y \<noteq> cown x"
  shows "\<exists>t'. insert_new_row (key x) (cown x) row t = Inr t' \<and> loaded sz cown key P (xs @ [x]) t'"
proof -
  have room: "table_inv (rs_table t)" "unat (tbl_cnt (rs_table t)) < tbl_size (rs_table t)"
      "unat (key x) < tbl_size (rs_table t)"
    using assms(1-3) by (simp_all add: loaded_def)
  obtain t' where t': "insert_new_row (key x) (cown x) row t = Inr t'" "table_inv (rs_table t')"
      "unat (tbl_cnt (rs_table t')) = Suc (unat (tbl_cnt (rs_table t)))" "tbl_size (rs_table t') = tbl_size (rs_table t)"
      "\<forall>k. get_row_addr k (rs_table t') = (if k = key x then Inr (Some (cown x)) else get_row_addr k (rs_table t))"
      "rs_rows t' = (rs_rows t)(cown x \<mapsto> row)"
    by (rule insert_new_row_ok [OF room, where c = "cown x" and row = row])
  then show ?thesis using assms(1,4,5) by (auto simp: loaded_def)
qed

lemma loaded_ran:
  assumes "loaded sz cown key P xs t" and "row \<in> ran (rs_rows t)"
  shows "\<exists>x\<in>set xs. rs_rows t (cown x) = Some row \<and> P x row"
proof -
  obtain c where c: "rs_rows t c = Some row" using assms(2) by (auto simp: ran_def)
  then have "c \<in> cown ` set xs" using assms(1) by (auto simp: loaded_def)
  with c assms(1) show ?thesis by (fastforce simp: loaded_def)
qed

lemma rfold_prefix:
  assumes "P [] s" and "\<And>ys x zs s. xs = ys @ x # zs \<Longrightarrow> P ys s \<Longrightarrow> \<exists>s'. f x s = Inr s' \<and> P (ys @ [x]) s'"
  shows "\<exists>s'. rfold f xs s = Inr s' \<and> P xs s'"
proof -
  have "\<exists>s'. rfold f ys s = Inr s' \<and> P ys s'" if "xs = ys @ zs" for ys zs
    using that
  proof (induction ys arbitrary: zs rule: rev_induct)
    case Nil
    then show ?case using assms(1) by simp
  next
    case (snoc x ys)
    then obtain s1 where "rfold f ys s = Inr s1" "P ys s1" by fastforce
    then show ?case using assms(2) [of ys x zs s1] snoc.prems by (auto simp: rfold_append)
  qed
  then show ?thesis by simp
qed

text \<open>Cowns at different places of an array are different.\<close>

lemma placed_inj:
  assumes "verona_ok V" and "make_cown_custom V (base + stride * k) = make_cown_custom V (base + stride * k')"
    and "unat stride * unat k < 2 ^ 64" and "unat stride * unat k' < 2 ^ 64" and "stride \<noteq> 0"
  shows "k = k'"
proof -
  have "stride * k = stride * k'" using verona_ok_inj [OF assms(1,2)] by simp
  moreover have "unat (stride * k) = unat stride * unat k" "unat (stride * k') = unat stride * unat k'"
    using assms(3,4) by (simp_all add: unat_mult_small)
  ultimately have "unat stride * unat k = unat stride * unat k'" by metis
  then show ?thesis using assms(5) by (simp add: word_unat_eq_iff)
qed

end
