(* ===== verification/Tpcc_Load.thy ===== *)
theory Tpcc_Load
  imports Tpcc_Db
begin

text \<open>
  The loader \<open>TPCCGenerator\<close> of \<^verbatim>\<open>app/tpcc/generator.hpp\<close>: one definition per \<open>generate\<close> function,
  each a loop that builds a row from the random source, places it in its array and inserts it under
  its hash key.  The lemmas show that the loader fills every table without failing, that each row
  is found under its key, and what its initial values are.
\<close>

section \<open>Building rows\<close>

text \<open>\<open>(double)(rand() % 2000) / 10000\<close> converted to an integer type.\<close>

definition trunc_ratio :: "nat \<Rightarrow> nat \<Rightarrow> nat \<Rightarrow> 'a::len word" where
  "trunc_ratio r md dv = word_of_int \<lfloor>of_nat (r mod md) / (of_nat dv :: rat)\<rfloor>"

definition mk_warehouse :: "u32 \<Rightarrow> warehouse gen" where
  "mk_warehouse wid =
     gbind rand (\<lambda>tax. gbind (copy_random 16 6 10) (\<lambda>name. gbind (copy_random 32 10 20) (\<lambda>st1.
     gbind (copy_random 32 10 20) (\<lambda>st2. gbind (copy_random 32 10 20) (\<lambda>city.
     gbind (copy_random1 2 2) (\<lambda>state. gbind (copy_random1 9 9) (\<lambda>zip.
       gret \<lparr>w_id = wid, w_name = name, w_street_1 = st1, w_street_2 = st2, w_city = city,
             w_tax = trunc_ratio tax 2000 10000, w_ytd = 300000, w_state = state, w_zip = zip,
             w_magic = 123\<rparr>)))))))"

definition mk_district :: "u32 \<Rightarrow> u32 \<Rightarrow> district gen" where
  "mk_district wid did =
     gbind rand (\<lambda>tax. gbind (copy_random 16 6 10) (\<lambda>name. gbind (copy_random 32 10 20) (\<lambda>st1.
     gbind (copy_random 32 10 20) (\<lambda>st2. gbind (copy_random 32 10 20) (\<lambda>city.
     gbind (copy_random1 2 2) (\<lambda>state. gbind (copy_random1 9 9) (\<lambda>zip e.
       gret \<lparr>d_id = did, d_w_id = wid, d_name = name, d_street_1 = st1, d_street_2 = st2, d_city = city,
             d_state = state, d_zip = zip, d_tax = fl e (of_nat (tax mod 2000) / 100), d_ytd = 300000,
             d_next_o_id = 3001, d_magic = 324\<rparr> e)))))))"

definition mk_customer :: "u32 \<Rightarrow> u32 \<Rightarrow> u32 \<Rightarrow> customer gen" where
  "mk_customer wid did cid =
     gbind (copy_random 32 8 16) (\<lambda>first.
     gbind (gbind (if cid \<le> 1000 then getCustomerLastName (uint (cid - 1)) else getNonUniformCustomerLastNameLoad)
              (memcpy_str 32)) (\<lambda>lst.
     gbind rand (\<lambda>disc. gbind (randomNumber 0 99) (\<lambda>cr. gbind (copy_random 32 10 20) (\<lambda>st1.
     gbind (copy_random 32 10 20) (\<lambda>st2. gbind (copy_random 32 10 20) (\<lambda>city.
     gbind (copy_random1 2 3) (\<lambda>state. gbind (gbind (randomNStr 4) (memcpy_str 9)) (\<lambda>zip.
     gbind (gbind (randomNStr 16) (memcpy_str 32)) (\<lambda>phone. gbind (copy_random 500 300 500) (\<lambda>data.
     gbind GetCurrentTime (\<lambda>since e.
       gret \<lparr>c_id = cid, c_d_id = did, c_w_id = wid, c_first = first, c_last = lst, c_street_1 = st1,
             c_street_2 = st2, c_city = city, c_phone = phone, c_state = state,
             c_credit = (if cr > 10 then ''GC'' else ''BC''), c_middle = ''OE'', c_zip = zip,
             c_since = ucast since, c_credit_lim = 50000, c_discount = trunc_ratio disc 5000 10000,
             c_balance = fl e (- 10), c_ytd_payment = 10, c_payment_cnt = 1, c_delivery_cnt = 0,
             c_data = data\<rparr> e))))))))))))"

definition mk_history :: "u32 \<Rightarrow> u32 \<Rightarrow> u32 \<Rightarrow> history gen" where
  "mk_history wid did cid =
     gbind (copy_random 32 12 24) (\<lambda>data. gbind GetCurrentTime (\<lambda>date e.
       gret \<lparr>h_c_id = cid, h_c_d_id = did, h_c_w_id = wid, h_d_id = did, h_w_id = wid,
             h_date = ucast date, h_amount = fl e 10, h_data = data\<rparr> e))"

text \<open>The data field of items and of stock: one row in ten carries the mark \<open>ORIGINAL\<close>.\<close>

definition random_data :: "string gen" where
  "random_data =
     gbind (randomNumber 0 100) (\<lambda>v.
       if v > 10 then copy_random 64 26 50
       else gbind (randomNumber 0 25) (\<lambda>rand_pos. gbind (generateRandomString (nat rand_pos)) (\<lambda>first_part.
            gbind (generateRandomString (nat (50 - rand_pos))) (\<lambda>last_part.
              memcpy_str 64 (first_part @ ''ORIGINAL'' @ last_part)))))"

definition mk_item :: "u32 \<Rightarrow> item gen" where
  "mk_item iid =
     gbind (copy_random 32 14 24) (\<lambda>name. gbind (copy_random 64 26 50) (\<lambda>_. gbind rand (\<lambda>price.
     gbind (randomNumber 1 10000) (\<lambda>im. gbind random_data (\<lambda>data e.
       gret \<lparr>i_id = ucast iid, i_name = name, i_price = fl e (of_nat (price mod 9900 + 100) / 100),
             i_data = data, i_im_id = word_of_int im\<rparr> e)))))"

fun copy_dists :: "nat \<Rightarrow> string list gen" where
  "copy_dists 0 = gret []"
| "copy_dists (Suc n) = gbind (copy_random1 32 24) (\<lambda>d. gbind (copy_dists n) (\<lambda>ds. gret (d # ds)))"

definition mk_stock :: "u32 \<Rightarrow> u32 \<Rightarrow> stock gen" where
  "mk_stock wid iid =
     gbind (randomNumber 10 100) (\<lambda>quantity. gbind (copy_dists 10) (\<lambda>dists.
     gbind (copy_random 64 26 50) (\<lambda>_. gbind random_data (\<lambda>data.
       gret \<lparr>s_w_id = wid, s_i_id = ucast iid, s_quantity = word_of_int quantity, s_ytd = 0,
             s_order_cnt = 0, s_remote_cnt = 0, s_dists = dists, s_data = data\<rparr>))))"

definition mk_order :: "u32 \<Rightarrow> u32 \<Rightarrow> u32 \<Rightarrow> u32 \<Rightarrow> order gen" where
  "mk_order wid did oid cid =
     gbind (randomNumber 5 15) (\<lambda>cnt. gbind (randomNumber 1 10) (\<lambda>carrier. gbind GetCurrentTime (\<lambda>entry.
       gret ((Order wid did (ucast oid))\<lparr>o_c_id := cid, o_ol_cnt := word_of_int cnt,
               o_carrier_id := word_of_int carrier, o_entry_d := ucast entry\<rparr>))))"

text \<open>The amount of a delivered order is a number of cents divided by a hundred and truncated.\<close>

definition mk_order_line :: "order \<Rightarrow> u32 \<Rightarrow> order_line gen" where
  "mk_order_line ord number =
     gbind (randomNumber 1 (uint NUM_ITEMS)) (\<lambda>iid.
     gbind (if o_id ord > 2100 then gret 0
            else gbind (randomNumber 1 999999) (\<lambda>v. gret (word_of_int (v div 100)))) (\<lambda>amount.
     gbind (copy_random1 32 24) (\<lambda>dist.
       gret ((OrderLine (o_w_id ord) (o_d_id ord) (o_id ord) (ucast number))\<lparr>ol_i_id := word_of_int iid,
               ol_supply_w_id := ucast (o_w_id ord), ol_quantity := 5, ol_amount := amount,
               ol_delivery_d := (if o_id ord > 2100 then o_entry_d ord else 0), ol_dist_info := dist\<rparr>))))"

section \<open>The loops\<close>

text \<open>\<open>for (uint32_t i = 1; i <= n; i++)\<close>.\<close>

definition upto32 :: "u32 \<Rightarrow> u32 list" where
  "upto32 n = map of_nat [1..<Suc (unat n)]"

text \<open>The nested loops over warehouses, districts and customers or items, as lists of indices.\<close>

definition district_ids :: "(u32 \<times> u32) list" where
  "district_ids = List.product (upto32 NUM_WAREHOUSES) (upto32 DISTRICTS_PER_WAREHOUSE)"

definition customer_ids :: "(u32 \<times> u32 \<times> u32) list" where
  "customer_ids = List.product (upto32 NUM_WAREHOUSES)
     (List.product (upto32 DISTRICTS_PER_WAREHOUSE) (upto32 CUSTOMERS_PER_DISTRICT))"

definition stock_ids :: "(u32 \<times> u32) list" where
  "stock_ids = List.product (upto32 NUM_WAREHOUSES) (upto32 NUM_ITEMS)"

type_synonym 'c loader = "'c database \<times> rand_state"

text \<open>The start addresses of the arrays.\<close>

record table_addrs =
  warehouse_table_addr :: u64
  district_table_addr :: u64
  customer_table_addr :: u64
  history_table_addr :: u64
  order_table_addr :: u64
  order_line_table_addr :: u64
  item_table_addr :: u64
  stock_table_addr :: u64

definition generateWarehouses :: "'c verona \<Rightarrow> rand_env \<Rightarrow> table_addrs \<Rightarrow> 'c loader \<Rightarrow> 'c loader result" where
  "generateWarehouses V e a = rfold (\<lambda>wid (db, s).
     rbind (mk_warehouse wid e s) (\<lambda>(row, s').
       let warehouse_hash_key = ucast (Warehouse_hash_key (w_id row)) :: u32;
           c = make_cown_custom V (warehouse_table_addr a + ucast (1024 * warehouse_hash_key)) in
       rmap (\<lambda>t. (db\<lparr>warehouse_table := t\<rparr>, s'))
         (insert_new_row (ucast warehouse_hash_key) c row (warehouse_table db)))) (upto32 NUM_WAREHOUSES)"

definition generateDistricts :: "'c verona \<Rightarrow> rand_env \<Rightarrow> table_addrs \<Rightarrow> 'c loader \<Rightarrow> 'c loader result" where
  "generateDistricts V e a st =
     rbind (rfold (\<lambda>(wid, did) (db, s).
        rbind (mk_district wid did e s) (\<lambda>(row, s').
          let key = District_hash_key (d_w_id row) (d_id row);
              c = make_cown_custom V (district_table_addr a + 1024 * key) in
          rmap (\<lambda>t. (db\<lparr>district_table := t\<rparr>, s')) (insert_new_row key c row (district_table db)))) district_ids st)
      (\<lambda>st'. if (of_nat (length district_ids) :: u64) = ucast (NUM_WAREHOUSES * DISTRICTS_PER_WAREHOUSE)
             then Inr st' else Inl AssertFailed)"

definition generateCustomerAndHistory :: "'c verona \<Rightarrow> rand_env \<Rightarrow> table_addrs \<Rightarrow> 'c loader \<Rightarrow> 'c loader result" where
  "generateCustomerAndHistory V e a =
     rfold (\<lambda>(wid, did, cid) (db, s).
       rbind (mk_customer wid did cid e s) (\<lambda>(row, s1).
         let key = Customer_hash_key (c_w_id row) (c_d_id row) (c_id row);
             c = make_cown_custom V (customer_table_addr a + 2 * 1024 * key) in
         rbind (insert_new_row key c row (customer_table db)) (\<lambda>t1.
         rbind (mk_history wid did cid e s1) (\<lambda>(h, s2).
           let hkey = History_hash_key (h_c_w_id h) (h_c_d_id h) (h_c_id h);
               hc = make_cown_custom V (history_table_addr a + 1024 * hkey) in
           rmap (\<lambda>t2. (db\<lparr>customer_table := t1, history_table := t2\<rparr>, s2))
             (insert_new_row hkey hc h (history_table db))))))
     customer_ids"

definition generateItems :: "'c verona \<Rightarrow> rand_env \<Rightarrow> table_addrs \<Rightarrow> 'c loader \<Rightarrow> 'c loader result" where
  "generateItems V e a = rfold (\<lambda>iid (db, s).
     rbind (mk_item iid e s) (\<lambda>(row, s').
       let key = Item_hash_key (i_id row); c = make_cown_custom V (item_table_addr a + 1024 * key) in
       rmap (\<lambda>t. (db\<lparr>item_table := t\<rparr>, s')) (insert_new_row key c row (item_table db)))) (upto32 NUM_ITEMS)"

definition generateStocks :: "'c verona \<Rightarrow> rand_env \<Rightarrow> table_addrs \<Rightarrow> 'c loader \<Rightarrow> 'c loader result" where
  "generateStocks V e a = rfold (\<lambda>(wid, iid) (db, s).
     rbind (mk_stock wid iid e s) (\<lambda>(row, s').
       let key = Stock_hash_key (s_w_id row) (s_i_id row);
           c = make_cown_custom V (stock_table_addr a + 1024 * key) in
       rmap (\<lambda>t. (db\<lparr>stock_table := t\<rparr>, s')) (insert_new_row key c row (stock_table db))))
     stock_ids"

definition insert_order_lines ::
  "'c verona \<Rightarrow> rand_env \<Rightarrow> table_addrs \<Rightarrow> order \<Rightarrow> 'c loader \<Rightarrow> 'c loader result" where
  "insert_order_lines V e a ord = rfold (\<lambda>number (db, s).
     rbind (mk_order_line ord number e s) (\<lambda>(row, s').
       let hash_key = OrderLine_hash_key (ol_w_id row) (ol_d_id row) (ol_o_id row) (ol_number row);
           c = make_cown_custom V (order_line_table_addr a + 1024 * hash_key) in
       rmap (\<lambda>t. (db\<lparr>order_line_table := t\<rparr>, s')) (insert_new_row hash_key c row (order_line_table db))))
     (upto32 (o_ol_cnt ord))"

definition generate_district_orders ::
  "'c verona \<Rightarrow> rand_env \<Rightarrow> table_addrs \<Rightarrow> u32 \<Rightarrow> u32 \<Rightarrow> u32 list \<Rightarrow> 'c loader \<Rightarrow> 'c loader result" where
  "generate_district_orders V e a wid did permutation = rfold (\<lambda>oid (db, s).
     let pos = unat (oid - 1) in
     if length permutation \<le> pos then Inl OutOfBounds
     else rbind (mk_order wid did oid (permutation ! pos) e s) (\<lambda>(ord, s1).
          rbind (insert_order_lines V e a ord (db, s1)) (\<lambda>(db2, s2).
            let key = Order_hash_key (o_w_id ord) (o_d_id ord) (o_id ord);
                c = make_cown_custom V (order_table_addr a + 1024 * key) in
            rmap (\<lambda>t. (db2\<lparr>order_table := t\<rparr>, s2)) (insert_new_row key c ord (order_table db2)))))
     (upto32 INITIAL_ORDERS_PER_DISTRICT)"

definition generateOrdersAndOrderLines :: "'c verona \<Rightarrow> rand_env \<Rightarrow> table_addrs \<Rightarrow> 'c loader \<Rightarrow> 'c loader result" where
  "generateOrdersAndOrderLines V e a = rfold (\<lambda>(wid, did) (db, s).
     rbind (make_permutation 1 (uint (CUSTOMERS_PER_DISTRICT + 1)) e s) (\<lambda>(permutation, s1).
       generate_district_orders V e a wid did permutation (db, s1)))
     district_ids"

text \<open>The calls of \<open>main\<close> in \<^verbatim>\<open>app/tpcc.cc\<close>, in its order.\<close>

definition tpcc_load :: "'c verona \<Rightarrow> rand_env \<Rightarrow> table_addrs \<Rightarrow> 'c loader result" where
  "tpcc_load V e a =
     rbind (generateWarehouses V e a (new_database, new_rand)) (\<lambda>st1.
     rbind (generateDistricts V e a st1) (\<lambda>st2.
     rbind (generateCustomerAndHistory V e a st2) (\<lambda>st3.
     rbind (generateItems V e a st3) (\<lambda>st4.
     rbind (generateStocks V e a st4) (generateOrdersAndOrderLines V e a)))))"

section \<open>Rows have their initial values\<close>

lemma trunc_ratio_zero: "0 < md \<Longrightarrow> md \<le> dv \<Longrightarrow> trunc_ratio r md dv = 0"
proof -
  assume "0 < md" "md \<le> dv"
  then have "of_nat (r mod md) < (of_nat dv :: rat)"
    using mod_less_divisor [of md r] by (simp del: mod_less_divisor)
  then have "\<lfloor>of_nat (r mod md) / (of_nat dv :: rat)\<rfloor> = 0"
    by (simp add: floor_eq_iff)
  then show ?thesis by (simp add: trunc_ratio_def)
qed

lemma gok_ret_env [intro]: "P (x e) \<Longrightarrow> gok e (\<lambda>e. gret (x e) e) P"
  by (simp add: gok_def gret_def)

lemmas gok_steps = gok_bind [OF gok_rand] gok_bind [OF gok_time] gok_bind [OF gok_copy]
  gok_bind [OF gok_copy1] gok_bind [OF gok_randomNumber] gok_bind [OF gok_nstr] gok_bind [OF gok_string]
  gok_bind [OF gok_lastname_load] gok_bind [OF gok_lastname] gok_memcpy gok_ret gok_ret_env

lemma gok_warehouse:
  "pick_ok e \<Longrightarrow> gok e (mk_warehouse wid) (\<lambda>r. w_id r = wid \<and> w_ytd r = 300000 \<and> w_tax r = 0)"
  unfolding mk_warehouse_def by (intro gok_steps) (simp_all add: trunc_ratio_zero)

lemma gok_district:
  "pick_ok e \<Longrightarrow> gok e (mk_district wid did)
     (\<lambda>r. d_w_id r = wid \<and> d_id r = did \<and> d_ytd r = 300000 \<and> d_next_o_id r = 3001)"
  unfolding mk_district_def by (intro gok_steps) simp_all

lemma gok_history:
  "pick_ok e \<Longrightarrow> gok e (mk_history wid did cid) (\<lambda>h. h_c_w_id h = wid \<and> h_c_d_id h = did \<and> h_c_id h = cid)"
  unfolding mk_history_def by (intro gok_steps) simp_all

lemma gok_random_data: "pick_ok e \<Longrightarrow> gok e random_data (\<lambda>_. True)"
  unfolding random_data_def
  by (rule gok_bind [OF gok_randomNumber]) (auto intro!: gok_steps gok_copy)

lemma gok_item: "pick_ok e \<Longrightarrow> gok e (mk_item iid) (\<lambda>r. i_id r = ucast iid)"
  unfolding mk_item_def by (intro gok_steps gok_bind [OF gok_random_data]) simp_all

lemma gok_dists: "gok e (copy_dists n) (\<lambda>ds. length ds = n)"
proof (induction n)
  case 0
  show ?case by (auto simp: gok_ret)
next
  case (Suc n)
  show ?case by (simp, intro gok_steps gok_bind [OF Suc.IH]) simp
qed

lemma gok_stock:
  "pick_ok e \<Longrightarrow> gok e (mk_stock wid iid)
     (\<lambda>r. s_w_id r = wid \<and> s_i_id r = ucast iid \<and> 10 \<le> unat (s_quantity r) \<and> unat (s_quantity r) \<le> 100)"
  unfolding mk_stock_def
  by (intro gok_steps gok_bind [OF gok_dists] gok_bind [OF gok_random_data])
    (auto simp: unsigned_of_int take_bit_int_eq_self)

lemma gok_customer:
  assumes "pick_ok e" and "1 \<le> unat cid"
  shows "gok e (mk_customer wid did cid) (\<lambda>r. c_w_id r = wid \<and> c_d_id r = did \<and> c_id r = cid \<and>
     c_payment_cnt r = 1 \<and> c_ytd_payment r = 10 \<and> c_discount r = 0)"
proof -
  have "gok e (if cid \<le> 1000 then getCustomerLastName (uint (cid - 1)) else getNonUniformCustomerLastNameLoad) (\<lambda>_. True)"
  proof (cases "cid \<le> 1000")
    case True
    then have "unat (cid - 1) < 1000" using assms(2) by (simp add: unat_pred word_le_nat_alt)
    moreover have "uint (cid - 1) = int (unat (cid - 1))" by simp
    ultimately have "uint (cid - 1) < 1000" by linarith
    then show ?thesis using True by (simp add: gok_lastname)
  next
    case False
    then show ?thesis using assms(1) by (simp add: gok_lastname_load)
  qed
  note last = gok_bind [OF this gok_memcpy]
  show ?thesis
    unfolding mk_customer_def using assms(1)
    by (intro gok_steps gok_bind [OF last] gok_bind [OF gok_bind [OF gok_nstr gok_memcpy]])
      (simp_all add: trunc_ratio_zero)
qed

lemma gok_order:
  "pick_ok e \<Longrightarrow> gok e (mk_order wid did oid cid) (\<lambda>r. o_w_id r = wid \<and> o_d_id r = did \<and> o_id r = ucast oid \<and>
     o_c_id r = cid \<and> 5 \<le> unat (o_ol_cnt r) \<and> unat (o_ol_cnt r) \<le> 15)"
  unfolding mk_order_def
  by (intro gok_steps) (auto simp: Order_def unsigned_of_int take_bit_int_eq_self)

lemma gok_order_line:
  assumes "pick_ok e"
  shows "gok e (mk_order_line ord number) (\<lambda>r. ol_w_id r = o_w_id ord \<and> ol_d_id r = o_d_id ord \<and>
     ol_o_id r = o_id ord \<and> ol_number r = ucast number \<and> ol_quantity r = 5)"
proof -
  have "gok e (if o_id ord > 2100 then gret 0
      else gbind (randomNumber 1 999999) (\<lambda>v. gret (word_of_int (v div 100) :: u64))) (\<lambda>_. True)"
    using assms by (auto intro!: gok_steps)
  then show ?thesis
    unfolding mk_order_line_def using assms
    by (intro gok_bind [OF gok_randomNumber] gok_bind [OF gok_copy1] gok_ret
        gok_bind [where g = "if o_id ord > 2100 then gret 0 else _"])
      (auto simp: OrderLine_def NUM_ITEMS_def)
qed

section \<open>Loading one table\<close>

lemma upto32_set: "x \<in> set (upto32 n) \<longleftrightarrow> 1 \<le> unat x \<and> unat x \<le> unat n"
proof
  assume "x \<in> set (upto32 n)"
  then obtain i where i: "x = of_nat i" "1 \<le> i" "i \<le> unat n" by (auto simp: upto32_def)
  then have "unat x = i" using unat_lt_2p [of n] by (auto intro: unat_of_nat_small)
  then show "1 \<le> unat x \<and> unat x \<le> unat n" using i by simp
next
  assume "1 \<le> unat x \<and> unat x \<le> unat n"
  then have "unat x \<in> set [1..<Suc (unat n)]" by auto
  moreover have "x = of_nat (unat x)" by simp
  ultimately show "x \<in> set (upto32 n)" unfolding upto32_def by (metis image_eqI set_map)
qed

lemma length_upto32 [simp]: "length (upto32 n) = unat n"
  by (simp add: upto32_def)

lemma distinct_upto32: "distinct (upto32 n)"
proof -
  have small: "unat (of_nat k :: u32) = k" if "k \<in> set [1..<Suc (unat n)]" for k
  proof (rule unat_of_nat_small)
    show "k < 2 ^ LENGTH(32)" using that unat_lt_2p [of n] by auto
  qed
  have "inj_on (of_nat :: nat \<Rightarrow> u32) (set [1..<Suc (unat n)])"
    by (rule inj_on_inverseI [where g = unat]) (rule small)
  then show ?thesis by (simp add: upto32_def distinct_map)
qed

lemma gokD: "gok e g P \<Longrightarrow> \<exists>x s'. g e s = Inr (x, s') \<and> P x"
  by (simp add: gok_def)

text \<open>A loop that builds one row per element and inserts it.\<close>

lemma load_loop_ok:
  fixes f :: "'x \<Rightarrow> 'd \<times> rand_state \<Rightarrow> ('d \<times> rand_state) result" and mk :: "'x \<Rightarrow> 'r gen"
  assumes step: "\<And>x db s. x \<in> set xs \<Longrightarrow> f x (db, s) = rbind (mk x e s) (\<lambda>(row, s').
      rmap (\<lambda>t. (upd t db, s')) (insert_new_row (keyof row) (cownof row) row (tab db)))"
    and lens: "\<And>t db. tab (upd t db) = t" "\<And>t t' db. upd t (upd t' db) = upd t db" "\<And>db. upd (tab db) db = db"
    and mk: "\<And>x. x \<in> set xs \<Longrightarrow> gok e (mk x) (P x)"
    and keys: "\<And>x row. x \<in> set xs \<Longrightarrow> P x row \<Longrightarrow> keyof row = key x \<and> cownof row = cown x"
    and size: "length xs \<le> sz" "\<And>x. x \<in> set xs \<Longrightarrow> unat (key x) < sz"
    and dist: "distinct xs" "inj_on key (set xs)" "inj_on cown (set xs)"
    and init: "loaded sz cown key P [] (tab db)"
  shows "\<exists>t s'. rfold f xs (db, s) = Inr (upd t db, s') \<and> loaded sz cown key P xs t"
proof -
  let ?P = "\<lambda>ys st. \<exists>t s'. st = (upd t db, s') \<and> loaded sz cown key P ys t"
  have "\<exists>st. rfold f xs (db, s) = Inr st \<and> ?P xs st"
  proof (rule rfold_prefix [where P = ?P])
    show "?P [] (db, s)" using init lens(3) by (intro exI [of _ "tab db"]) simp
  next
    fix ys x zs and st :: "'d \<times> rand_state"
    assume xs: "xs = ys @ x # zs" and "?P ys st"
    then obtain t s1 where st: "st = (upd t db, s1)" "loaded sz cown key P ys t" by blast
    have x: "x \<in> set xs" using xs by simp
    obtain row s2 where row: "mk x e s1 = Inr (row, s2)" "P x row" using gokD [OF mk [OF x]] by blast
    have fresh: "key y \<noteq> key x \<and> cown y \<noteq> cown x" if "y \<in> set ys" for y
    proof -
      have "y \<noteq> x" "y \<in> set xs" using dist(1) xs that by auto
      then show ?thesis using dist(2,3) x by (meson inj_onD)
    qed
    have "length ys < sz" using size(1) xs by simp
    from loaded_insert [where P = P and key = key and cown = cown, OF st(2) this size(2) [OF x] row(2) fresh]
    obtain t' where t': "insert_new_row (key x) (cown x) row t = Inr t'" "loaded sz cown key P (ys @ [x]) t'"
      by blast
    have "f x st = Inr (upd t' db, s2)"
      using st(1) step [OF x] row t'(1) keys [OF x row(2)] by (simp add: lens)
    then show "\<exists>st'. f x st = Inr st' \<and> ?P (ys @ [x]) st'" using t'(2) by blast
  qed
  then show ?thesis by blast
qed

lemma placed_inj_on:
  assumes "verona_ok V" and "inj_on key A" and "stride \<noteq> 0" and "\<And>x. x \<in> A \<Longrightarrow> unat stride * unat (key x) < 2 ^ 64"
  shows "inj_on (\<lambda>x. make_cown_custom V (base + stride * key x)) A"
  using placed_inj [OF assms(1) _ assms(4) assms(4) assms(3)] assms(2) by (meson inj_on_def)

definition district_cown :: "'c verona \<Rightarrow> table_addrs \<Rightarrow> u32 \<times> u32 \<Rightarrow> 'c" where
  "district_cown V a = (\<lambda>(w, d). make_cown_custom V (district_table_addr a + 1024 * District_hash_key w d))"

definition customer_cown :: "'c verona \<Rightarrow> table_addrs \<Rightarrow> u32 \<times> u32 \<times> u32 \<Rightarrow> 'c" where
  "customer_cown V a = (\<lambda>(w, d, c). make_cown_custom V (customer_table_addr a + 2 * 1024 * Customer_hash_key w d c))"

definition history_cown :: "'c verona \<Rightarrow> table_addrs \<Rightarrow> u32 \<times> u32 \<times> u32 \<Rightarrow> 'c" where
  "history_cown V a = (\<lambda>(w, d, c). make_cown_custom V (history_table_addr a + 1024 * History_hash_key w d c))"

definition item_cown :: "'c verona \<Rightarrow> table_addrs \<Rightarrow> u32 \<Rightarrow> 'c" where
  "item_cown V a i = make_cown_custom V (item_table_addr a + 1024 * Item_hash_key_static i)"

definition stock_cown :: "'c verona \<Rightarrow> table_addrs \<Rightarrow> u32 \<times> u32 \<Rightarrow> 'c" where
  "stock_cown V a = (\<lambda>(w, i). make_cown_custom V (stock_table_addr a + 1024 * Stock_hash_key_static w i))"

definition warehouse_cown :: "'c verona \<Rightarrow> table_addrs \<Rightarrow> u32 \<Rightarrow> 'c" where
  "warehouse_cown V a w = make_cown_custom V (warehouse_table_addr a + 1024 * Warehouse_hash_key w)"

lemma upto32_1: "upto32 NUM_WAREHOUSES = [1]"
  by (simp add: upto32_def NUM_WAREHOUSES_def)

lemma generateWarehouses_ok:
  assumes "pick_ok e" and "verona_ok V"
    and "loaded 1 (warehouse_cown V a) Warehouse_hash_key P [] (warehouse_table db)"
    and "P = (\<lambda>w r. w_id r = w \<and> w_ytd r = 300000 \<and> w_tax r = 0)"
  shows "\<exists>t s'. generateWarehouses V e a (db, s) = Inr (db\<lparr>warehouse_table := t\<rparr>, s') \<and>
    loaded 1 (warehouse_cown V a) Warehouse_hash_key P [1] t"
  unfolding generateWarehouses_def upto32_1
proof (rule load_loop_ok [where upd = "\<lambda>t db. db\<lparr>warehouse_table := t\<rparr>" and tab = warehouse_table and mk = mk_warehouse and
    keyof = "\<lambda>row. ucast (ucast (Warehouse_hash_key (w_id row)) :: u32)" and
    cownof = "\<lambda>row. make_cown_custom V (warehouse_table_addr a + ucast (1024 * (ucast (Warehouse_hash_key (w_id row)) :: u32)))"])
qed (use assms gok_warehouse in \<open>auto simp: Let_def Warehouse_hash_key_def warehouse_cown_def\<close>)

lemma district_ids_iff: "(w, d) \<in> set district_ids \<longleftrightarrow> w = 1 \<and> 1 \<le> unat d \<and> unat d \<le> 10"
  by (auto simp: district_ids_def upto32_1 upto32_set DISTRICTS_PER_WAREHOUSE_def)

lemma customer_ids_iff:
  "(w, d, c) \<in> set customer_ids \<longleftrightarrow> w = 1 \<and> 1 \<le> unat d \<and> unat d \<le> 10 \<and> 1 \<le> unat c \<and> unat c \<le> 3000"
  by (auto simp: customer_ids_def upto32_1 upto32_set DISTRICTS_PER_WAREHOUSE_def CUSTOMERS_PER_DISTRICT_def)

lemma stock_ids_iff: "(w, i) \<in> set stock_ids \<longleftrightarrow> w = 1 \<and> 1 \<le> unat i \<and> unat i \<le> 100000"
  by (auto simp: stock_ids_def upto32_1 upto32_set NUM_ITEMS_def)

lemma ids_distinct [simp]: "distinct district_ids" "distinct customer_ids" "distinct stock_ids"
  by (simp_all add: district_ids_def customer_ids_def stock_ids_def distinct_product distinct_upto32)

lemma ids_length [simp]: "length district_ids = 10" "length customer_ids = 30000" "length stock_ids = 100000"
  by (simp_all add: district_ids_def customer_ids_def stock_ids_def tpcc_consts)

lemma district_keys:
  "(w, d) \<in> set district_ids \<Longrightarrow> unat (District_hash_key w d) < 10"
  "inj_on (\<lambda>(w, d). District_hash_key w d) (set district_ids)"
proof -
  show "(w, d) \<in> set district_ids \<Longrightarrow> unat (District_hash_key w d) < 10"
    by (auto simp: district_ids_iff District_hash_key_unat valid_wd_def)
  show "inj_on (\<lambda>(w, d). District_hash_key w d) (set district_ids)"
  proof (rule inj_onI, clarify)
    fix w d w' d'
    assume "(w, d) \<in> set district_ids" "(w', d') \<in> set district_ids" "District_hash_key w d = District_hash_key w' d'"
    then show "w = w' \<and> d = d'"
      using District_hash_key_inj [of w d w' d'] by (simp add: district_ids_iff valid_wd_def)
  qed
qed

lemma generateDistricts_ok:
  assumes "pick_ok e" and "verona_ok V"
    and "loaded 10 (district_cown V a) (\<lambda>(w, d). District_hash_key w d) P [] (district_table db)"
    and "P = (\<lambda>(w, d) r. d_w_id r = w \<and> d_id r = d \<and> d_ytd r = 300000 \<and> d_next_o_id r = 3001)"
  shows "\<exists>t s'. generateDistricts V e a (db, s) = Inr (db\<lparr>district_table := t\<rparr>, s') \<and>
    loaded 10 (district_cown V a) (\<lambda>(w, d). District_hash_key w d) P district_ids t"
proof -
  let ?key = "\<lambda>(w, d). District_hash_key w d"
  let ?f = "\<lambda>(wid, did) (db, s). rbind (mk_district wid did e s) (\<lambda>(row, s').
          let key = District_hash_key (d_w_id row) (d_id row);
              c = make_cown_custom V (district_table_addr a + 1024 * key) in
          rmap (\<lambda>t. (db\<lparr>district_table := t\<rparr>, s')) (insert_new_row key c row (district_table db)))"
  have lt: "unat (?key x) < 10" if "x \<in> set district_ids" for x
    using that district_keys(1) by (auto split: prod.split)
  have "inj_on (\<lambda>x. make_cown_custom V (district_table_addr a + 1024 * ?key x)) (set district_ids)"
    by (rule placed_inj_on [OF assms(2) district_keys(2)]) (use lt in fastforce)+
  then have inj: "inj_on (district_cown V a) (set district_ids)"
    by (simp add: district_cown_def case_prod_unfold)
  have "\<exists>t s'. rfold ?f district_ids (db, s) = Inr (db\<lparr>district_table := t\<rparr>, s') \<and>
      loaded 10 (district_cown V a) ?key P district_ids t"
    by (rule load_loop_ok [where upd = "\<lambda>t db. db\<lparr>district_table := t\<rparr>" and tab = district_table and
      mk = "\<lambda>(w, d). mk_district w d" and e = e and
      keyof = "\<lambda>row. District_hash_key (d_w_id row) (d_id row)" and
      cownof = "\<lambda>row. make_cown_custom V (district_table_addr a + 1024 * District_hash_key (d_w_id row) (d_id row))"])
    (use assms inj district_keys(2) lt gok_district in \<open>auto simp: Let_def district_cown_def\<close>)
  moreover have "(of_nat (length district_ids) :: u64) = ucast (NUM_WAREHOUSES * DISTRICTS_PER_WAREHOUSE)"
    by (simp add: NUM_WAREHOUSES_def DISTRICTS_PER_WAREHOUSE_def)
  ultimately show ?thesis by (auto simp: generateDistricts_def)
qed

lemma generateItems_ok:
  assumes "pick_ok e" and "verona_ok V"
    and "loaded 100000 (item_cown V a) Item_hash_key_static P [] (item_table db)"
    and "P = (\<lambda>i r. i_id r = ucast i)"
  shows "\<exists>t s'. generateItems V e a (db, s) = Inr (db\<lparr>item_table := t\<rparr>, s') \<and>
    loaded 100000 (item_cown V a) Item_hash_key_static P (upto32 NUM_ITEMS) t"
proof -
  have iff: "i \<in> set (upto32 NUM_ITEMS) \<longleftrightarrow> 1 \<le> unat i \<and> unat i \<le> 100000" for i
    by (simp add: upto32_set NUM_ITEMS_def)
  have lt: "unat (Item_hash_key_static i) < 100000" if "i \<in> set (upto32 NUM_ITEMS)" for i
    using that by (auto simp: iff Item_hash_key_static_def unat_pred)
  have inj: "inj_on Item_hash_key_static (set (upto32 NUM_ITEMS))"
  proof (rule inj_onI)
    fix i j
    assume "i \<in> set (upto32 NUM_ITEMS)" "j \<in> set (upto32 NUM_ITEMS)" "Item_hash_key_static i = Item_hash_key_static j"
    then show "i = j" using pred_eq [of i j] by (auto simp: iff Item_hash_key_static_def word_unat_eq_iff [where 'a = 64] unat_pred)
  qed
  have inj2: "inj_on (item_cown V a) (set (upto32 NUM_ITEMS))"
    unfolding item_cown_def by (rule placed_inj_on [OF assms(2) inj]) (use lt in fastforce)+
  have key: "Item_hash_key (ucast i) = Item_hash_key_static i" if "i \<in> set (upto32 NUM_ITEMS)" for i
    using that by (simp add: iff Item_hash_key_eq)
  show ?thesis
    unfolding generateItems_def
    by (rule load_loop_ok [where upd = "\<lambda>t db. db\<lparr>item_table := t\<rparr>" and tab = item_table and mk = mk_item and
      keyof = "\<lambda>row. Item_hash_key (i_id row)" and
      cownof = "\<lambda>row. make_cown_custom V (item_table_addr a + 1024 * Item_hash_key (i_id row))"])
    (use assms inj inj2 lt key gok_item in \<open>auto simp: Let_def item_cown_def distinct_upto32 NUM_ITEMS_def\<close>)
qed

lemma stock_keys:
  "(w, i) \<in> set stock_ids \<Longrightarrow> unat (Stock_hash_key_static w i) < 100000"
  "(w, i) \<in> set stock_ids \<Longrightarrow> Stock_hash_key w (ucast i) = Stock_hash_key_static w i"
  "inj_on (\<lambda>(w, i). Stock_hash_key_static w i) (set stock_ids)"
proof -
  show "(w, i) \<in> set stock_ids \<Longrightarrow> unat (Stock_hash_key_static w i) < 100000"
    by (auto simp: stock_ids_iff Stock_hash_key_static_unat)
  show "(w, i) \<in> set stock_ids \<Longrightarrow> Stock_hash_key w (ucast i) = Stock_hash_key_static w i"
    by (auto simp: stock_ids_iff Stock_hash_key_eq)
  show "inj_on (\<lambda>(w, i). Stock_hash_key_static w i) (set stock_ids)"
  proof (rule inj_onI, clarify)
    fix w i w' i'
    assume "(w, i) \<in> set stock_ids" "(w', i') \<in> set stock_ids" "Stock_hash_key_static w i = Stock_hash_key_static w' i'"
    then show "w = w' \<and> i = i'"
      using Stock_hash_key_inj [of w w' i i'] by (simp add: stock_ids_iff)
  qed
qed

lemma generateStocks_ok:
  assumes "pick_ok e" and "verona_ok V"
    and "loaded 100000 (stock_cown V a) (\<lambda>(w, i). Stock_hash_key_static w i) P [] (stock_table db)"
    and "P = (\<lambda>(w, i) r. s_w_id r = w \<and> s_i_id r = ucast i \<and> 10 \<le> unat (s_quantity r) \<and> unat (s_quantity r) \<le> 100)"
  shows "\<exists>t s'. generateStocks V e a (db, s) = Inr (db\<lparr>stock_table := t\<rparr>, s') \<and>
    loaded 100000 (stock_cown V a) (\<lambda>(w, i). Stock_hash_key_static w i) P stock_ids t"
proof -
  let ?key = "\<lambda>(w, i). Stock_hash_key_static w i"
  have lt: "unat (?key x) < 100000" if "x \<in> set stock_ids" for x
    using that stock_keys(1) by (auto split: prod.split)
  have "inj_on (\<lambda>x. make_cown_custom V (stock_table_addr a + 1024 * ?key x)) (set stock_ids)"
    by (rule placed_inj_on [OF assms(2) stock_keys(3)]) (use lt in fastforce)+
  then have inj: "inj_on (stock_cown V a) (set stock_ids)"
    by (simp add: stock_cown_def case_prod_unfold)
  show ?thesis
    unfolding generateStocks_def
    by (rule load_loop_ok [where upd = "\<lambda>t db. db\<lparr>stock_table := t\<rparr>" and tab = stock_table and
      mk = "\<lambda>(w, i). mk_stock w i" and keyof = "\<lambda>row. Stock_hash_key (s_w_id row) (s_i_id row)" and
      cownof = "\<lambda>row. make_cown_custom V (stock_table_addr a + 1024 * Stock_hash_key (s_w_id row) (s_i_id row))"])
    (use assms inj stock_keys(2,3) lt gok_stock in \<open>auto simp: Let_def stock_cown_def\<close>)
qed

text \<open>A key function and a cown function that are injective on the elements still to come stay fresh.\<close>

lemma prefix_fresh:
  assumes "xs = ys @ x # zs" and "distinct xs" and "inj_on key (set xs)" and "inj_on cown (set xs)" and "y \<in> set ys"
  shows "key y \<noteq> key x \<and> cown y \<noteq> cown x"
proof -
  have "y \<noteq> x" "y \<in> set xs" "x \<in> set xs" using assms by auto
  then show ?thesis using assms(3,4) by (meson inj_onD)
qed

lemma customer_keys:
  "(w, d, c) \<in> set customer_ids \<Longrightarrow> unat (Customer_hash_key w d c) < 30000"
  "inj_on (\<lambda>(w, d, c). Customer_hash_key w d c) (set customer_ids)"
proof -
  show "(w, d, c) \<in> set customer_ids \<Longrightarrow> unat (Customer_hash_key w d c) < 30000"
    by (auto simp: customer_ids_iff Customer_hash_key_unat valid_wd_def)
  show "inj_on (\<lambda>(w, d, c). Customer_hash_key w d c) (set customer_ids)"
  proof (rule inj_onI)
    fix x y
    assume mem: "x \<in> set customer_ids" "y \<in> set customer_ids"
      and eq: "(case x of (w, d, c) \<Rightarrow> Customer_hash_key w d c) = (case y of (w, d, c) \<Rightarrow> Customer_hash_key w d c)"
    obtain w d c w' d' c' where xy: "x = (w, d, c)" "y = (w', d', c')" by (metis prod_cases3)
    show "x = y"
      using Customer_hash_key_inj [of w d w' d' c c'] mem eq xy by (simp add: customer_ids_iff valid_wd_def)
  qed
qed

lemma customer_cowns:
  assumes "verona_ok V"
  shows "inj_on (customer_cown V a) (set customer_ids)" "inj_on (history_cown V a) (set customer_ids)"
proof -
  let ?key = "\<lambda>(w, d, c). Customer_hash_key w d c"
  have lt: "unat (?key x) < 30000" if "x \<in> set customer_ids" for x
    using that customer_keys(1) by (auto split: prod.split)
  have "inj_on (\<lambda>x. make_cown_custom V (customer_table_addr a + (2 * 1024) * ?key x)) (set customer_ids)"
    by (rule placed_inj_on [OF assms customer_keys(2)]) (use lt in fastforce)+
  then show "inj_on (customer_cown V a) (set customer_ids)"
    by (simp add: customer_cown_def case_prod_unfold)
  have "inj_on (\<lambda>x. make_cown_custom V (history_table_addr a + 1024 * ?key x)) (set customer_ids)"
    by (rule placed_inj_on [OF assms customer_keys(2)]) (use lt in fastforce)+
  then show "inj_on (history_cown V a) (set customer_ids)"
    by (simp add: history_cown_def History_hash_key_eq case_prod_unfold)
qed

definition customer_init :: "u32 \<times> u32 \<times> u32 \<Rightarrow> customer \<Rightarrow> bool" where
  "customer_init = (\<lambda>(w, d, c) r. c_w_id r = w \<and> c_d_id r = d \<and> c_id r = c \<and> c_payment_cnt r = 1 \<and>
     c_ytd_payment r = 10 \<and> c_discount r = 0)"

definition history_init :: "u32 \<times> u32 \<times> u32 \<Rightarrow> history \<Rightarrow> bool" where
  "history_init = (\<lambda>(w, d, c) h. h_c_w_id h = w \<and> h_c_d_id h = d \<and> h_c_id h = c)"

lemma generateCustomerAndHistory_ok:
  assumes "pick_ok e" and "verona_ok V"
    and "loaded 30000 (customer_cown V a) (\<lambda>(w, d, c). Customer_hash_key w d c) customer_init [] (customer_table db)"
    and "loaded 30000 (history_cown V a) (\<lambda>(w, d, c). History_hash_key w d c) history_init [] (history_table db)"
  shows "\<exists>t1 t2 s'. generateCustomerAndHistory V e a (db, s) = Inr (db\<lparr>customer_table := t1, history_table := t2\<rparr>, s') \<and>
    loaded 30000 (customer_cown V a) (\<lambda>(w, d, c). Customer_hash_key w d c) customer_init customer_ids t1 \<and>
    loaded 30000 (history_cown V a) (\<lambda>(w, d, c). History_hash_key w d c) history_init customer_ids t2"
proof -
  let ?k = "\<lambda>(w, d, c). Customer_hash_key w d c" and ?hk = "\<lambda>(w, d, c). History_hash_key w d c"
  let ?P = "\<lambda>ys st. \<exists>t1 t2 s'. st = (db\<lparr>customer_table := t1, history_table := t2\<rparr>, s') \<and>
    loaded 30000 (customer_cown V a) ?k customer_init ys t1 \<and> loaded 30000 (history_cown V a) ?hk history_init ys t2"
  have hk: "?hk = ?k" by (auto simp: History_hash_key_eq)
  have "\<exists>st. generateCustomerAndHistory V e a (db, s) = Inr st \<and> ?P customer_ids st"
    unfolding generateCustomerAndHistory_def
  proof (rule rfold_prefix [where P = ?P], goal_cases)
    case 1
    then show ?case using assms(3,4)
      by (intro exI [of _ "customer_table db"] exI [of _ "history_table db"]) simp
  next
    case (2 ys x zs st)
    from 2(2) obtain t1 t2 s1 where st: "st = (db\<lparr>customer_table := t1, history_table := t2\<rparr>, s1)"
        "loaded 30000 (customer_cown V a) ?k customer_init ys t1" "loaded 30000 (history_cown V a) ?hk history_init ys t2"
      by blast
    obtain w d c where x: "x = (w, d, c)" by (cases x)
    have mem: "(w, d, c) \<in> set customer_ids" unfolding 2(1) x by simp
    have lt: "unat (?k x) < 30000" "unat (?hk x) < 30000" using customer_keys(1) [OF mem] x by (simp_all add: hk)
    have len: "length ys < 30000" using arg_cong [OF 2(1), of length] by simp
    have c1: "1 \<le> unat c" using mem by (simp add: customer_ids_iff)
    obtain row s2 where row: "mk_customer w d c e s1 = Inr (row, s2)" "customer_init x row"
      using gokD [OF gok_customer [OF assms(1) c1]] x by (fastforce simp: customer_init_def)
    obtain h s3 where h: "mk_history w d c e s2 = Inr (h, s3)" "history_init x h"
      using gokD [OF gok_history [OF assms(1)]] x by (fastforce simp: history_init_def)
    note fresh = prefix_fresh [OF 2(1) ids_distinct(2) customer_keys(2)]
    obtain t1' where t1': "insert_new_row (?k x) (customer_cown V a x) row t1 = Inr t1'"
        "loaded 30000 (customer_cown V a) ?k customer_init (ys @ [x]) t1'"
      using loaded_insert [OF st(2) len lt(1) row(2) fresh [OF customer_cowns(1) [OF assms(2)]]] by blast
    obtain t2' where t2': "insert_new_row (?hk x) (history_cown V a x) h t2 = Inr t2'"
        "loaded 30000 (history_cown V a) ?hk history_init (ys @ [x]) t2'"
      using loaded_insert [OF st(3) len lt(2) h(2), unfolded hk, OF fresh [OF customer_cowns(2) [OF assms(2)]]] hk
      by metis
    let ?st = "(db\<lparr>customer_table := t1', history_table := t2'\<rparr>, s3)"
    have "?P (ys @ [x]) ?st" using t1'(2) t2'(2) by blast
    then show ?case
      using st(1) x row h t1'(1) t2'(1)
      by (intro exI [of _ ?st] conjI)
        (simp_all add: Let_def customer_init_def history_init_def customer_cown_def history_cown_def)
  qed
  then show ?thesis by blast
qed

section \<open>Orders and their lines\<close>

definition line_cown :: "'c verona \<Rightarrow> table_addrs \<Rightarrow> u64 \<Rightarrow> 'c" where
  "line_cown V a key = make_cown_custom V (order_line_table_addr a + 1024 * key)"

definition lines_inv :: "nat \<Rightarrow> ('c, order_line) row_store \<Rightarrow> bool" where
  "lines_inv n t \<longleftrightarrow> table_inv (rs_table t) \<and> tbl_size (rs_table t) = 61560000 \<and> unat (tbl_cnt (rs_table t)) \<le> n"

definition line_present :: "'c verona \<Rightarrow> table_addrs \<Rightarrow> ('c, order_line) row_store \<Rightarrow> u64 \<Rightarrow> bool" where
  "line_present V a t key \<longleftrightarrow> get_row_addr key (rs_table t) = Inr (Some (line_cown V a key))"

text \<open>All lines of an order are in the table.\<close>

definition lines_present :: "'c verona \<Rightarrow> table_addrs \<Rightarrow> ('c, order_line) row_store \<Rightarrow> order \<Rightarrow> bool" where
  "lines_present V a t ord \<longleftrightarrow> (\<forall>number. 1 \<le> unat number \<and> unat number \<le> unat (o_ol_cnt ord) \<longrightarrow>
     line_present V a t (OrderLine_hash_key (o_w_id ord) (o_d_id ord) (o_id ord) (ucast (number :: u32))))"

lemma insert_line_ok:
  assumes "lines_inv n t" and "n < 61560000" and "unat key < 61560000"
  shows "\<exists>t'. insert_new_row key (line_cown V a key) row t = Inr t' \<and> lines_inv (Suc n) t' \<and>
     line_present V a t' key \<and> (\<forall>k. line_present V a t k \<longrightarrow> line_present V a t' k)"
proof -
  have room: "table_inv (rs_table t)" "unat (tbl_cnt (rs_table t)) < tbl_size (rs_table t)"
      "unat key < tbl_size (rs_table t)"
    using assms by (simp_all add: lines_inv_def)
  obtain t' where "insert_new_row key (line_cown V a key) row t = Inr t'" "table_inv (rs_table t')"
      "unat (tbl_cnt (rs_table t')) = Suc (unat (tbl_cnt (rs_table t)))" "tbl_size (rs_table t') = tbl_size (rs_table t)"
      "\<forall>k. get_row_addr k (rs_table t') = (if k = key then Inr (Some (line_cown V a key)) else get_row_addr k (rs_table t))"
    by (rule insert_new_row_ok [OF room, where c = "line_cown V a key" and row = row])
  then show ?thesis
    using assms(1) by (auto simp: lines_inv_def line_present_def)
qed

lemma insert_order_lines_ok:
  fixes oid :: u32
  assumes "pick_ok e" and "lines_inv n (order_line_table db)" and "n + 15 < 61560000"
    and "valid_wd (o_w_id ord) (o_d_id ord)" and "o_w_id ord = 1" and "o_id ord = ucast oid"
    and "1 \<le> unat oid" and "unat oid \<le> 6840" and "unat (o_ol_cnt ord) \<le> 15"
  shows "\<exists>t s'. insert_order_lines V e a ord (db, s) = Inr (db\<lparr>order_line_table := t\<rparr>, s') \<and>
     lines_inv (n + 15) t \<and> lines_present V a t ord \<and>
     (\<forall>k. line_present V a (order_line_table db) k \<longrightarrow> line_present V a t k)"
proof -
  let ?key = "\<lambda>number :: u32. OrderLine_hash_key (o_w_id ord) (o_d_id ord) (o_id ord) (ucast number)"
  let ?P = "\<lambda>ys st. \<exists>t s'. st = (db\<lparr>order_line_table := t\<rparr>, s') \<and> lines_inv (n + length ys) t \<and>
     (\<forall>i\<in>set ys. line_present V a t (?key i)) \<and>
     (\<forall>k. line_present V a (order_line_table db) k \<longrightarrow> line_present V a t k)"
  have "\<exists>st. insert_order_lines V e a ord (db, s) = Inr st \<and> ?P (upto32 (o_ol_cnt ord)) st"
    unfolding insert_order_lines_def
  proof (rule rfold_prefix [where P = ?P], goal_cases)
    case 1
    then show ?case using assms(2) by (intro exI [of _ "order_line_table db"]) simp
  next
    case (2 ys i zs st)
    from 2(2) obtain t s1 where t: "st = (db\<lparr>order_line_table := t\<rparr>, s1)" "lines_inv (n + length ys) t"
        "\<forall>i\<in>set ys. line_present V a t (?key i)"
        "\<forall>k. line_present V a (order_line_table db) k \<longrightarrow> line_present V a t k" by blast
    have "i \<in> set (upto32 (o_ol_cnt ord))" unfolding 2(1) by simp
    then have i: "1 \<le> unat i" "unat i \<le> 15" using assms(9) by (auto simp: upto32_set)
    have len: "n + length ys < 61560000" using arg_cong [OF 2(1), of length] assms(3,9) by simp
    have "unat (?key i) = ((unat (o_w_id ord) - 1) * 68400 + (unat (o_d_id ord) - 1) * 6840 + (unat oid - 1)) * 15 + (unat i - 1)"
      unfolding assms(6) OrderLine_hash_key_eq [OF i(1)]
      by (rule OrderLine_hash_key_static_unat) (use assms i in auto)
    then have lt: "unat (?key i) < 61560000" using assms(4,5,7,8) i by (auto simp: valid_wd_def)
    obtain row s2 where row: "mk_order_line ord i e s1 = Inr (row, s2)" "ol_w_id row = o_w_id ord"
        "ol_d_id row = o_d_id ord" "ol_o_id row = o_id ord" "ol_number row = ucast i"
      using gokD [OF gok_order_line [OF assms(1)], of ord i s1] by blast
    obtain t' where t': "insert_new_row (?key i) (line_cown V a (?key i)) row t = Inr t'"
        "lines_inv (Suc (n + length ys)) t'" "line_present V a t' (?key i)"
        "\<forall>k. line_present V a t k \<longrightarrow> line_present V a t' k"
      using insert_line_ok [OF t(2) len lt] by blast
    let ?st = "(db\<lparr>order_line_table := t'\<rparr>, s2)"
    have "?P (ys @ [i]) ?st" using t t' by (intro exI [of _ t'] exI [of _ s2]) auto
    then show ?case
      using t(1) row t'(1) by (intro exI [of _ ?st] conjI) (simp_all add: Let_def line_cown_def)
  qed
  then obtain t s' where t: "insert_order_lines V e a ord (db, s) = Inr (db\<lparr>order_line_table := t\<rparr>, s')"
      "lines_inv (n + unat (o_ol_cnt ord)) t" "\<forall>i\<in>set (upto32 (o_ol_cnt ord)). line_present V a t (?key i)"
      "\<forall>k. line_present V a (order_line_table db) k \<longrightarrow> line_present V a t k" by auto
  then have "lines_present V a t ord" by (simp add: lines_present_def upto32_set)
  moreover have "lines_inv (n + 15) t" using t(2) assms(9) by (simp add: lines_inv_def)
  ultimately show ?thesis using t by blast
qed

definition order_cown :: "'c verona \<Rightarrow> table_addrs \<Rightarrow> u32 \<times> u32 \<times> u32 \<Rightarrow> 'c" where
  "order_cown V a = (\<lambda>(w, d, i). make_cown_custom V (order_table_addr a + 1024 * Order_hash_key_static w d i))"

definition order_init :: "u32 \<times> u32 \<times> u32 \<Rightarrow> order \<Rightarrow> bool" where
  "order_init = (\<lambda>(w, d, i) r. o_w_id r = w \<and> o_d_id r = d \<and> o_id r = ucast i \<and>
     5 \<le> unat (o_ol_cnt r) \<and> unat (o_ol_cnt r) \<le> 15)"

definition district_orders :: "u32 \<times> u32 \<Rightarrow> (u32 \<times> u32 \<times> u32) list" where
  "district_orders = (\<lambda>(w, d). map (\<lambda>i. (w, d, i)) (upto32 INITIAL_ORDERS_PER_DISTRICT))"

definition order_ids :: "(u32 \<times> u32 \<times> u32) list" where
  "order_ids = concat (map district_orders district_ids)"

text \<open>What the loader has built after the orders \<open>ys\<close>, starting from the database \<open>db\<close>.\<close>

definition orders_inv ::
  "'c verona \<Rightarrow> table_addrs \<Rightarrow> 'c database \<Rightarrow> (u32 \<times> u32 \<times> u32) list \<Rightarrow> 'c loader \<Rightarrow> bool" where
  "orders_inv V a db ys st \<longleftrightarrow> (\<exists>t l s. st = (db\<lparr>order_table := t, order_line_table := l\<rparr>, s) \<and>
     loaded 2052000 (order_cown V a) (\<lambda>(w, d, i). Order_hash_key_static w d i) order_init ys t \<and>
     lines_inv (15 * length ys) l \<and> (\<forall>row\<in>ran (rs_rows t). lines_present V a l row))"

lemma order_ids_product: "order_ids = List.product (upto32 NUM_WAREHOUSES)
    (List.product (upto32 DISTRICTS_PER_WAREHOUSE) (upto32 INITIAL_ORDERS_PER_DISTRICT))"
proof -
  have "concat (map (\<lambda>x. map (Pair (fst x) \<circ> Pair (snd x)) zs) (map (Pair w) ys)) = map (Pair w) (List.product ys zs)"
    for w :: u32 and ys zs :: "u32 list"
    by (induction ys) simp_all
  then show ?thesis
    by (simp add: order_ids_def district_orders_def district_ids_def upto32_1 case_prod_unfold comp_def)
qed

lemma order_ids_iff:
  "(w, d, i) \<in> set order_ids \<longleftrightarrow> w = 1 \<and> 1 \<le> unat d \<and> unat d \<le> 10 \<and> 1 \<le> unat i \<and> unat i \<le> 3000"
  by (auto simp: order_ids_product upto32_1 upto32_set DISTRICTS_PER_WAREHOUSE_def INITIAL_ORDERS_PER_DISTRICT_def)

lemma order_ids_distinct: "distinct order_ids" and order_ids_length: "length order_ids = 30000"
  by (simp_all add: order_ids_product distinct_product distinct_upto32 tpcc_consts)

lemma order_keys:
  "(w, d, i) \<in> set order_ids \<Longrightarrow> unat (Order_hash_key_static w d i) < 2052000"
  "inj_on (\<lambda>(w, d, i). Order_hash_key_static w d i) (set order_ids)"
proof -
  show "(w, d, i) \<in> set order_ids \<Longrightarrow> unat (Order_hash_key_static w d i) < 2052000"
    by (auto simp: order_ids_iff Order_hash_key_static_unat valid_wd_def)
  show "inj_on (\<lambda>(w, d, i). Order_hash_key_static w d i) (set order_ids)"
  proof (rule inj_onI)
    fix x y
    assume mem: "x \<in> set order_ids" "y \<in> set order_ids"
      and eq: "(case x of (w, d, i) \<Rightarrow> Order_hash_key_static w d i) = (case y of (w, d, i) \<Rightarrow> Order_hash_key_static w d i)"
    obtain w d i w' d' i' where xy: "x = (w, d, i)" "y = (w', d', i')" by (metis prod_cases3)
    have "w = w' \<and> d = d' \<and> (ucast i :: u64) = ucast i'"
      using Order_hash_key_inj [of w d w' d' "ucast i" "ucast i'"] mem eq xy
      by (simp add: order_ids_iff valid_wd_def Order_hash_key_eq)
    then show "x = y" using xy by (metis unat_ucast_u32_u64 word_unat_eq_iff)
  qed
qed

lemma order_cowns: "verona_ok V \<Longrightarrow> inj_on (order_cown V a) (set order_ids)"
proof -
  assume V: "verona_ok V"
  let ?key = "\<lambda>(w, d, i). Order_hash_key_static w d i"
  have lt: "unat (?key x) < 2052000" if "x \<in> set order_ids" for x
    using that order_keys(1) by (auto split: prod.split)
  have "inj_on (\<lambda>x. make_cown_custom V (order_table_addr a + 1024 * ?key x)) (set order_ids)"
    by (rule placed_inj_on [OF V order_keys(2)]) (use lt in fastforce)+
  then show ?thesis by (simp add: order_cown_def case_prod_unfold)
qed

lemma orders_inv_step:
  assumes "pick_ok e" and "verona_ok V" and "orders_inv V a db ys (db1, s1)" and "order_ids = ys @ (w, d, i) # zs"
    and "length perm = 3001"
  shows "\<exists>st. (let pos = unat (i - 1) in
     if length perm \<le> pos then Inl OutOfBounds
     else rbind (mk_order w d i (perm ! pos) e s1) (\<lambda>(ord, s1).
          rbind (insert_order_lines V e a ord (db1, s1)) (\<lambda>(db2, s2).
            let key = Order_hash_key (o_w_id ord) (o_d_id ord) (o_id ord);
                c = make_cown_custom V (order_table_addr a + 1024 * key) in
            rmap (\<lambda>t. (db2\<lparr>order_table := t\<rparr>, s2)) (insert_new_row key c ord (order_table db2))))) = Inr st \<and>
     orders_inv V a db (ys @ [(w, d, i)]) st"
proof -
  let ?k = "\<lambda>(w, d, i). Order_hash_key_static w d i" and ?x = "(w, d, i)"
  obtain t l where db1: "db1 = db\<lparr>order_table := t, order_line_table := l\<rparr>"
      "loaded 2052000 (order_cown V a) ?k order_init ys t" "lines_inv (15 * length ys) l"
      "\<forall>row\<in>ran (rs_rows t). lines_present V a l row"
    using assms(3) by (auto simp: orders_inv_def)
  have mem: "?x \<in> set order_ids" unfolding assms(4) by simp
  then have r: "w = 1" "valid_wd w d" "1 \<le> unat i" "unat i \<le> 3000" by (simp_all add: order_ids_iff valid_wd_def)
  have len: "length ys < 30000" using arg_cong [OF assms(4), of length] by (simp add: order_ids_length)
  obtain ord s2 where ord: "mk_order w d i (perm ! unat (i - 1)) e s1 = Inr (ord, s2)" "order_init ?x ord"
    using gokD [OF gok_order [OF assms(1)]] by (fastforce simp: order_init_def)
  have f: "o_w_id ord = w" "o_d_id ord = d" "o_id ord = ucast i" "unat (o_ol_cnt ord) \<le> 15"
    using ord(2) by (simp_all add: order_init_def)
  have "lines_inv (15 * length ys) (order_line_table db1)" using db1(1,3) by simp
  then obtain l' s3 where l': "insert_order_lines V e a ord (db1, s2) = Inr (db1\<lparr>order_line_table := l'\<rparr>, s3)"
      "lines_inv (15 * length ys + 15) l'" "lines_present V a l' ord"
      "\<forall>k. line_present V a l k \<longrightarrow> line_present V a l' k"
    using insert_order_lines_ok [OF assms(1), where ord = ord and oid = i and n = "15 * length ys" and db = db1 and V = V and a = a and s = s2]
      f r len db1(1) by auto
  have lt: "unat (?k ?x) < 2052000" "length ys < 2052000" using order_keys(1) [OF mem] len by simp_all
  note fresh = prefix_fresh [OF assms(4) order_ids_distinct order_keys(2) order_cowns [OF assms(2)]]
  obtain t' where t': "insert_new_row (?k ?x) (order_cown V a ?x) ord t = Inr t'"
      "loaded 2052000 (order_cown V a) ?k order_init (ys @ [?x]) t'"
    using loaded_insert [OF db1(2) lt(2) lt(1) ord(2) fresh] by blast
  have "ran (rs_rows t') \<subseteq> insert ord (ran (rs_rows t))"
    using t'(1) by (auto simp: insert_new_row_def result_simps ran_def split: if_splits)
  then have "\<forall>row\<in>ran (rs_rows t'). lines_present V a l' row"
    using l'(3,4) db1(4) by (auto simp: lines_present_def)
  then have inv: "orders_inv V a db (ys @ [?x]) (db\<lparr>order_table := t', order_line_table := l'\<rparr>, s3)"
    using t'(2) l'(2) by (auto simp: orders_inv_def algebra_simps)
  have "\<not> length perm \<le> unat (i - 1)" using r assms(5) by (simp add: unat_pred)
  then show ?thesis
    using ord(1) l'(1) t'(1) inv db1(1) f r
    by (intro exI [of _ "(db\<lparr>order_table := t', order_line_table := l'\<rparr>, s3)"] conjI)
      (simp_all add: Let_def Order_hash_key_eq order_cown_def)
qed

lemma district_orders_ok:
  assumes "pick_ok e" and "verona_ok V" and "orders_inv V a db ys (db1, s1)" and "length perm = 3001"
    and "order_ids = ys @ district_orders (w, d) @ zs"
  shows "\<exists>st. generate_district_orders V e a w d perm (db1, s1) = Inr st \<and>
     orders_inv V a db (ys @ district_orders (w, d)) st"
proof -
  let ?P = "\<lambda>ms st. orders_inv V a db (ys @ map (\<lambda>i. (w, d, i)) ms) st"
  have "\<exists>st. generate_district_orders V e a w d perm (db1, s1) = Inr st \<and> ?P (upto32 INITIAL_ORDERS_PER_DISTRICT) st"
    unfolding generate_district_orders_def
  proof (rule rfold_prefix [where P = ?P], goal_cases)
    case 1
    then show ?case using assms(3) by simp
  next
    case (2 ms i js st)
    obtain db2 s2 where st: "st = (db2, s2)" by fastforce
    have "order_ids = (ys @ map (\<lambda>i. (w, d, i)) ms) @ (w, d, i) # (map (\<lambda>i. (w, d, i)) js @ zs)"
      using assms(5) 2(1) by (simp add: district_orders_def)
    from orders_inv_step [OF assms(1,2) 2(2) [unfolded st] this assms(4)] show ?case
      by (simp add: st)
  qed
  then show ?thesis by (simp add: district_orders_def)
qed

text \<open>The shuffle of the standard library permutes.\<close>

definition shuffle_ok :: "rand_env \<Rightarrow> bool" where
  "shuffle_ok e \<longleftrightarrow> (\<forall>i xs. length (shuffled e i xs) = length xs \<and> set (shuffled e i xs) = set xs)"

lemma generateOrders_ok:
  assumes "pick_ok e" and "verona_ok V" and "shuffle_ok e" and "orders_inv V a db [] (db, s)"
  shows "\<exists>st. generateOrdersAndOrderLines V e a (db, s) = Inr st \<and> orders_inv V a db order_ids st"
proof -
  let ?P = "\<lambda>ds st. orders_inv V a db (concat (map district_orders ds)) st"
  have "\<exists>st. generateOrdersAndOrderLines V e a (db, s) = Inr st \<and> ?P district_ids st"
    unfolding generateOrdersAndOrderLines_def
  proof (rule rfold_prefix [where P = ?P], goal_cases)
    case 1
    then show ?case using assms(4) by simp
  next
    case (2 ds wd ds' st)
    obtain db1 s1 w d where st: "st = (db1, s1)" "wd = (w, d)" by fastforce
    let ?perm = "shuffled e (shuffles s1) (map word_of_int [1..uint (CUSTOMERS_PER_DISTRICT + 1)])"
    have perm: "make_permutation 1 (uint (CUSTOMERS_PER_DISTRICT + 1)) e s1 = Inr (?perm, s1\<lparr>shuffles := Suc (shuffles s1)\<rparr>)"
      by (simp add: make_permutation_def)
    have len: "length ?perm = 3001" using assms(3) by (simp add: shuffle_ok_def CUSTOMERS_PER_DISTRICT_def)
    have ids: "order_ids = concat (map district_orders ds) @ district_orders (w, d) @ concat (map district_orders ds')"
      unfolding order_ids_def 2(1) st(2) by simp
    have inv: "orders_inv V a db (concat (map district_orders ds)) (db1, s1\<lparr>shuffles := Suc (shuffles s1)\<rparr>)"
      using 2(2) st(1) by (auto simp: orders_inv_def)
    from district_orders_ok [OF assms(1,2) inv len ids] show ?case using perm by (simp add: st)
  qed
  then show ?thesis by (simp add: order_ids_def)
qed

section \<open>The loaded database\<close>

definition warehouse_init :: "u32 \<Rightarrow> warehouse \<Rightarrow> bool" where
  "warehouse_init w r \<longleftrightarrow> w_id r = w \<and> w_ytd r = 300000 \<and> w_tax r = 0"

definition district_init :: "u32 \<times> u32 \<Rightarrow> district \<Rightarrow> bool" where
  "district_init = (\<lambda>(w, d) r. d_w_id r = w \<and> d_id r = d \<and> d_ytd r = 300000 \<and> d_next_o_id r = 3001)"

definition stock_init :: "u32 \<times> u32 \<Rightarrow> stock \<Rightarrow> bool" where
  "stock_init = (\<lambda>(w, i) r. s_w_id r = w \<and> s_i_id r = ucast i \<and> 10 \<le> unat (s_quantity r) \<and> unat (s_quantity r) \<le> 100)"

definition item_init :: "u32 \<Rightarrow> item \<Rightarrow> bool" where
  "item_init i r \<longleftrightarrow> i_id r = ucast i"

text \<open>Every row of the initial database is under its key, in its place, with its initial values.\<close>

definition db_loaded :: "'c verona \<Rightarrow> table_addrs \<Rightarrow> 'c database \<Rightarrow> bool" where
  "db_loaded V a db \<longleftrightarrow>
     loaded 1 (warehouse_cown V a) Warehouse_hash_key warehouse_init [1] (warehouse_table db) \<and>
     loaded 10 (district_cown V a) (\<lambda>(w, d). District_hash_key w d) district_init district_ids (district_table db) \<and>
     loaded 30000 (customer_cown V a) (\<lambda>(w, d, c). Customer_hash_key w d c) customer_init customer_ids (customer_table db) \<and>
     loaded 30000 (history_cown V a) (\<lambda>(w, d, c). History_hash_key w d c) history_init customer_ids (history_table db) \<and>
     loaded 100000 (item_cown V a) Item_hash_key_static item_init (upto32 NUM_ITEMS) (item_table db) \<and>
     loaded 100000 (stock_cown V a) (\<lambda>(w, i). Stock_hash_key_static w i) stock_init stock_ids (stock_table db) \<and>
     loaded 2052000 (order_cown V a) (\<lambda>(w, d, i). Order_hash_key_static w d i) order_init order_ids (order_table db) \<and>
     lines_inv 450000 (order_line_table db) \<and>
     (\<forall>row\<in>ran (rs_rows (order_table db)). lines_present V a (order_line_table db) row) \<and>
     new_order_table db = new_store TSIZE_NEW_ORDER"

lemma loaded_new_sizes:
  "loaded 1 cw kw Pw [] (new_store TSIZE_WAREHOUSE)" "loaded 10 cd kd Pd [] (new_store TSIZE_DISTRICT)"
  "loaded 30000 cc kc Pc [] (new_store TSIZE_CUSTOMER)" "loaded 30000 ch kh Ph [] (new_store TSIZE_HISTORY)"
  "loaded 100000 ci ki Pi [] (new_store TSIZE_ITEM)" "loaded 100000 cs ks Ps [] (new_store TSIZE_STOCK)"
  "loaded 2052000 co ko Po [] (new_store TSIZE_ORDER)"
  using loaded_new [of TSIZE_WAREHOUSE] loaded_new [of TSIZE_DISTRICT] loaded_new [of TSIZE_CUSTOMER]
    loaded_new [of TSIZE_HISTORY] loaded_new [of TSIZE_ITEM] loaded_new [of TSIZE_STOCK] loaded_new [of TSIZE_ORDER]
  by (simp_all add: const_simps)

lemma lines_inv_new: "lines_inv 0 (new_store TSIZE_ORDER_LINE)"
  by (simp add: lines_inv_def new_store_def new_table_def table_inv_def const_simps)

lemma new_tables:
  "warehouse_table new_database = new_store TSIZE_WAREHOUSE" "district_table new_database = new_store TSIZE_DISTRICT"
  "customer_table new_database = new_store TSIZE_CUSTOMER" "order_line_table new_database = new_store TSIZE_ORDER_LINE"
  "stock_table new_database = new_store TSIZE_STOCK" "order_table new_database = new_store TSIZE_ORDER"
  "new_order_table new_database = new_store TSIZE_NEW_ORDER" "item_table new_database = new_store TSIZE_ITEM"
  "history_table new_database = new_store TSIZE_HISTORY"
  by (simp_all add: new_database_def)

lemma tpcc_load_ok:
  assumes e: "pick_ok e" and V: "verona_ok V" and "shuffle_ok e"
  shows "\<exists>db s. tpcc_load V e a = Inr (db, s) \<and> db_loaded V a db"
proof -
  have Pw: "warehouse_init = (\<lambda>w r. w_id r = w \<and> w_ytd r = 300000 \<and> w_tax r = 0)"
    by (simp add: warehouse_init_def fun_eq_iff)
  have lw: "loaded 1 (warehouse_cown V a) Warehouse_hash_key warehouse_init [] (warehouse_table new_database)"
    unfolding new_tables by (rule loaded_new_sizes)
  obtain tw s1 where w: "generateWarehouses V e a (new_database, new_rand) = Inr (new_database\<lparr>warehouse_table := tw\<rparr>, s1)"
      "loaded 1 (warehouse_cown V a) Warehouse_hash_key warehouse_init [1] tw"
    using generateWarehouses_ok [OF e V lw Pw] by blast
  obtain td s2 where d: "generateDistricts V e a (new_database\<lparr>warehouse_table := tw\<rparr>, s1) =
        Inr (new_database\<lparr>warehouse_table := tw, district_table := td\<rparr>, s2)"
      "loaded 10 (district_cown V a) (\<lambda>(w, d). District_hash_key w d) district_init district_ids td"
    using generateDistricts_ok [OF e V _ district_init_def, of a "new_database\<lparr>warehouse_table := tw\<rparr>" s1]
    by (simp add: new_tables loaded_new_sizes) blast
  let ?db2 = "new_database\<lparr>warehouse_table := tw, district_table := td\<rparr>"
  obtain tc th s3 where c: "generateCustomerAndHistory V e a (?db2, s2) = Inr (?db2\<lparr>customer_table := tc, history_table := th\<rparr>, s3)"
      "loaded 30000 (customer_cown V a) (\<lambda>(w, d, c). Customer_hash_key w d c) customer_init customer_ids tc"
      "loaded 30000 (history_cown V a) (\<lambda>(w, d, c). History_hash_key w d c) history_init customer_ids th"
    using generateCustomerAndHistory_ok [OF e V, of a ?db2 s2]
    by (simp add: new_tables loaded_new_sizes) blast
  let ?db3 = "?db2\<lparr>customer_table := tc, history_table := th\<rparr>"
  have Pi: "item_init = (\<lambda>i r. i_id r = ucast i)" by (simp add: item_init_def fun_eq_iff)
  obtain ti s4 where i: "generateItems V e a (?db3, s3) = Inr (?db3\<lparr>item_table := ti\<rparr>, s4)"
      "loaded 100000 (item_cown V a) Item_hash_key_static item_init (upto32 NUM_ITEMS) ti"
    using generateItems_ok [OF e V _ Pi, of a ?db3 s3]
    by (simp add: new_tables loaded_new_sizes) blast
  let ?db4 = "?db3\<lparr>item_table := ti\<rparr>"
  obtain ts s5 where s: "generateStocks V e a (?db4, s4) = Inr (?db4\<lparr>stock_table := ts\<rparr>, s5)"
      "loaded 100000 (stock_cown V a) (\<lambda>(w, i). Stock_hash_key_static w i) stock_init stock_ids ts"
    using generateStocks_ok [OF e V _ stock_init_def, of a ?db4 s4]
    by (simp add: new_tables loaded_new_sizes) blast
  let ?db5 = "?db4\<lparr>stock_table := ts\<rparr>"
  have "ran (rs_rows (order_table ?db5)) = {}" by (simp add: new_tables new_store_def)
  then have "orders_inv V a ?db5 [] (?db5, s5)"
    unfolding orders_inv_def
    by (intro exI [of _ "order_table ?db5"] exI [of _ "order_line_table ?db5"] exI [of _ s5])
      (simp add: new_tables loaded_new_sizes lines_inv_new)
  then obtain st where "generateOrdersAndOrderLines V e a (?db5, s5) = Inr st" "orders_inv V a ?db5 order_ids st"
    using generateOrders_ok [OF e V assms(3)] by blast
  then show ?thesis
    using w d c i s by (auto simp: tpcc_load_def orders_inv_def db_loaded_def order_ids_length new_tables simp del: One_nat_def)
qed

section \<open>Properties\<close>

lemma least_env_shuffle [simp]: "shuffle_ok least_env"
  by (simp add: shuffle_ok_def least_env_def)


definition sample_addrs :: table_addrs where
  "sample_addrs = \<lparr>warehouse_table_addr = 0, district_table_addr = 0x1000, customer_table_addr = 0x10000,
     history_table_addr = 0x10000000, order_table_addr = 0x20000000, order_line_table_addr = 0x100000000,
     item_table_addr = 0x30000000, stock_table_addr = 0x40000000\<rparr>"


text \<open>
  C40. Two slips of the loader.  The tax of a warehouse and the discount of a customer are fractions
  below one that are stored in integer fields: the loader always stores 0.  And the permutation the
  customer numbers of a district's orders are taken from has 3001 elements and contains the number
  3001, which no customer row has.
\<close>

theorem loader_slips:
  assumes "pick_ok e" and "shuffle_ok e" and "1 \<le> unat cid"
  shows "(\<exists>r s'. mk_warehouse wid e s = Inr (r, s') \<and> w_tax r = 0) \<and>
    (\<exists>r s'. mk_customer wid did cid e s = Inr (r, s') \<and> c_discount r = 0) \<and>
    (\<exists>p s'. make_permutation 1 (uint (CUSTOMERS_PER_DISTRICT + 1)) e s = Inr (p, s') \<and>
      length p = 3001 \<and> 3001 \<in> set p \<and> (\<forall>w d. (w, d, 3001) \<notin> set customer_ids))"
proof -
  have "uint (CUSTOMERS_PER_DISTRICT + 1) = 3001" by (simp add: tpcc_consts)
  moreover have "(3001 :: u32) \<in> word_of_int ` {1..3001}" by (intro image_eqI [of _ _ 3001]) auto
  ultimately have "\<exists>p s'. make_permutation 1 (uint (CUSTOMERS_PER_DISTRICT + 1)) e s = Inr (p, s') \<and>
      length p = 3001 \<and> 3001 \<in> set p \<and> (\<forall>w d. (w, d, 3001) \<notin> set customer_ids)"
    using assms(2) by (simp add: make_permutation_def shuffle_ok_def customer_ids_iff)
  then show ?thesis
    using gokD [OF gok_warehouse [OF assms(1), of wid], where s = s]
      gokD [OF gok_customer [OF assms(1,3), of wid did], where s = s] by blast
qed

theorem loader_slips_witness:
  "(\<exists>r s'. mk_customer 1 1 7 least_env new_rand = Inr (r, s') \<and> c_discount r = 0) \<and>
   (\<exists>p s'. make_permutation 1 (uint (CUSTOMERS_PER_DISTRICT + 1)) least_env new_rand = Inr (p, s') \<and> 3001 \<in> set p)"
  using loader_slips [of least_env 7 1 new_rand 1] by auto

end
