(* ===== verification/Tx_Counter.thy ===== *)
theory Tx_Counter
  imports Prelude
begin

text \<open>
  The per-thread transaction counters of \<^verbatim>\<open>src/doradd/txcounter.hpp\<close>: a thread-local singleton
  registers itself in \<open>counter_map\<close> and \<open>log_map\<close> on first use, counts the transactions its thread
  executes and samples their latencies, and removes itself when the thread ends.  The maps hold
  pointers into the singleton of the same thread, so an entry is the thread id whose singleton it
  points to.  The dispatcher adds the counters up (\<open>calc_tx_exec_sum\<close>).
\<close>

definition SAMPLE_RATE :: u64 where
  "SAMPLE_RATE = 10"

record tx_counter =
  tx_cnt :: u64
  log_arr :: "u32 list"

record 't counters =
  singletons :: "'t \<Rightarrow> tx_counter option"
  counter_map :: "'t list"
  log_map :: "'t list"

definition no_counters :: "'t counters" where
  "no_counters = \<lparr>singletons = (\<lambda>_. None), counter_map = [], log_map = []\<rparr>"

text \<open>\<open>(*map)[id] = ptr\<close> on an \<open>unordered_map\<close> whose keys are listed once each.\<close>

definition map_put :: "'t \<Rightarrow> 't list \<Rightarrow> 't list" where
  "map_put t ts = (if t \<in> set ts then ts else t # ts)"

definition construct :: "'t \<Rightarrow> 't counters \<Rightarrow> 't counters" where
  "construct t w = w\<lparr>singletons := (singletons w)(t \<mapsto> \<lparr>tx_cnt = 0, log_arr = []\<rparr>),
                     counter_map := map_put t (counter_map w),
                     log_map := map_put t (log_map w)\<rparr>"

text \<open>\<open>instance()\<close>: the function-local \<open>thread_local\<close> is built when the thread first passes it.\<close>

definition tc_instance :: "'t \<Rightarrow> 't counters \<Rightarrow> tx_counter \<times> 't counters" where
  "tc_instance t w = (case singletons w t of
      Some c \<Rightarrow> (c, w)
    | None \<Rightarrow> (\<lparr>tx_cnt = 0, log_arr = []\<rparr>, construct t w))"

definition incr :: "'t \<Rightarrow> 't counters \<Rightarrow> 't counters" where
  "incr t w = (case tc_instance t w of (c, w1) \<Rightarrow>
     w1\<lparr>singletons := (singletons w1)(t \<mapsto> c\<lparr>tx_cnt := tx_cnt c + 1\<rparr>)\<rparr>)"

text \<open>
  \<open>log_latency(init_time)\<close>: every tenth transaction appends the elapsed time.  The conversion of a
  clock difference to \<open>uint32_t\<close> microseconds goes through \<open>double\<close> and is the argument \<open>to_us\<close>.
\<close>

definition log_latency :: "(int \<Rightarrow> u32) \<Rightarrow> 't \<Rightarrow> int \<Rightarrow> int \<Rightarrow> 't counters \<Rightarrow> 't counters" where
  "log_latency to_us t init_time time_now w = (case tc_instance t w of (c, w1) \<Rightarrow>
     if tx_cnt c mod SAMPLE_RATE = 0
     then w1\<lparr>singletons := (singletons w1)
               (t \<mapsto> c\<lparr>log_arr := log_arr c @ [to_us (time_now - init_time)]\<rparr>)\<rparr>
     else w1)"

definition destruct :: "'t \<Rightarrow> 't counters \<Rightarrow> 't counters" where
  "destruct t w = w\<lparr>singletons := (singletons w)(t := None),
                    counter_map := removeAll t (counter_map w),
                    log_map := removeAll t (log_map w)\<rparr>"

text \<open>The dispatcher's side: \<open>counter_map->size() == worker_cnt\<close> and the sum over the map.\<close>

definition track_worker_counter :: "u8 \<Rightarrow> 't counters \<Rightarrow> bool \<Rightarrow> bool" where
  "track_worker_counter worker_cnt w counter_registered =
     (if length (counter_map w) = unat worker_cnt then True else counter_registered)"

definition read_cnt :: "'t counters \<Rightarrow> 't \<Rightarrow> u64" where
  "read_cnt w t = (case singletons w t of Some c \<Rightarrow> tx_cnt c | None \<Rightarrow> 0)"

definition calc_tx_exec_sum :: "'t counters \<Rightarrow> u64" where
  "calc_tx_exec_sum w = fold (\<lambda>t sum. sum + read_cnt w t) (counter_map w) 0"

text \<open>The events of a run: a worker executes a transaction, or ends.\<close>

datatype 't tc_event = Executed 't int int | ThreadEnd 't

text \<open>
  A YCSB body logs and then counts (\<open>M_LOG_LATENCY\<close> of \<^verbatim>\<open>app/ycsb.cc\<close>); a TPC-C new-order body
  counts and then logs (\<open>NEWORDER_END\<close> of \<^verbatim>\<open>app/tpcc.cc\<close>).
\<close>

definition log_then_incr :: "(int \<Rightarrow> u32) \<Rightarrow> 't \<Rightarrow> int \<Rightarrow> int \<Rightarrow> 't counters \<Rightarrow> 't counters" where
  "log_then_incr to_us t i n w = incr t (log_latency to_us t i n w)"

definition incr_then_log :: "(int \<Rightarrow> u32) \<Rightarrow> 't \<Rightarrow> int \<Rightarrow> int \<Rightarrow> 't counters \<Rightarrow> 't counters" where
  "incr_then_log to_us t i n w = log_latency to_us t i n (incr t w)"

fun tc_step :: "(int \<Rightarrow> u32) \<Rightarrow> 't tc_event \<Rightarrow> 't counters \<Rightarrow> 't counters" where
  "tc_step to_us (Executed t i n) w = log_then_incr to_us t i n w"
| "tc_step to_us (ThreadEnd t) w = destruct t w"

section \<open>The maps and the singletons agree\<close>

definition counters_inv :: "'t counters \<Rightarrow> bool" where
  "counters_inv w \<longleftrightarrow> distinct (counter_map w) \<and> distinct (log_map w) \<and>
     set (counter_map w) = dom (singletons w) \<and> set (log_map w) = dom (singletons w)"

lemma map_put_simps [simp]:
  "set (map_put t ts) = insert t (set ts)" "distinct (map_put t ts) = distinct ts"
  by (auto simp: map_put_def)

lemmas tc_defs = incr_def log_latency_def tc_instance_def construct_def log_then_incr_def
  incr_then_log_def destruct_def

lemma no_counters_inv [simp]: "counters_inv no_counters"
  by (simp add: counters_inv_def no_counters_def)

lemma incr_inv: "counters_inv w \<Longrightarrow> counters_inv (incr t w)"
  by (auto simp: counters_inv_def tc_defs insert_absorb split: option.splits)

lemma log_latency_inv: "counters_inv w \<Longrightarrow> counters_inv (log_latency to_us t i n w)"
  by (auto simp: counters_inv_def tc_defs insert_absorb split: option.splits)

lemma destruct_inv: "counters_inv w \<Longrightarrow> counters_inv (destruct t w)"
  by (auto simp: counters_inv_def tc_defs distinct_removeAll)

lemma tc_step_inv: "counters_inv w \<Longrightarrow> counters_inv (tc_step to_us e w)"
  by (cases e) (simp_all add: log_then_incr_def incr_inv log_latency_inv destruct_inv)

lemma tc_run_inv: "counters_inv w \<Longrightarrow> counters_inv (fold (tc_step to_us) es w)"
  by (induction es arbitrary: w) (simp_all add: tc_step_inv)

section \<open>Counting\<close>

lemma read_cnt_executed [simp]:
  "read_cnt (log_then_incr to_us t i n w) t' = (if t' = t then read_cnt w t + 1 else read_cnt w t')"
  by (auto simp: read_cnt_def tc_defs split: option.splits)

lemma read_cnt_destruct [simp]:
  "read_cnt (destruct t w) t' = (if t' = t then 0 else read_cnt w t')"
  by (simp add: read_cnt_def destruct_def)

lemma fold_sum_eq: "fold (\<lambda>t s. s + f t) ts (a :: u64) = a + sum_list (map f ts)"
  by (induction ts arbitrary: a) (simp_all add: add.assoc)

lemma calc_tx_exec_sum_eq: "counters_inv w \<Longrightarrow> calc_tx_exec_sum w = (\<Sum>t\<in>dom (singletons w). read_cnt w t)"
  by (auto simp: calc_tx_exec_sum_def fold_sum_eq sum_list_distinct_conv_sum_set counters_inv_def)

lemma dom_executed [simp]: "dom (singletons (log_then_incr to_us t i n w)) = insert t (dom (singletons w))"
  by (auto simp: tc_defs split: option.splits)

lemma sum_executed:
  assumes "counters_inv w"
  shows "calc_tx_exec_sum (log_then_incr to_us t i n w) = calc_tx_exec_sum w + 1"
proof -
  let ?w = "log_then_incr to_us t i n w" and ?D = "dom (singletons w)"
  have fin: "finite ?D"
    using assms by (metis counters_inv_def List.finite_set)
  have "calc_tx_exec_sum ?w = (\<Sum>s\<in>insert t ?D. if s = t then read_cnt w t + 1 else read_cnt w s)"
    using calc_tx_exec_sum_eq [of ?w] tc_step_inv [OF assms, of to_us "Executed t i n"] by simp
  also have "\<dots> = (\<Sum>s\<in>?D - {t}. read_cnt w s) + read_cnt w t + 1"
    using fin by (simp add: sum.insert_remove add.commute add.left_commute)
  also have "(\<Sum>s\<in>?D - {t}. read_cnt w s) + read_cnt w t = (\<Sum>s\<in>?D. read_cnt w s)"
  proof (cases "t \<in> ?D")
    case True
    then show ?thesis using fin sum.remove [of ?D t "read_cnt w"] by (simp add: add.commute)
  next
    case False
    then have "read_cnt w t = 0" by (auto simp: read_cnt_def split: option.splits)
    with False show ?thesis by simp
  qed
  finally show ?thesis using assms by (simp add: calc_tx_exec_sum_eq)
qed

lemma exec_sum_run:
  assumes "counters_inv w" and "\<forall>e\<in>set es. \<exists>t i n. e = Executed t i n"
  shows "calc_tx_exec_sum (fold (tc_step to_us) es w) = calc_tx_exec_sum w + of_nat (length es)"
  using assms
proof (induction es arbitrary: w)
  case (Cons e es)
  then obtain t i n where e: "e = Executed t i n" by auto
  have "counters_inv (tc_step to_us e w)" using Cons.prems(1) by (rule tc_step_inv)
  with Cons e show ?case by (simp add: sum_executed)
qed simp

section \<open>Properties\<close>

text \<open>
  C30. After any interleaving of executed transactions and ending threads the two maps list exactly
  the live counters, once each, and the dispatcher's sum is the sum of the live counters.  While no
  thread ends, that sum counts every executed transaction once.
\<close>

theorem counters_consistent:
  "let w = fold (tc_step to_us) es no_counters in
   counters_inv w \<and> calc_tx_exec_sum w = (\<Sum>t\<in>dom (singletons w). read_cnt w t) \<and>
   ((\<forall>e\<in>set es. \<exists>t i n. e = Executed t i n) \<longrightarrow> calc_tx_exec_sum w = of_nat (length es))"
proof -
  let ?w = "fold (tc_step to_us) es no_counters"
  have inv: "counters_inv ?w" by (rule tc_run_inv [OF no_counters_inv])
  have "calc_tx_exec_sum ?w = of_nat (length es)" if "\<forall>e\<in>set es. \<exists>t i n. e = Executed t i n"
    using exec_sum_run [OF no_counters_inv that] by (simp add: calc_tx_exec_sum_def no_counters_def)
  with inv calc_tx_exec_sum_eq [OF inv] show ?thesis by (simp add: Let_def)
qed

theorem counters_consistent_witness:
  "calc_tx_exec_sum (fold (tc_step (\<lambda>_. 0)) [Executed (1 :: nat) 0 5, Executed 2 1 6, Executed 1 2 7] no_counters) = 3"
  using counters_consistent [of "\<lambda>_. 0" "[Executed (1 :: nat) 0 5, Executed 2 1 6, Executed 1 2 7]",
      unfolded Let_def, THEN conjunct2, THEN conjunct2] by force

end
