(* ===== verification/Dispatcher.thy ===== *)
theory Dispatcher
  imports Memory Tx_Counter
begin

text \<open>
  The single-threaded dispatcher \<open>FileDispatcher\<close> of \<^verbatim>\<open>src/doradd/dispatcher.hpp\<close> and what it shares
  with the pipelined stages: the constants of \<^verbatim>\<open>config.hpp\<close>, the interface of the transaction type
  \<open>T\<close> it is instantiated with, the batching of received requests, and the loops that walk the log.
  Pointers into the memory-mapped log are byte offsets from its first byte.  The builds modelled
  define \<open>RPC_LATENCY\<close> (as in the README) and \<open>PREFETCH\<close> (as in the CMake file).
\<close>

section \<open>Constants and the transaction type\<close>

definition MAX_BATCH :: u64 where
  "MAX_BATCH = 4"

definition RPC_LOG_SIZE :: u64 where
  "RPC_LOG_SIZE = 1000000"

definition ANNOUNCE_THROUGHPUT_BATCH_SIZE :: u64 where
  "ANNOUNCE_THROUGHPUT_BATCH_SIZE = 1000000"

lemma MAX_BATCH_unat [const_simps]: "unat MAX_BATCH = 4"
  by (simp add: MAX_BATCH_def)

lemma RPC_LOG_SIZE_unat [const_simps]: "unat RPC_LOG_SIZE = 1000000"
  by (simp add: RPC_LOG_SIZE_def)

text \<open>
  The static member functions a transaction class provides.  Each takes the offset of a record and
  returns the record's size; \<open>prepare_cowns\<close> also writes cown addresses into the record,
  \<open>prefetch_cowns\<close> yields the addresses it prefetches, and \<open>parse_and_process\<close> the behaviour it
  spawns, given the arrival time of the request.
\<close>

record ('m, 'b) txn_type =
  prepare_cowns :: "nat \<Rightarrow> 'm \<Rightarrow> (nat \<times> 'm) result"
  prefetch_cowns :: "nat \<Rightarrow> 'm \<Rightarrow> (nat \<times> u64 list) result"
  parse_and_process :: "nat \<Rightarrow> int \<Rightarrow> 'm \<Rightarrow> (nat \<times> 'b option) result"

text \<open>
  \<open>check_avail_cnts\<close>: spin until the counter of received requests differs from the requests
  handled, then take at most \<open>MAX_BATCH\<close> of them.  The argument lists the values successive loads
  return; \<open>None\<close> means that all of them were spins.
\<close>

definition dyn_batch :: "u64 \<Rightarrow> u64 \<Rightarrow> u64" where
  "dyn_batch handled load_val =
     (let avail_cnt = load_val - handled in if avail_cnt \<ge> MAX_BATCH then MAX_BATCH else avail_cnt)"

fun check_avail_cnts :: "u64 \<Rightarrow> u64 list \<Rightarrow> (u64 \<times> u64 list) option" where
  "check_avail_cnts handled [] = None"
| "check_avail_cnts handled (load_val # loads) =
     (if load_val - handled = 0 then check_avail_cnts handled loads
      else Some (dyn_batch handled load_val, loads))"

text \<open>The loops over a batch: \<open>head += T::prepare_cowns(head)\<close> and \<open>head += T::prefetch_cowns(head)\<close>.\<close>

definition prepare_step :: "('m, 'b) txn_type \<Rightarrow> nat \<times> 'm \<Rightarrow> (nat \<times> 'm) result" where
  "prepare_step T hm = (case hm of (head, m) \<Rightarrow>
     rbind (prepare_cowns T head m) (\<lambda>(ret, m'). Inr (head + ret, m')))"

definition prepare_loop :: "('m, 'b) txn_type \<Rightarrow> nat \<Rightarrow> nat \<times> 'm \<Rightarrow> (nat \<times> 'm) result" where
  "prepare_loop T b = rfold (\<lambda>_. prepare_step T) [0..<b]"

definition prefetch_step :: "('m, 'b) txn_type \<Rightarrow> 'm \<Rightarrow> nat \<Rightarrow> nat result" where
  "prefetch_step T m head = rbind (prefetch_cowns T head m) (\<lambda>(ret, as). Inr (head + ret))"

definition prefetch_loop :: "('m, 'b) txn_type \<Rightarrow> 'm \<Rightarrow> nat \<Rightarrow> nat \<Rightarrow> nat result" where
  "prefetch_loop T m b = rfold (\<lambda>_. prefetch_step T m) [0..<b]"

section \<open>The dispatcher\<close>

record file_dispatcher =
  fd_worker_cnt :: u8
  fd_counter_registered :: bool
  fd_rnd :: u16
  fd_idx :: u32
  fd_look_ahead :: u64
  fd_count :: u32
  fd_read_head :: nat
  fd_read_top :: nat
  fd_prepare_parse_read_head :: nat
  fd_prepare_proc_read_head :: nat
  fd_tx_count :: u64
  fd_tx_spawn_sum :: u64
  fd_tx_exec_sum :: u64
  fd_last_tx_exec_sum :: u64
  fd_handled_req_cnt :: u64
  fd_last_print :: int
  fd_txn_log_id :: int

text \<open>
  The constructor.  It leaves \<open>look_ahead\<close> uninitialised, so its first value is an argument, and
  \<open>now\<close> is the clock reading.
\<close>

definition new_file_dispatcher :: "mem \<Rightarrow> u8 \<Rightarrow> u64 \<Rightarrow> int \<Rightarrow> file_dispatcher result" where
  "new_file_dispatcher m worker_cnt look_ahead0 now =
     rbind (load_u32 0 m) (\<lambda>count. Inr
       \<lparr>fd_worker_cnt = worker_cnt, fd_counter_registered = False, fd_rnd = 1, fd_idx = 0,
        fd_look_ahead = look_ahead0, fd_count = count, fd_read_head = 4, fd_read_top = 4,
        fd_prepare_parse_read_head = 4, fd_prepare_proc_read_head = 4, fd_tx_count = 0,
        fd_tx_spawn_sum = 0, fd_tx_exec_sum = 0, fd_last_tx_exec_sum = 0,
        fd_handled_req_cnt = 0, fd_last_print = now, fd_txn_log_id = 0\<rparr>)"

text \<open>\<open>idx > (count - MAX_BATCH)\<close> compares in 64 bits: both operands are promoted to \<open>size_t\<close>.\<close>

definition past_last_batch :: "u32 \<Rightarrow> u32 \<Rightarrow> bool" where
  "past_last_batch idx count \<longleftrightarrow> (ucast idx :: u64) > ucast count - MAX_BATCH"

definition fd_wrap :: "file_dispatcher \<Rightarrow> file_dispatcher" where
  "fd_wrap d = (if past_last_batch (fd_idx d) (fd_count d)
     then d\<lparr>fd_idx := 0, fd_read_head := fd_read_top d,
            fd_prepare_parse_read_head := fd_read_top d,
            fd_prepare_proc_read_head := fd_read_top d\<rparr>
     else d)"

text \<open>
  \<open>dispatch_one\<close> and the bookkeeping around its call: read the arrival time logged for this
  transaction, parse the record at \<open>read_head\<close> and spawn its behaviour.
\<close>

definition fd_dispatch_one ::
  "('m, 'b) txn_type \<Rightarrow> (nat \<Rightarrow> int) \<Rightarrow> 'm \<Rightarrow> file_dispatcher \<times> 'b list \<Rightarrow> (file_dispatcher \<times> 'b list) result" where
  "fd_dispatch_one T init_times m dout = (case dout of (d, out) \<Rightarrow>
     rbind (parse_and_process T (fd_read_head d) (init_times (nat (fd_txn_log_id d))) m) (\<lambda>(ret, b).
       Inr (d\<lparr>fd_txn_log_id := fd_txn_log_id d + 1, fd_read_head := fd_read_head d + ret,
              fd_idx := fd_idx d + 1, fd_tx_count := fd_tx_count d + 1\<rparr>,
            out @ (case b of Some x \<Rightarrow> [x] | None \<Rightarrow> []))))"

definition dispatch_batch ::
  "('m, 'b) txn_type \<Rightarrow> (nat \<Rightarrow> int) \<Rightarrow> u64 \<Rightarrow> file_dispatcher \<Rightarrow> 'm \<Rightarrow> (file_dispatcher \<times> 'm \<times> 'b list) result" where
  "dispatch_batch T init_times batch d0 m =
     (let d = (fd_wrap d0)\<lparr>fd_look_ahead := batch\<rparr>; b = unat batch in
      rbind (prepare_loop T b (fd_prepare_proc_read_head d, m)) (\<lambda>(h1, m1).
      rbind (prefetch_loop T m1 b (fd_prepare_parse_read_head d)) (\<lambda>h2.
      rbind (rfold (\<lambda>_. fd_dispatch_one T init_times m1) [0..<b]
               (d\<lparr>fd_prepare_proc_read_head := h1, fd_prepare_parse_read_head := h2\<rparr>, []))
        (\<lambda>(d', out). Inr (d'\<lparr>fd_handled_req_cnt := fd_handled_req_cnt d' + batch\<rparr>, m1, out)))))"

text \<open>
  The function's return value, the number of bytes consumed, has no use in \<open>run\<close>.
  The throughput announcement: transactions spawned and executed since the previous one.\<close>

definition fd_announce :: "'t counters \<Rightarrow> int \<Rightarrow> file_dispatcher \<Rightarrow> file_dispatcher \<times> (u64 \<times> u64) list" where
  "fd_announce w now d =
     (if fd_tx_count d \<ge> ANNOUNCE_THROUGHPUT_BATCH_SIZE
      then let exec = (if fd_counter_registered d then calc_tx_exec_sum w else fd_tx_exec_sum d) in
           (d\<lparr>fd_tx_exec_sum := exec, fd_tx_count := 0, fd_last_tx_exec_sum := exec,
              fd_last_print := now\<rparr>,
            [(fd_tx_count d, exec - fd_last_tx_exec_sum d)])
      else (d, []))"

text \<open>
  One iteration of \<open>run\<close>.  \<open>None\<close> is the \<open>break\<close> on a full latency log, or spinning over the whole
  list of loads.
\<close>

definition fd_run_iter ::
  "('m, 'b) txn_type \<Rightarrow> (nat \<Rightarrow> int) \<Rightarrow> 't counters \<Rightarrow> int \<Rightarrow> u64 list \<Rightarrow> file_dispatcher \<Rightarrow> 'm \<Rightarrow>
     (file_dispatcher \<times> 'm \<times> 'b list \<times> (u64 \<times> u64) list) option result" where
  "fd_run_iter T init_times w now loads d0 m =
     (let d1 = d0\<lparr>fd_counter_registered :=
                    (if fd_counter_registered d0 then True
                     else track_worker_counter (fd_worker_cnt d0) w False)\<rparr> in
      if fd_txn_log_id d1 \<ge> int (unat RPC_LOG_SIZE) then Inr None
      else let d2 = d1\<lparr>fd_tx_spawn_sum := fd_tx_spawn_sum d1 + fd_look_ahead d1\<rparr> in
           (case check_avail_cnts (fd_handled_req_cnt d2) loads of
              None \<Rightarrow> Inr None
            | Some (batch, loads') \<Rightarrow>
                rbind (dispatch_batch T init_times batch d2 m) (\<lambda>(d3, m', out).
                  case fd_announce w now d3 of (d4, ann) \<Rightarrow> Inr (Some (d4, m', out, ann)))))"

text \<open>
  The dispatcher's invariant: every head stands at record \<open>idx\<close>, and \<open>idx\<close> is within the log.
\<close>

definition fd_ok :: "nat \<Rightarrow> nat \<Rightarrow> file_dispatcher \<Rightarrow> bool" where
  "fd_ok sz base d \<longleftrightarrow> 4 \<le> unat (fd_count d) \<and> unat (fd_idx d) \<le> unat (fd_count d) \<and>
     fd_read_top d = base \<and> fd_read_head d = base + sz * unat (fd_idx d) \<and>
     fd_prepare_parse_read_head d = base + sz * unat (fd_idx d) \<and>
     fd_prepare_proc_read_head d = base + sz * unat (fd_idx d) \<and> 0 \<le> fd_txn_log_id d"

text \<open>The record the next batch starts at, once the wrap-around check has been made.\<close>

definition wrap_pos :: "nat \<Rightarrow> nat \<Rightarrow> nat" where
  "wrap_pos n idx = (if n - 4 < idx then 0 else idx)"

lemma wrap_pos_room: "4 \<le> n \<Longrightarrow> b \<le> 4 \<Longrightarrow> wrap_pos n idx + b \<le> n"
  by (auto simp: wrap_pos_def)

section \<open>Batching\<close>

lemma dyn_batch_bounds:
  assumes "load_val - handled \<noteq> 0"
  shows "1 \<le> unat (dyn_batch handled load_val)" "unat (dyn_batch handled load_val) \<le> 4"
    "dyn_batch handled load_val \<le> load_val - handled"
proof -
  have "0 < unat (load_val - handled)"
    using assms by (simp add: unat_gt_0)
  then show "1 \<le> unat (dyn_batch handled load_val)" "unat (dyn_batch handled load_val) \<le> 4"
    "dyn_batch handled load_val \<le> load_val - handled"
    by (auto simp: dyn_batch_def Let_def MAX_BATCH_def word_le_nat_alt)
qed

lemma dyn_batch_handled:
  assumes "handled \<le> load_val" and "handled \<noteq> load_val"
  shows "unat handled + unat (dyn_batch handled load_val) \<le> unat load_val"
  using dyn_batch_bounds(3) [of load_val handled] assms
  by (simp add: word_le_nat_alt unat_sub)

lemma check_avail_cnts_Some:
  assumes "check_avail_cnts handled loads = Some (b, rest)"
  shows "\<exists>v\<in>set loads. v \<noteq> handled \<and> b = dyn_batch handled v"
  using assms by (induction handled loads rule: check_avail_cnts.induct) (auto split: if_splits)

lemma check_avail_cnts_progress:
  "v \<in> set loads \<Longrightarrow> v \<noteq> handled \<Longrightarrow> \<exists>b rest. check_avail_cnts handled loads = Some (b, rest)"
  by (induction handled loads rule: check_avail_cnts.induct) auto

lemma check_avail_batch:
  assumes "v \<in> set loads" and "v \<noteq> handled" and "\<forall>u\<in>set loads. handled \<le> u"
  shows "\<exists>b rest. check_avail_cnts handled loads = Some (b, rest) \<and> 1 \<le> unat b \<and> unat b \<le> 4 \<and>
    (\<exists>u\<in>set loads. unat handled + unat b \<le> unat u)"
proof -
  obtain b rest where b: "check_avail_cnts handled loads = Some (b, rest)"
    using check_avail_cnts_progress [OF assms(1,2)] by blast
  then obtain u where u: "u \<in> set loads" "u \<noteq> handled" "b = dyn_batch handled u"
    using check_avail_cnts_Some by blast
  then show ?thesis
    using b assms(3) dyn_batch_bounds [of u handled] dyn_batch_handled [of handled u] by auto
qed

lemma past_last_batch_iff:
  assumes "4 \<le> unat count"
  shows "past_last_batch idx count \<longleftrightarrow> unat count - 4 < unat idx"
proof -
  have "MAX_BATCH \<le> (ucast count :: u64)"
    using assms by (simp add: word_le_nat_alt const_simps)
  then have "unat ((ucast count :: u64) - MAX_BATCH) = unat count - 4"
    by (simp add: unat_sub const_simps)
  then show ?thesis by (simp add: past_last_batch_def word_less_nat_alt)
qed

lemma past_last_batch_small:
  assumes "unat count < 4"
  shows "\<not> past_last_batch idx count"
proof -
  have lt: "(ucast count :: u64) < MAX_BATCH"
    using assms by (simp add: word_less_nat_alt const_simps)
  have "unat idx < 2 ^ 32" using unat_lt_2p [of idx] by simp
  moreover have "2 ^ 32 \<le> unat ((ucast count :: u64) - MAX_BATCH)"
    using assms lt by (simp add: unat_sub_if' const_simps word_le_nat_alt)
  ultimately show ?thesis
    by (simp add: past_last_batch_def word_less_nat_alt)
qed

section \<open>The contract of a transaction type\<close>

text \<open>
  What the dispatcher and the stages rely on: records have one size and lie one after the other;
  preparing a record keeps the log well formed, keeps prepared records prepared and does not change
  what any record decodes to; a prepared record parses to its decoded behaviour.
\<close>

locale txn_contract =
  fixes T :: "('m, 'b) txn_type"
    and sz :: nat and base :: nat and n :: nat
    and wf :: "'m \<Rightarrow> bool"
    and prepared :: "nat \<Rightarrow> 'm \<Rightarrow> bool"
    and decode :: "nat \<Rightarrow> int \<Rightarrow> 'm \<Rightarrow> 'b"
  assumes prepare_law: "wf m \<Longrightarrow> k < n \<Longrightarrow>
      \<exists>m'. prepare_cowns T (base + sz * k) m = Inr (sz, m') \<and> wf m' \<and> prepared k m' \<and>
           (\<forall>j. prepared j m \<longrightarrow> prepared j m') \<and> (\<forall>j ts. decode j ts m' = decode j ts m)"
    and prefetch_law: "wf m \<Longrightarrow> k < n \<Longrightarrow> \<exists>as. prefetch_cowns T (base + sz * k) m = Inr (sz, as)"
    and parse_law: "wf m \<Longrightarrow> k < n \<Longrightarrow> prepared k m \<Longrightarrow>
      parse_and_process T (base + sz * k) ts m = Inr (sz, Some (decode k ts m))"
begin

lemma prepare_loop_ok:
  assumes "wf m" and "k + b \<le> n"
  shows "\<exists>m'. prepare_loop T b (base + sz * k, m) = Inr (base + sz * (k + b), m') \<and> wf m' \<and>
     (\<forall>j. k \<le> j \<and> j < k + b \<longrightarrow> prepared j m') \<and> (\<forall>j. prepared j m \<longrightarrow> prepared j m') \<and>
     (\<forall>j ts. decode j ts m' = decode j ts m)"
  using assms
proof (induction b)
  case 0
  then show ?case by (auto simp: prepare_loop_def)
next
  case (Suc b)
  then obtain m1 where m1:
      "prepare_loop T b (base + sz * k, m) = Inr (base + sz * (k + b), m1)" "wf m1"
      "\<forall>j. k \<le> j \<and> j < k + b \<longrightarrow> prepared j m1" "\<forall>j. prepared j m \<longrightarrow> prepared j m1"
      "\<forall>j ts. decode j ts m1 = decode j ts m"
    by auto
  from prepare_law [OF m1(2), of "k + b"] Suc.prems obtain m2 where m2:
      "prepare_cowns T (base + sz * (k + b)) m1 = Inr (sz, m2)" "wf m2" "prepared (k + b) m2"
      "\<forall>j. prepared j m1 \<longrightarrow> prepared j m2" "\<forall>j ts. decode j ts m2 = decode j ts m1"
    by auto
  have "prepare_loop T (Suc b) (base + sz * k, m) = Inr (base + sz * (k + Suc b), m2)"
    using m1(1) m2(1) by (simp add: prepare_loop_def rfold_append prepare_step_def algebra_simps)
  then show ?case
    using m1 m2 by (auto simp: less_Suc_eq)
qed

lemma prefetch_loop_ok:
  assumes "wf m" and "k + b \<le> n"
  shows "prefetch_loop T m b (base + sz * k) = Inr (base + sz * (k + b))"
  using assms
proof (induction b)
  case 0
  then show ?case by (simp add: prefetch_loop_def)
next
  case (Suc b)
  from prefetch_law [OF Suc.prems(1), of "k + b"] Suc.prems(2) obtain as where
    "prefetch_cowns T (base + sz * (k + b)) m = Inr (sz, as)" by auto
  then show ?case
    using Suc by (simp add: prefetch_loop_def rfold_append prefetch_step_def algebra_simps)
qed

lemma fd_dispatch_loop:
  assumes "wf m" and "k + b \<le> n" and "\<And>j. k \<le> j \<Longrightarrow> j < k + b \<Longrightarrow> prepared j m"
    and "fd_read_head d = base + sz * k" and "0 \<le> fd_txn_log_id d"
  shows "rfold (\<lambda>_. fd_dispatch_one T its m) [0..<b] (d, out) =
     Inr (d\<lparr>fd_txn_log_id := fd_txn_log_id d + int b, fd_read_head := base + sz * (k + b),
            fd_idx := fd_idx d + of_nat b, fd_tx_count := fd_tx_count d + of_nat b\<rparr>,
          out @ map (\<lambda>i. decode (k + i) (its (nat (fd_txn_log_id d) + i)) m) [0..<b])"
  using assms
proof (induction b)
  case 0
  then show ?case by simp
next
  case (Suc b)
  have "parse_and_process T (base + sz * (k + b)) ts m = Inr (sz, Some (decode (k + b) ts m))" for ts
    using Suc.prems by (intro parse_law) auto
  then show ?case
    using Suc by (simp add: rfold_append fd_dispatch_one_def nat_add_distrib algebra_simps)
qed

lemma dispatch_batch_ok:
  assumes "wf m" and "fd_ok sz base d" and "unat (fd_count d) = n" and "unat batch \<le> 4"
  defines "k \<equiv> wrap_pos n (unat (fd_idx d))"
  shows "\<exists>d' m'. dispatch_batch T its batch d m = Inr (d', m',
       map (\<lambda>i. decode (k + i) (its (nat (fd_txn_log_id d) + i)) m) [0..<unat batch]) \<and>
     wf m' \<and> fd_ok sz base d' \<and> fd_count d' = fd_count d \<and> unat (fd_idx d') = k + unat batch \<and>
     fd_txn_log_id d' = fd_txn_log_id d + int (unat batch) \<and>
     fd_handled_req_cnt d' = fd_handled_req_cnt d + batch \<and>
     (\<forall>j ts. decode j ts m' = decode j ts m)"
proof -
  let ?b = "unat batch" and ?w = "fd_wrap d"
  have n4: "4 \<le> n" using assms(2,3) by (simp add: fd_ok_def)
  have room: "k + ?b \<le> n" unfolding k_def using n4 assms(4) by (rule wrap_pos_room)
  have w: "unat (fd_idx ?w) = k" "fd_read_head ?w = base + sz * k"
      "fd_prepare_parse_read_head ?w = base + sz * k" "fd_prepare_proc_read_head ?w = base + sz * k"
      "fd_txn_log_id ?w = fd_txn_log_id d" "fd_count ?w = fd_count d" "fd_read_top ?w = base"
      "fd_handled_req_cnt ?w = fd_handled_req_cnt d"
    using assms(2,3) n4 by (auto simp: fd_wrap_def fd_ok_def k_def wrap_pos_def past_last_batch_iff)
  obtain m' where m': "prepare_loop T ?b (base + sz * k, m) = Inr (base + sz * (k + ?b), m')" "wf m'"
      "\<forall>j. k \<le> j \<and> j < k + ?b \<longrightarrow> prepared j m'" "\<forall>j ts. decode j ts m' = decode j ts m"
    using prepare_loop_ok [OF assms(1) room] by blast
  have idx: "unat (fd_idx ?w + of_nat ?b) = k + ?b"
    using w(1) room assms(3) unat_lt_2p [of "fd_count d"] unat_add_of_nat [of "fd_idx ?w" ?b]
    by linarith
  show ?thesis
    using w m' idx assms(2) room assms(3)
      fd_dispatch_loop [OF m'(2) room, where its = its and out = "[]" and
        d = "?w\<lparr>fd_look_ahead := batch, fd_prepare_proc_read_head := base + sz * (k + ?b),
               fd_prepare_parse_read_head := base + sz * (k + ?b)\<rparr>"]
      prefetch_loop_ok [OF m'(2) room]
    by (simp add: dispatch_batch_def Let_def fd_ok_def)
qed

text \<open>One pass of \<open>run\<close>: the spinning, the batch and the announcement.\<close>

lemma fd_announce_fields [simp]:
  "fd_ok s b (fst (fd_announce w now d)) = fd_ok s b d" "fd_idx (fst (fd_announce w now d)) = fd_idx d"
  "fd_txn_log_id (fst (fd_announce w now d)) = fd_txn_log_id d"
  by (simp_all add: fd_announce_def fd_ok_def Let_def)

lemma fd_run_iter_ok:
  assumes "wf m" and "fd_ok sz base d" and "unat (fd_count d) = n" and "fd_txn_log_id d < 1000000"
    and "v \<in> set loads" and "v \<noteq> fd_handled_req_cnt d" and "\<forall>u\<in>set loads. fd_handled_req_cnt d \<le> u"
  shows "\<exists>d' m' b ann. fd_run_iter T its w now loads d m = Inr (Some (d', m',
      map (\<lambda>i. decode (wrap_pos n (unat (fd_idx d)) + i) (its (nat (fd_txn_log_id d) + i)) m) [0..<b], ann)) \<and>
    1 \<le> b \<and> b \<le> 4 \<and> (\<exists>u\<in>set loads. unat (fd_handled_req_cnt d) + b \<le> unat u) \<and>
    wrap_pos n (unat (fd_idx d)) + b \<le> n \<and> unat (fd_idx d') = wrap_pos n (unat (fd_idx d)) + b \<and>
    wf m' \<and> fd_ok sz base d' \<and> fd_txn_log_id d' = fd_txn_log_id d + int b"
proof -
  obtain batch rest where b: "check_avail_cnts (fd_handled_req_cnt d) loads = Some (batch, rest)"
      "1 \<le> unat batch" "unat batch \<le> 4" "\<exists>u\<in>set loads. unat (fd_handled_req_cnt d) + unat batch \<le> unat u"
    using check_avail_batch [OF assms(5-7)] by blast
  define d1 where "d1 = d\<lparr>fd_counter_registered :=
     (if fd_counter_registered d then True else track_worker_counter (fd_worker_cnt d) w False)\<rparr>"
  define d2 where "d2 = d1\<lparr>fd_tx_spawn_sum := fd_tx_spawn_sum d1 + fd_look_ahead d1\<rparr>"
  have d2: "fd_ok sz base d2" "unat (fd_count d2) = n" "fd_idx d2 = fd_idx d" "fd_txn_log_id d2 = fd_txn_log_id d"
      "fd_handled_req_cnt d2 = fd_handled_req_cnt d"
    using assms(2,3) by (simp_all add: d1_def d2_def fd_ok_def)
  obtain d3 m' where d3: "dispatch_batch T its batch d2 m = Inr (d3, m',
       map (\<lambda>i. decode (wrap_pos n (unat (fd_idx d)) + i) (its (nat (fd_txn_log_id d) + i)) m) [0..<unat batch])"
     "wf m'" "fd_ok sz base d3" "unat (fd_idx d3) = wrap_pos n (unat (fd_idx d)) + unat batch"
     "fd_txn_log_id d3 = fd_txn_log_id d + int (unat batch)"
    using dispatch_batch_ok [OF assms(1) d2(1,2) b(3), of its] d2(3,4) by auto
  have n4: "4 \<le> n" using assms(2,3) by (simp add: fd_ok_def)
  obtain d4 ann where a: "fd_announce w now d3 = (d4, ann)" by fastforce
  have "fd_run_iter T its w now loads d m = Inr (Some (d4, m',
      map (\<lambda>i. decode (wrap_pos n (unat (fd_idx d)) + i) (its (nat (fd_txn_log_id d) + i)) m) [0..<unat batch], ann))"
    using assms(4) b(1) d3(1) d2(5) a unfolding fd_run_iter_def d1_def [symmetric] Let_def d2_def [symmetric]
    by (simp add: const_simps d1_def)
  then show ?thesis
    using b(2-4) d3 fd_announce_fields(1) [of sz base w now d3] fd_announce_fields(2,3) [of w now d3] a wrap_pos_room [OF n4 b(3)] by auto
qed

end

text \<open>The dispatcher never wraps around a log of fewer than four records.\<close>

lemma fd_wrap_short: "unat (fd_count d) < 4 \<Longrightarrow> fd_wrap d = d"
  using past_last_batch_small by (simp add: fd_wrap_def)

end
