(* ===== verification/Stages.thy ===== *)
theory Stages
  imports Dispatcher
begin

text \<open>
  The stages of the pipelined dispatcher of \<^verbatim>\<open>src/doradd/dispatcher.hpp\<close> and the request generator
  of \<^verbatim>\<open>src/doradd/rpc_handler.hpp\<close>, one iteration of each \<open>run\<close> loop at a time: \<open>RPCHandler\<close>
  announces requests, \<open>Indexer\<close> turns them into batches and writes cown addresses into the log,
  \<open>Prefetcher\<close> prefetches them, \<open>Spawner\<close> parses the records and spawns the transactions.  The
  builds modelled are the pipelined ones of the CMake file (\<open>CORE_PIPE\<close>, \<open>INDEXER\<close>) with
  \<open>RPC_LATENCY\<close>.
\<close>

section \<open>RPCHandler\<close>

record rpc_handler =
  rpc_next_ts :: int
  rpc_i :: nat

text \<open>
  One pass of the outer loop, for a reading \<open>t\<close> of \<open>time_ns()\<close>, a clock reading \<open>now\<close> and the next
  inter-arrival time \<open>gap\<close>: wait, stop after \<open>RPC_LOG_SIZE\<close> requests, or log the arrival time and
  announce one more request.  \<open>None\<close> is the \<open>break\<close>.
\<close>

definition rpc_iter :: "int \<Rightarrow> int \<Rightarrow> int \<Rightarrow> rpc_handler \<Rightarrow> (nat \<Rightarrow> int) \<Rightarrow> u64 \<Rightarrow>
    (rpc_handler \<times> (nat \<Rightarrow> int) \<times> u64) option" where
  "rpc_iter t now gap h tarr avail_cnt =
     (if t < rpc_next_ts h then Some (h, tarr, avail_cnt)
      else if int (rpc_i h) \<ge> int (unat RPC_LOG_SIZE) then None
      else Some (h\<lparr>rpc_next_ts := rpc_next_ts h + gap, rpc_i := Suc (rpc_i h)\<rparr>,
                 tarr(rpc_i h := now), avail_cnt + 1))"

section \<open>Indexer\<close>

text \<open>The fields of the object and the local variables of \<open>run\<close>; \<open>batch\<close> starts uninitialised.\<close>

record indexer =
  ix_read_count :: u32
  ix_read_top :: nat
  ix_handled_req_cnt :: u64
  ix_read_idx :: u32
  ix_read_head :: nat
  ix_batch :: int

definition new_indexer :: "mem \<Rightarrow> int \<Rightarrow> indexer result" where
  "new_indexer m batch0 = rbind (load_u32 0 m) (\<lambda>count.
     Inr \<lparr>ix_read_count = count, ix_read_top = 4, ix_handled_req_cnt = 0, ix_read_idx = 0,
          ix_read_head = 4, ix_batch = batch0\<rparr>)"

text \<open>
  \<open>read_idx > (read_count - batch)\<close>: an unsigned 32-bit comparison, and \<open>batch\<close> is the size of the
  previous batch.
\<close>

definition ix_wrap :: "indexer \<Rightarrow> indexer" where
  "ix_wrap x = (if ix_read_idx x > ix_read_count x - word_of_int (ix_batch x)
     then x\<lparr>ix_read_head := ix_read_top x, ix_read_idx := 0\<rparr> else x)"

definition ix_prepare_step ::
  "('m, 'b) txn_type \<Rightarrow> indexer \<times> 'm \<Rightarrow> (indexer \<times> 'm) result" where
  "ix_prepare_step T xm = (case xm of (x, m) \<Rightarrow>
     rbind (prepare_cowns T (ix_read_head x) m) (\<lambda>(ret, m').
       Inr (x\<lparr>ix_read_head := ix_read_head x + ret, ix_read_idx := ix_read_idx x + 1\<rparr>, m')))"

text \<open>
  One pass of the loop up to \<open>ring->push(batch)\<close>, for one value of the request counter: the new
  state and the batch to push, or no batch when the pass only spun.
\<close>

definition indexer_iter ::
  "('m, 'b) txn_type \<Rightarrow> u64 \<Rightarrow> indexer \<Rightarrow> 'm \<Rightarrow> (indexer \<times> 'm \<times> int option) result" where
  "indexer_iter T load_val x0 m =
     (let x = ix_wrap x0 in
      if load_val - ix_handled_req_cnt x = 0 then Inr (x, m, None)
      else let b = dyn_batch (ix_handled_req_cnt x) load_val in
           rbind (rfold (\<lambda>_. ix_prepare_step T) [0..<unat b]
                    (x\<lparr>ix_handled_req_cnt := ix_handled_req_cnt x + b, ix_batch := uint b\<rparr>, m))
             (\<lambda>(x', m'). Inr (x', m', Some (uint b))))"

section \<open>Prefetcher\<close>

record prefetcher =
  pf_read_top :: nat
  pf_read_count :: u32
  pf_idx :: u32
  pf_read_head :: nat

definition new_prefetcher :: "mem \<Rightarrow> prefetcher result" where
  "new_prefetcher m = rbind (load_u32 0 m) (\<lambda>count.
     Inr \<lparr>pf_read_top = 4, pf_read_count = count, pf_idx = 0, pf_read_head = 4\<rparr>)"

definition pf_wrap :: "prefetcher \<Rightarrow> prefetcher" where
  "pf_wrap p = (if past_last_batch (pf_idx p) (pf_read_count p)
     then p\<lparr>pf_read_head := pf_read_top p, pf_idx := 0\<rparr> else p)"

definition pf_prefetch_step :: "('m, 'b) txn_type \<Rightarrow> 'm \<Rightarrow> prefetcher \<Rightarrow> prefetcher result" where
  "pf_prefetch_step T m p = rbind (prefetch_cowns T (pf_read_head p) m) (\<lambda>(ret, as).
     Inr (p\<lparr>pf_read_head := pf_read_head p + ret, pf_idx := pf_idx p + 1\<rparr>))"

text \<open>One pass for the batch at the front of the indexer's ring; the same value is pushed on.\<close>

definition prefetcher_iter ::
  "('m, 'b) txn_type \<Rightarrow> int \<Rightarrow> prefetcher \<Rightarrow> 'm \<Rightarrow> prefetcher result" where
  "prefetcher_iter T front p m =
     rfold (\<lambda>_. pf_prefetch_step T m) [0..<unat (word_of_int front :: u64)] (pf_wrap p)"

section \<open>Spawner\<close>

text \<open>
  The constructor leaves \<open>counter_registered\<close> and \<open>tx_exec_sum\<close> uninitialised; their first values
  are arguments.
\<close>

record spawner =
  sp_worker_cnt :: u8
  sp_counter_registered :: bool
  sp_rnd :: u16
  sp_read_count :: u32
  sp_read_top :: nat
  sp_read_head :: nat
  sp_prepare_read_head :: nat
  sp_tx_exec_sum :: u64
  sp_last_tx_exec_sum :: u64
  sp_tx_spawn_sum :: u64
  sp_txn_log_id :: u64
  sp_last_print :: int
  sp_idx :: u32
  sp_tx_count :: u64

definition new_spawner :: "mem \<Rightarrow> u8 \<Rightarrow> bool \<Rightarrow> u64 \<Rightarrow> int \<Rightarrow> spawner result" where
  "new_spawner m worker_cnt registered0 exec_sum0 last_print0 = rbind (load_u32 0 m) (\<lambda>count.
     Inr \<lparr>sp_worker_cnt = worker_cnt, sp_counter_registered = registered0, sp_rnd = 1,
          sp_read_count = count, sp_read_top = 4, sp_read_head = 4, sp_prepare_read_head = 4,
          sp_tx_exec_sum = exec_sum0, sp_last_tx_exec_sum = 0, sp_tx_spawn_sum = 0,
          sp_txn_log_id = 0, sp_last_print = last_print0, sp_idx = 0, sp_tx_count = 0\<rparr>)"

definition sp_wrap :: "spawner \<Rightarrow> spawner" where
  "sp_wrap s = (if past_last_batch (sp_idx s) (sp_read_count s)
     then s\<lparr>sp_read_head := sp_read_top s, sp_prepare_read_head := sp_read_top s, sp_idx := 0\<rparr>
     else s)"

definition sp_dispatch_one ::
  "('m, 'b) txn_type \<Rightarrow> (nat \<Rightarrow> int) \<Rightarrow> 'm \<Rightarrow> spawner \<times> 'b list \<Rightarrow> (spawner \<times> 'b list) result" where
  "sp_dispatch_one T init_times m sout = (case sout of (s, out) \<Rightarrow>
     rbind (parse_and_process T (sp_read_head s) (init_times (unat (sp_txn_log_id s))) m) (\<lambda>(ret, b).
       Inr (s\<lparr>sp_txn_log_id := sp_txn_log_id s + 1, sp_read_head := sp_read_head s + ret,
              sp_idx := sp_idx s + 1, sp_tx_count := sp_tx_count s + 1,
              sp_tx_spawn_sum := sp_tx_spawn_sum s + 1\<rparr>,
            out @ (case b of Some x \<Rightarrow> [x] | None \<Rightarrow> []))))"

definition sp_announce :: "'t counters \<Rightarrow> int \<Rightarrow> spawner \<Rightarrow> spawner \<times> (u64 \<times> u64) list" where
  "sp_announce w now s =
     (if sp_tx_count s \<ge> ANNOUNCE_THROUGHPUT_BATCH_SIZE
      then let exec = (if sp_counter_registered s then calc_tx_exec_sum w else sp_tx_exec_sum s) in
           (s\<lparr>sp_tx_exec_sum := exec, sp_tx_count := 0, sp_last_tx_exec_sum := exec,
              sp_last_print := now\<rparr>,
            [(sp_tx_count s, exec - sp_last_tx_exec_sum s)])
      else (s, []))"

text \<open>The part of a pass before the loops: the start of the clock, the worker check, the wrap-around.\<close>

definition sp_enter :: "'t counters \<Rightarrow> int \<Rightarrow> spawner \<Rightarrow> spawner" where
  "sp_enter w now s0 =
     (let s1 = (if sp_txn_log_id s0 = 0 then s0\<lparr>sp_last_print := now\<rparr> else s0) in
      sp_wrap (s1\<lparr>sp_counter_registered :=
                    (if sp_counter_registered s1 then True
                     else track_worker_counter (sp_worker_cnt s1) w False)\<rparr>))"

text \<open>
  One pass of \<open>run\<close> for the batch at the front of the prefetcher's ring, up to \<open>ring->pop()\<close> and the
  announcement.  \<open>None\<close> is the \<open>break\<close> on \<open>txn_log_id > RPC_LOG_SIZE\<close>.
\<close>

definition spawner_iter ::
  "('m, 'b) txn_type \<Rightarrow> (nat \<Rightarrow> int) \<Rightarrow> 't counters \<Rightarrow> int \<Rightarrow> int \<Rightarrow> spawner \<Rightarrow> 'm \<Rightarrow>
     (spawner \<times> 'b list \<times> (u64 \<times> u64) list) option result" where
  "spawner_iter T init_times w now front s0 m =
     (if sp_txn_log_id s0 > RPC_LOG_SIZE then Inr None
      else let b = unat (word_of_int front :: u64); s1 = sp_enter w now s0 in
           rbind (prefetch_loop T m b (sp_prepare_read_head s1)) (\<lambda>h.
           rbind (rfold (\<lambda>_. sp_dispatch_one T init_times m) [0..<b]
                    (s1\<lparr>sp_prepare_read_head := h\<rparr>, []))
             (\<lambda>(s2, out). case sp_announce w now s2 of (s3, ann) \<Rightarrow> Inr (Some (s3, out, ann)))))"

section \<open>Each stage keeps its heads on its record index\<close>

definition ix_ok :: "nat \<Rightarrow> nat \<Rightarrow> indexer \<Rightarrow> bool" where
  "ix_ok sz base x \<longleftrightarrow> ix_read_top x = base \<and> ix_read_head x = base + sz * unat (ix_read_idx x)"

definition pf_ok :: "nat \<Rightarrow> nat \<Rightarrow> prefetcher \<Rightarrow> bool" where
  "pf_ok sz base p \<longleftrightarrow> 4 \<le> unat (pf_read_count p) \<and> unat (pf_idx p) \<le> unat (pf_read_count p) \<and>
     pf_read_top p = base \<and> pf_read_head p = base + sz * unat (pf_idx p)"

definition sp_ok :: "nat \<Rightarrow> nat \<Rightarrow> spawner \<Rightarrow> bool" where
  "sp_ok sz base s \<longleftrightarrow> 4 \<le> unat (sp_read_count s) \<and> unat (sp_idx s) \<le> unat (sp_read_count s) \<and>
     sp_read_top s = base \<and> sp_read_head s = base + sz * unat (sp_idx s) \<and>
     sp_prepare_read_head s = base + sz * unat (sp_idx s)"

lemma batch_of_int: "0 \<le> b \<Longrightarrow> b < 2 ^ 64 \<Longrightarrow> unat (word_of_int b :: u64) = nat b"
  by (simp add: unsigned_of_int take_bit_int_eq_self)

context txn_contract
begin

lemma ix_prepare_loop:
  assumes "wf m" and "unat (ix_read_idx x) + b \<le> n" and "n < 2 ^ 32" and "ix_ok sz base x"
  defines "k \<equiv> unat (ix_read_idx x)"
  shows "\<exists>m'. rfold (\<lambda>_. ix_prepare_step T) [0..<b] (x, m) =
       Inr (x\<lparr>ix_read_head := base + sz * (k + b), ix_read_idx := ix_read_idx x + of_nat b\<rparr>, m') \<and>
     wf m' \<and> (\<forall>j. k \<le> j \<and> j < k + b \<longrightarrow> prepared j m') \<and> (\<forall>j. prepared j m \<longrightarrow> prepared j m') \<and>
     (\<forall>j ts. decode j ts m' = decode j ts m)"
  using assms(1-4)
proof (induction b)
  case 0
  then show ?case by (auto simp: ix_ok_def k_def)
next
  case (Suc b)
  then obtain m1 where m1: "rfold (\<lambda>_. ix_prepare_step T) [0..<b] (x, m) =
       Inr (x\<lparr>ix_read_head := base + sz * (k + b), ix_read_idx := ix_read_idx x + of_nat b\<rparr>, m1)"
      "wf m1" "\<forall>j. k \<le> j \<and> j < k + b \<longrightarrow> prepared j m1" "\<forall>j. prepared j m \<longrightarrow> prepared j m1"
      "\<forall>j ts. decode j ts m1 = decode j ts m"
    by auto
  from prepare_law [OF m1(2), of "k + b"] Suc.prems obtain m2 where m2:
      "prepare_cowns T (base + sz * (k + b)) m1 = Inr (sz, m2)" "wf m2" "prepared (k + b) m2"
      "\<forall>j. prepared j m1 \<longrightarrow> prepared j m2" "\<forall>j ts. decode j ts m2 = decode j ts m1"
    by (auto simp: k_def)
  have "rfold (\<lambda>_. ix_prepare_step T) [0..<Suc b] (x, m) = Inr (x\<lparr>ix_read_head :=
      base + sz * (k + Suc b), ix_read_idx := ix_read_idx x + of_nat (Suc b)\<rparr>, m2)"
    using m1(1) m2(1) by (simp add: rfold_append ix_prepare_step_def algebra_simps)
  then show ?case using m1 m2 by (auto simp: less_Suc_eq)
qed

lemma pf_prefetch_loop:
  assumes "wf m" and "k + b \<le> n" and "pf_read_head p = base + sz * k"
  shows "rfold (\<lambda>_. pf_prefetch_step T m) [0..<b] p =
     Inr (p\<lparr>pf_read_head := base + sz * (k + b), pf_idx := pf_idx p + of_nat b\<rparr>)"
  using assms
proof (induction b)
  case 0
  then show ?case by simp
next
  case (Suc b)
  from prefetch_law [OF Suc.prems(1), of "k + b"] Suc.prems(2) obtain as where
    "prefetch_cowns T (base + sz * (k + b)) m = Inr (sz, as)" by auto
  then show ?case
    using Suc by (simp add: rfold_append pf_prefetch_step_def algebra_simps)
qed

lemma prefetcher_iter_ok:
  assumes "wf m" and "pf_ok sz base p" and "unat (pf_read_count p) = n" and "0 \<le> front" and "front \<le> 4"
  defines "k \<equiv> wrap_pos n (unat (pf_idx p))"
  shows "\<exists>p'. prefetcher_iter T front p m = Inr p' \<and> pf_ok sz base p' \<and>
     pf_read_count p' = pf_read_count p \<and> unat (pf_idx p') = k + nat front"
proof -
  have n4: "4 \<le> n" using assms(2,3) by (simp add: pf_ok_def)
  have room: "k + nat front \<le> n" unfolding k_def using n4 assms(4,5) by (intro wrap_pos_room) auto
  have w: "unat (pf_idx (pf_wrap p)) = k" "pf_read_head (pf_wrap p) = base + sz * k"
      "pf_read_count (pf_wrap p) = pf_read_count p" "pf_read_top (pf_wrap p) = base"
    using assms(2,3) n4 by (auto simp: pf_wrap_def pf_ok_def k_def wrap_pos_def past_last_batch_iff)
  have "unat (pf_idx (pf_wrap p) + of_nat (nat front)) = k + nat front"
    using w(1) room assms(3) unat_lt_2p [of "pf_read_count p"]
      unat_add_of_nat [of "pf_idx (pf_wrap p)" "nat front"] by linarith
  then show ?thesis
    using pf_prefetch_loop [OF assms(1) room w(2)] w n4 assms(3-5) room
    by (simp add: prefetcher_iter_def batch_of_int pf_ok_def)
qed

lemma sp_dispatch_loop:
  assumes "wf m" and "k + b \<le> n" and "\<And>j. k \<le> j \<Longrightarrow> j < k + b \<Longrightarrow> prepared j m"
    and "sp_read_head s = base + sz * k" and "unat (sp_txn_log_id s) + b < 2 ^ 64"
  shows "rfold (\<lambda>_. sp_dispatch_one T its m) [0..<b] (s, out) =
     Inr (s\<lparr>sp_txn_log_id := sp_txn_log_id s + of_nat b, sp_read_head := base + sz * (k + b),
            sp_idx := sp_idx s + of_nat b, sp_tx_count := sp_tx_count s + of_nat b,
            sp_tx_spawn_sum := sp_tx_spawn_sum s + of_nat b\<rparr>,
          out @ map (\<lambda>i. decode (k + i) (its (unat (sp_txn_log_id s) + i)) m) [0..<b])"
  using assms
proof (induction b)
  case 0
  then show ?case by simp
next
  case (Suc b)
  have "parse_and_process T (base + sz * (k + b)) ts m = Inr (sz, Some (decode (k + b) ts m))" for ts
    using Suc.prems by (intro parse_law) auto
  moreover have "unat (sp_txn_log_id s + of_nat b) = unat (sp_txn_log_id s) + b"
    using Suc.prems(5) unat_add_of_nat [of "sp_txn_log_id s" b] by simp
  ultimately show ?case
    using Suc by (simp add: rfold_append sp_dispatch_one_def algebra_simps)
qed

lemma sp_announce_fields [simp]:
  "sp_txn_log_id (fst (sp_announce w now s)) = sp_txn_log_id s"
  "sp_idx (fst (sp_announce w now s)) = sp_idx s"
  "sp_read_count (fst (sp_announce w now s)) = sp_read_count s"
  "sp_tx_spawn_sum (fst (sp_announce w now s)) = sp_tx_spawn_sum s"
  "sp_ok sz base (fst (sp_announce w now s)) = sp_ok sz base s"
  by (simp_all add: sp_announce_def Let_def sp_ok_def)

lemma spawner_iter_ok:
  assumes "wf m" and "sp_ok sz base s" and "unat (sp_read_count s) = n" and "0 \<le> front" and "front \<le> 4"
    and "unat (sp_txn_log_id s) \<le> unat RPC_LOG_SIZE"
  defines "k \<equiv> wrap_pos n (unat (sp_idx s))"
  assumes "\<And>j. k \<le> j \<Longrightarrow> j < k + nat front \<Longrightarrow> prepared j m"
  shows "\<exists>s' ann. spawner_iter T its w now front s m = Inr (Some (s',
       map (\<lambda>i. decode (k + i) (its (unat (sp_txn_log_id s) + i)) m) [0..<nat front], ann)) \<and>
     sp_ok sz base s' \<and> sp_read_count s' = sp_read_count s \<and> unat (sp_idx s') = k + nat front \<and>
     unat (sp_txn_log_id s') = unat (sp_txn_log_id s) + nat front"
proof -
  let ?b = "nat front"
  have n4: "4 \<le> n" using assms(2,3) by (simp add: sp_ok_def)
  have room: "k + ?b \<le> n" unfolding k_def using n4 assms(4,5) by (intro wrap_pos_room) auto
  define s3 where "s3 = sp_enter w now s"
  have s3: "unat (sp_idx s3) = k" "sp_read_head s3 = base + sz * k"
      "sp_prepare_read_head s3 = base + sz * k" "sp_txn_log_id s3 = sp_txn_log_id s"
      "sp_read_count s3 = sp_read_count s" "sp_read_top s3 = base"
    using assms(2,3) n4
    by (auto simp: s3_def sp_enter_def Let_def sp_wrap_def sp_ok_def k_def wrap_pos_def past_last_batch_iff)
  define s4 where "s4 = s3\<lparr>sp_prepare_read_head := base + sz * (k + ?b),
      sp_txn_log_id := sp_txn_log_id s + of_nat ?b, sp_read_head := base + sz * (k + ?b),
      sp_idx := sp_idx s3 + of_nat ?b, sp_tx_count := sp_tx_count s3 + of_nat ?b,
      sp_tx_spawn_sum := sp_tx_spawn_sum s3 + of_nat ?b\<rparr>"
  have id: "unat (sp_txn_log_id s) + ?b < 2 ^ 64"
    using assms(4-6) by (simp add: const_simps)
  have u4: "unat (sp_txn_log_id s4) = unat (sp_txn_log_id s) + ?b" "unat (sp_idx s4) = k + ?b"
    using id unat_add_of_nat [of "sp_txn_log_id s" ?b] s3(1) room assms(3)
      unat_lt_2p [of "sp_read_count s"] unat_add_of_nat [of "sp_idx s3" ?b]
    by (simp_all add: s4_def)
  have iter: "spawner_iter T its w now front s m = (case sp_announce w now s4 of (s5, ann) \<Rightarrow>
      Inr (Some (s5, map (\<lambda>i. decode (k + i) (its (unat (sp_txn_log_id s) + i)) m) [0..<?b], ann)))"
    using sp_dispatch_loop [OF assms(1) room assms(8), of "s3\<lparr>sp_prepare_read_head := base + sz * (k + ?b)\<rparr>"
        its "[]"] prefetch_loop_ok [OF assms(1) room] s3 assms(4-6) id
    by (simp add: spawner_iter_def Let_def batch_of_int s4_def word_less_nat_alt flip: s3_def)
  obtain s5 ann where ann: "sp_announce w now s4 = (s5, ann)" by fastforce
  then have "s5 = fst (sp_announce w now s4)" by simp
  then have "sp_ok sz base s5 = sp_ok sz base s4" "sp_read_count s5 = sp_read_count s"
      "sp_idx s5 = sp_idx s4" "sp_txn_log_id s5 = sp_txn_log_id s4"
    using s3(5) by (simp_all add: s4_def)
  moreover have "sp_ok sz base s4"
    using u4 room assms(3) n4 s3 by (simp add: sp_ok_def s4_def)
  ultimately show ?thesis using iter ann u4 by simp
qed

end

end
