(* ===== verification/Pipeline.thy ===== *)
theory Pipeline
  imports Stages Row_Tables
begin

text \<open>
  The running pipeline that \<open>build_pipelines\<close> of \<^verbatim>\<open>src/doradd/pipeline.hpp\<close> starts: one thread per
  stage, two bounded rings between them, a shared log and a shared request counter.  A step is one
  pass of one stage's loop, or one blocking \<open>push\<close> that succeeds, in any interleaving.  Memory is
  sequentially consistent: the relaxed atomics of the code are loads and increments of one shared
  value.  The rings are \<open>rigtorp::SPSCQueue<int>\<close> from a submodule, so their operations are an
  argument, with the documented first-in first-out behaviour as the hypothesis \<open>spsc_ok\<close>, which
  also says that an empty ring accepts an element.
\<close>

section \<open>The rings\<close>

text \<open>\<open>q_push\<close> gives \<open>None\<close> while the ring is full, that is, while \<open>push\<close> blocks.\<close>

record 'q spsc =
  q_push :: "int \<Rightarrow> 'q \<Rightarrow> 'q option"
  q_front :: "'q \<Rightarrow> int option"
  q_pop :: "'q \<Rightarrow> 'q"

definition spsc_ok :: "'q spsc \<Rightarrow> ('q \<Rightarrow> int list) \<Rightarrow> bool" where
  "spsc_ok Q items \<longleftrightarrow>
     (\<forall>q. q_front Q q = (case items q of [] \<Rightarrow> None | x # xs \<Rightarrow> Some x)) \<and>
     (\<forall>x q q'. q_push Q x q = Some q' \<longrightarrow> items q' = items q @ [x]) \<and>
     (\<forall>x q. q_push Q x q = None \<longrightarrow> items q \<noteq> []) \<and>
     (\<forall>q. items q \<noteq> [] \<longrightarrow> items (q_pop Q q) = tl (items q))"

lemma spsc_frontD: "spsc_ok Q items \<Longrightarrow> q_front Q q = Some b \<Longrightarrow> \<exists>xs. items q = b # xs"
  by (auto simp: spsc_ok_def split: list.splits)

lemma spsc_pushD: "spsc_ok Q items \<Longrightarrow> q_push Q b q = Some q' \<Longrightarrow> items q' = items q @ [b]"
  by (simp add: spsc_ok_def)

lemma spsc_emptyD: "spsc_ok Q items \<Longrightarrow> items q = [] \<Longrightarrow> \<exists>q'. q_push Q b q = Some q'"
  by (cases "q_push Q b q") (auto simp: spsc_ok_def)

lemma spsc_popD: "spsc_ok Q items \<Longrightarrow> items q = b # xs \<Longrightarrow> items (q_pop Q q) = xs"
  by (simp add: spsc_ok_def)

section \<open>States and steps\<close>

text \<open>
  \<open>p_ix_push\<close> and \<open>p_pf_push\<close> hold the batch of a stage that stands before its blocking \<open>push\<close>;
  \<open>p_times\<close> is the array of arrival times; \<open>p_spawned\<close> lists the behaviours spawned so far.
\<close>

record ('q, 'm, 'b) pipeline =
  p_mem :: 'm
  p_req_cnt :: u64
  p_times :: "nat \<Rightarrow> int"
  p_rpc :: rpc_handler
  p_ix :: indexer
  p_ix_push :: "int option"
  p_ring_idx_pref :: 'q
  p_pf :: prefetcher
  p_pf_push :: "int option"
  p_ring_pref_disp :: 'q
  p_sp :: spawner
  p_spawned :: "'b list"

definition pipe_init ::
  "'m \<Rightarrow> indexer \<Rightarrow> prefetcher \<Rightarrow> spawner \<Rightarrow> 'q \<Rightarrow> 'q \<Rightarrow> int \<Rightarrow> ('q, 'm, 'b) pipeline" where
  "pipe_init m x p s q1 q2 start =
     \<lparr>p_mem = m, p_req_cnt = 0, p_times = (\<lambda>_. 0), p_rpc = \<lparr>rpc_next_ts = start, rpc_i = 0\<rparr>,
      p_ix = x, p_ix_push = None, p_ring_idx_pref = q1, p_pf = p, p_pf_push = None,
      p_ring_pref_disp = q2, p_sp = s, p_spawned = []\<rparr>"

inductive pipe_step ::
  "'q spsc \<Rightarrow> ('m, 'b) txn_type \<Rightarrow> ('q, 'm, 'b) pipeline \<Rightarrow> ('q, 'm, 'b) pipeline \<Rightarrow> bool"
  for Q :: "'q spsc" and T :: "('m, 'b) txn_type" where
  step_rpc: "rpc_iter t now gap (p_rpc s) (p_times s) (p_req_cnt s) = Some (h, tarr, cnt) \<Longrightarrow>
    pipe_step Q T s (s\<lparr>p_rpc := h, p_times := tarr, p_req_cnt := cnt\<rparr>)"
| step_index: "p_ix_push s = None \<Longrightarrow>
    indexer_iter T (p_req_cnt s) (p_ix s) (p_mem s) = Inr (x, m, b) \<Longrightarrow>
    pipe_step Q T s (s\<lparr>p_ix := x, p_mem := m, p_ix_push := b\<rparr>)"
| step_index_push: "p_ix_push s = Some b \<Longrightarrow> q_push Q b (p_ring_idx_pref s) = Some q \<Longrightarrow>
    pipe_step Q T s (s\<lparr>p_ring_idx_pref := q, p_ix_push := None\<rparr>)"
| step_prefetch: "p_pf_push s = None \<Longrightarrow> q_front Q (p_ring_idx_pref s) = Some b \<Longrightarrow>
    prefetcher_iter T b (p_pf s) (p_mem s) = Inr p \<Longrightarrow>
    pipe_step Q T s (s\<lparr>p_pf := p, p_pf_push := Some b\<rparr>)"
| step_prefetch_push: "p_pf_push s = Some b \<Longrightarrow> q_push Q b (p_ring_pref_disp s) = Some q \<Longrightarrow>
    pipe_step Q T s (s\<lparr>p_ring_pref_disp := q, p_pf_push := None,
                       p_ring_idx_pref := q_pop Q (p_ring_idx_pref s)\<rparr>)"
| step_spawn: "q_front Q (p_ring_pref_disp s) = Some b \<Longrightarrow>
    spawner_iter T (p_times s) (w :: nat counters) now b (p_sp s) (p_mem s) = Inr (Some (sp, out, ann)) \<Longrightarrow>
    pipe_step Q T s (s\<lparr>p_sp := sp, p_spawned := p_spawned s @ out,
                       p_ring_pref_disp := q_pop Q (p_ring_pref_disp s)\<rparr>)"

inductive pipe_reachable ::
  "'q spsc \<Rightarrow> ('m, 'b) txn_type \<Rightarrow> ('q, 'm, 'b) pipeline \<Rightarrow> ('q, 'm, 'b) pipeline \<Rightarrow> bool"
  for Q :: "'q spsc" and T :: "('m, 'b) txn_type" and s0 :: "('q, 'm, 'b) pipeline" where
  reach_init: "pipe_reachable Q T s0 s0"
| reach_step: "pipe_reachable Q T s0 s \<Longrightarrow> pipe_step Q T s t \<Longrightarrow> pipe_reachable Q T s0 t"

text \<open>A stage about to make an access outside the log or to use an empty \<open>cown_ptr\<close>.\<close>

definition pipe_fault :: "'q spsc \<Rightarrow> ('m, 'b) txn_type \<Rightarrow> ('q, 'm, 'b) pipeline \<Rightarrow> bool" where
  "pipe_fault Q T s \<longleftrightarrow>
     (p_ix_push s = None \<and> \<not> is_ok (indexer_iter T (p_req_cnt s) (p_ix s) (p_mem s))) \<or>
     (p_pf_push s = None \<and> (\<exists>b. q_front Q (p_ring_idx_pref s) = Some b \<and>
        \<not> is_ok (prefetcher_iter T b (p_pf s) (p_mem s)))) \<or>
     (\<exists>b w now. q_front Q (p_ring_pref_disp s) = Some b \<and>
        \<not> is_ok (spawner_iter T (p_times s) (w :: nat counters) now b (p_sp s) (p_mem s)))"

lemma rpc_iter_cases:
  assumes "rpc_iter t now gap h tarr c = Some (h', tarr', c')"
  obtains (wait) "h' = h" "tarr' = tarr" "c' = c"
  | (arrive) "rpc_i h < 1000000" "rpc_i h' = Suc (rpc_i h)" "tarr' = tarr(rpc_i h := now)" "c' = c + 1"
proof (cases "t < rpc_next_ts h")
  case True
  with assms have "h' = h" "tarr' = tarr" "c' = c" by (simp_all add: rpc_iter_def)
  then show ?thesis by (rule wait)
next
  case False
  with assms have *: "\<not> int (rpc_i h) \<ge> int (unat RPC_LOG_SIZE)"
    by (cases "int (rpc_i h) \<ge> int (unat RPC_LOG_SIZE)") (simp_all add: rpc_iter_def)
  then have "rpc_i h < 1000000" by (simp add: const_simps)
  moreover have "h' = h\<lparr>rpc_next_ts := rpc_next_ts h + gap, rpc_i := Suc (rpc_i h)\<rparr>"
      "tarr' = tarr(rpc_i h := now)" "c' = c + 1"
    using assms False * by (simp_all add: rpc_iter_def)
  ultimately show ?thesis using arrive by simp
qed

lemma pipe_reachable_trans:
  "pipe_reachable Q T t u \<Longrightarrow> pipe_reachable Q T s t \<Longrightarrow> pipe_reachable Q T s u"
  by (induction rule: pipe_reachable.induct) (auto intro: reach_step)

text \<open>The request generator can announce any number of requests up to \<open>RPC_LOG_SIZE\<close>.\<close>

lemma pipe_announce:
  assumes "rpc_i (p_rpc s0) = 0" and "k \<le> 1000000"
  shows "\<exists>s. pipe_reachable Q T s0 s \<and> rpc_i (p_rpc s) = k"
  using assms(2)
proof (induction k)
  case 0
  then show ?case using assms(1) reach_init by blast
next
  case (Suc k)
  then obtain s where s: "pipe_reachable Q T s0 s" "rpc_i (p_rpc s) = k" by auto
  have "rpc_iter (rpc_next_ts (p_rpc s)) 0 0 (p_rpc s) (p_times s) (p_req_cnt s) =
      Some ((p_rpc s)\<lparr>rpc_i := Suc k\<rparr>, (p_times s)(k := 0), p_req_cnt s + 1)"
    using s(2) Suc.prems by (simp add: rpc_iter_def const_simps)
  from reach_step [OF s(1) step_rpc [OF this]] show ?case by fastforce
qed

lemma pipe_step_rpc_mono: "pipe_step Q T s t \<Longrightarrow> rpc_i (p_rpc s) \<le> rpc_i (p_rpc t)"
  by (induction rule: pipe_step.induct) (auto elim!: rpc_iter_cases)

lemma pipe_reachable_rpc_limit:
  assumes "pipe_reachable Q T s0 s" and "rpc_i (p_rpc s0) = 0"
  shows "rpc_i (p_rpc s) \<le> 1000000"
  using assms
proof (induction rule: pipe_reachable.induct)
  case (reach_step s t)
  then have "rpc_i (p_rpc s) \<le> 1000000" by simp
  with reach_step.hyps(2) show ?case
    by (cases rule: pipe_step.cases) (auto elim: rpc_iter_cases)
qed simp

section \<open>The invariant\<close>

text \<open>
  \<open>pend\<close>: the batches on their way from the indexer to the spawner, oldest first.
  \<open>wrapped_at n V S idx\<close>: a cursor over \<open>n\<close> records that has advanced \<open>S\<close> records in all stands at
  record \<open>idx\<close>: it has wrapped around at most once, at \<open>V\<close>, within the last batch of the log.
\<close>

definition pend :: "('q \<Rightarrow> int list) \<Rightarrow> ('q, 'm, 'b) pipeline \<Rightarrow> int list" where
  "pend items s = items (p_ring_pref_disp s) @ items (p_ring_idx_pref s) @
     (case p_ix_push s of None \<Rightarrow> [] | Some b \<Rightarrow> [b])"

definition wrapped_at :: "nat \<Rightarrow> nat \<Rightarrow> nat \<Rightarrow> nat \<Rightarrow> bool" where
  "wrapped_at n V S idx \<longleftrightarrow> n - 4 < V \<and> (S \<le> V \<and> idx = S \<or> V \<le> S \<and> V + idx = S)"

text \<open>The record that the \<open>j\<close>-th spawned transaction comes from.\<close>

definition record_of :: "nat \<Rightarrow> nat \<Rightarrow> nat" where
  "record_of V j = (if j < V then j else j - V)"

definition pipe_shape :: "nat \<Rightarrow> nat \<Rightarrow> nat \<Rightarrow> ('q \<Rightarrow> int list) \<Rightarrow> ('q, 'm, 'b) pipeline \<Rightarrow> bool" where
  "pipe_shape sz base n items s \<longleftrightarrow>
     ix_ok sz base (p_ix s) \<and> unat (ix_read_count (p_ix s)) = n \<and>
     pf_ok sz base (p_pf s) \<and> unat (pf_read_count (p_pf s)) = n \<and>
     sp_ok sz base (p_sp s) \<and> unat (sp_read_count (p_sp s)) = n \<and>
     unat (p_req_cnt s) = rpc_i (p_rpc s) \<and> rpc_i (p_rpc s) \<le> 1000000 \<and>
     unat (ix_handled_req_cnt (p_ix s)) \<le> rpc_i (p_rpc s) \<and>
     (\<forall>b\<in>set (pend items s). 1 \<le> b \<and> b \<le> 4) \<and>
     unat (sp_txn_log_id (p_sp s)) + sum_list (map nat (pend items s)) =
       unat (ix_handled_req_cnt (p_ix s)) \<and>
     (\<forall>b. p_pf_push s = Some b \<longrightarrow> (\<exists>xs. items (p_ring_idx_pref s) = b # xs)) \<and>
     (0 < unat (ix_handled_req_cnt (p_ix s)) \<longrightarrow> 1 \<le> ix_batch (p_ix s) \<and> ix_batch (p_ix s) \<le> 4)"

text \<open>The end of a batch: \<open>W\<close> is a sum of the sizes of the first few pending batches, or is passed.\<close>

definition boundary :: "nat \<Rightarrow> int list \<Rightarrow> nat \<Rightarrow> bool" where
  "boundary S bs W \<longleftrightarrow> W \<le> S \<or> (\<exists>xs ys. bs = xs @ ys \<and> S + sum_list (map nat xs) = W)"

lemma boundary_append: "boundary S bs W \<Longrightarrow> boundary S (bs @ cs) W"
  by (force simp: boundary_def)

lemma boundary_end: "S + sum_list (map nat bs) = W \<Longrightarrow> boundary S bs W"
  by (auto simp: boundary_def)

lemma boundary_Cons:
  assumes "boundary S (b # bs) W"
  shows "boundary (S + nat b) bs W" and "S < W \<Longrightarrow> S + nat b \<le> W"
proof -
  consider "W \<le> S" | xs ys where "b # bs = xs @ ys" "S + sum_list (map nat xs) = W"
    using assms by (auto simp: boundary_def)
  then have "boundary (S + nat b) bs W \<and> (S < W \<longrightarrow> S + nat b \<le> W)"
  proof cases
    case 1
    then show ?thesis by (auto simp: boundary_def)
  next
    case (2 xs ys)
    show ?thesis
    proof (cases xs)
      case Nil
      with 2 show ?thesis by (auto simp: boundary_def)
    next
      case (Cons x xs')
      with 2 show ?thesis by (auto simp: boundary_def)
    qed
  qed
  then show "boundary (S + nat b) bs W" and "S < W \<Longrightarrow> S + nat b \<le> W" by auto
qed

text \<open>
  \<open>indexed_to n W idx H\<close>: an indexer that has handled \<open>H\<close> requests and stands at record \<open>idx\<close> has
  prepared the first \<open>W\<close> records; it has not wrapped around, or it did so at \<open>W\<close>.
\<close>

definition indexed_to :: "nat \<Rightarrow> nat \<Rightarrow> nat \<Rightarrow> nat \<Rightarrow> bool" where
  "indexed_to n W idx H \<longleftrightarrow> W = H \<and> idx = H \<or> n - 4 < W \<and> W + idx = H"

text \<open>The wrap-around check of the indexer, with the size of its previous batch.\<close>

lemma ix_wrap_unat:
  assumes "unat (ix_read_count x) = n" and "8 \<le> n"
    and "unat (ix_read_idx x) = 0 \<or> 1 \<le> ix_batch x \<and> ix_batch x \<le> 4"
  shows "unat (ix_read_idx (ix_wrap x)) =
     (if n - nat (ix_batch x) < unat (ix_read_idx x) then 0 else unat (ix_read_idx x))"
proof (cases "unat (ix_read_idx x) = 0")
  case True
  then show ?thesis by (simp add: ix_wrap_def word_less_nat_alt)
next
  case False
  then have b: "1 \<le> ix_batch x" "ix_batch x \<le> 4" using assms(3) by auto
  then have ub: "unat (word_of_int (ix_batch x) :: u32) = nat (ix_batch x)"
    by (simp add: unsigned_of_int take_bit_int_eq_self)
  then have "(word_of_int (ix_batch x) :: u32) \<le> ix_read_count x"
    using b assms(1,2) by (simp add: word_le_nat_alt)
  then have "unat (ix_read_count x - word_of_int (ix_batch x)) = n - nat (ix_batch x)"
    using ub assms(1) by (simp add: unat_sub)
  then show ?thesis by (simp add: ix_wrap_def word_less_nat_alt)
qed

lemma ix_wrap_fields [simp]:
  "ix_read_count (ix_wrap x) = ix_read_count x" "ix_handled_req_cnt (ix_wrap x) = ix_handled_req_cnt x"
  "ix_batch (ix_wrap x) = ix_batch x" "ix_ok sz base x \<Longrightarrow> ix_ok sz base (ix_wrap x)"
  by (simp_all add: ix_wrap_def ix_ok_def)

lemma ix_wrap_indexed:
  assumes "indexed_to n W (unat (ix_read_idx x)) H" and "unat (ix_read_count x) = n" and "8 \<le> n"
    and "H \<le> n" and "0 < H \<longrightarrow> 1 \<le> ix_batch x \<and> ix_batch x \<le> 4"
  shows "indexed_to n W (unat (ix_read_idx (ix_wrap x))) H"
proof -
  have "unat (ix_read_idx x) = 0 \<or> 0 < H" using assms(1) by (auto simp: indexed_to_def)
  then have b: "unat (ix_read_idx x) = 0 \<or> 1 \<le> ix_batch x \<and> ix_batch x \<le> 4" using assms(5) by auto
  show ?thesis
    using ix_wrap_unat [OF assms(2,3) b] b assms(1,3,4) by (auto simp: indexed_to_def)
qed

text \<open>One batch of the spawner, as a fact about its cursor.\<close>

lemma wrapped_at_batch:
  assumes "wrapped_at n V S idx" and "8 \<le> n" and "S + b \<le> n"
  obtains V' where "wrapped_at n V' (S + b) (wrap_pos n idx + b)"
    "\<forall>j<S. record_of V' j = record_of V j" "\<forall>i<b. record_of V' (S + i) = wrap_pos n idx + i"
proof -
  consider "idx = S" "S \<le> V" "S \<le> n - 4" | "idx = S" "S \<le> V" "n - 4 < S" | "V \<le> S" "V + idx = S" "n - 4 < V"
    using assms(1) unfolding wrapped_at_def by linarith
  then show ?thesis
  proof cases
    case 1
    then show ?thesis
      using assms(2,3) by (intro that [of "if n - 4 < S + b then S + b else n"])
        (auto simp: wrapped_at_def wrap_pos_def record_of_def)
  next
    case 2
    then show ?thesis
      by (intro that [of S]) (auto simp: wrapped_at_def wrap_pos_def record_of_def)
  next
    case 3
    then have "wrap_pos n idx = idx" using assms(2,3) by (simp add: wrap_pos_def)
    then show ?thesis
      using 3 by (intro that [of V]) (auto simp: wrapped_at_def record_of_def)
  qed
qed

lemma wrapped_at_read:
  assumes "wrapped_at n V S idx" and "8 \<le> n" and "S + b \<le> H" and "H \<le> n" and "0 < b"
    and "indexed_to n W i H" and "S < W \<Longrightarrow> S + b \<le> W"
  shows "wrap_pos n idx + b \<le> W"
proof (cases "idx = S \<and> S \<le> n - 4")
  case True
  then have "S < W" using assms(3,5,6) by (auto simp: indexed_to_def)
  then show ?thesis using assms(7) True by (simp add: wrap_pos_def)
next
  case False
  then have "wrap_pos n idx + b \<le> H \<and> wrap_pos n idx + b \<le> 4"
    using assms(1-4) by (auto simp: wrapped_at_def wrap_pos_def)
  then show ?thesis using assms(2,6) by (auto simp: indexed_to_def)
qed

text \<open>A bound on the steps that take every announced request to the spawner.\<close>

definition pipe_work :: "('q \<Rightarrow> int list) \<Rightarrow> ('q, 'm, 'b) pipeline \<Rightarrow> nat" where
  "pipe_work items s =
     5 * (rpc_i (p_rpc s) - unat (ix_handled_req_cnt (p_ix s))) +
     4 * (case p_ix_push s of None \<Rightarrow> 0 | Some b \<Rightarrow> nat b) +
     3 * sum_list (map nat (items (p_ring_idx_pref s))) +
     (if p_pf_push s = None then 1 else 0) +
     sum_list (map nat (items (p_ring_pref_disp s)))"

lemma indexer_iter_idle:
  "indexer_iter T load_val x m = Inr (x', m', None) \<Longrightarrow> load_val = ix_handled_req_cnt x"
  by (auto simp: indexer_iter_def Let_def result_simps split: if_splits)

context txn_contract
begin

lemma indexer_iter_ok:
  assumes "wf m" and "ix_ok sz base x" and "unat (ix_read_count x) = n" and "8 \<le> n"
    and "unat load_val \<le> n" and "unat (ix_handled_req_cnt x) \<le> unat load_val"
    and "0 < unat (ix_handled_req_cnt x) \<longrightarrow> 1 \<le> ix_batch x \<and> ix_batch x \<le> 4"
    and "indexed_to n W (unat (ix_read_idx x)) (unat (ix_handled_req_cnt x))"
    and "\<forall>k<W. prepared k m"
  obtains x' m' bo W' where "indexer_iter T load_val x m = Inr (x', m', bo)" "wf m'"
     "\<forall>j ts. decode j ts m' = decode j ts m"
     "ix_ok sz base x'" "unat (ix_read_count x') = n" "unat (ix_handled_req_cnt x') \<le> unat load_val"
     "unat (ix_handled_req_cnt x') =
        unat (ix_handled_req_cnt x) + (case bo of None \<Rightarrow> 0 | Some b \<Rightarrow> nat b)"
     "\<forall>b. bo = Some b \<longrightarrow> 1 \<le> b \<and> b \<le> 4"
     "0 < unat (ix_handled_req_cnt x') \<longrightarrow> 1 \<le> ix_batch x' \<and> ix_batch x' \<le> 4"
     "indexed_to n W' (unat (ix_read_idx x')) (unat (ix_handled_req_cnt x'))"
     "\<forall>k<W'. prepared k m'" "W' = W \<or> W' = unat (ix_handled_req_cnt x')"
proof -
  let ?y = "ix_wrap x" and ?H = "unat (ix_handled_req_cnt x)"
  have n32: "n < 2 ^ 32" using assms(3) unat_lt_2p [of "ix_read_count x"] by simp
  have idx: "indexed_to n W (unat (ix_read_idx ?y)) ?H"
    using ix_wrap_indexed [OF assms(8,3,4) _ assms(7)] assms(5,6) by simp
  show ?thesis
  proof (cases "load_val = ix_handled_req_cnt x")
    case True
    then have "indexer_iter T load_val x m = Inr (?y, m, None)"
      by (simp add: indexer_iter_def Let_def)
    then show ?thesis using assms idx by (intro that [of ?y m None W]) simp_all
  next
    case False
    define b where "b = dyn_batch (ix_handled_req_cnt x) load_val"
    have b14: "1 \<le> unat b" "unat b \<le> 4"
      unfolding b_def using False dyn_batch_bounds [of load_val "ix_handled_req_cnt x"] by simp_all
    have bR: "?H + unat b \<le> unat load_val"
      unfolding b_def using False assms(6) by (intro dyn_batch_handled) (simp_all add: word_le_nat_alt)
    have H': "unat (ix_handled_req_cnt x + b) = ?H + unat b"
      using bR unat_lt_2p [of load_val] by (intro unat_add_small) simp
    define z where "z = ?y\<lparr>ix_handled_req_cnt := ix_handled_req_cnt x + b, ix_batch := uint b\<rparr>"
    have z: "unat (ix_read_idx z) + unat b \<le> n" "ix_ok sz base z" "ix_read_idx z = ix_read_idx ?y"
      "ix_handled_req_cnt z = ix_handled_req_cnt x + b" "ix_batch z = uint b" "ix_read_count z = ix_read_count x"
      using idx bR assms(2,5) by (auto simp: z_def indexed_to_def ix_ok_def ix_wrap_def)
    obtain m' where m': "rfold (\<lambda>_. ix_prepare_step T) [0..<unat b] (z, m) =
        Inr (z\<lparr>ix_read_head := base + sz * (unat (ix_read_idx z) + unat b),
               ix_read_idx := ix_read_idx z + of_nat (unat b)\<rparr>, m')" "wf m'"
        "\<forall>j. unat (ix_read_idx z) \<le> j \<and> j < unat (ix_read_idx z) + unat b \<longrightarrow> prepared j m'"
        "\<forall>j. prepared j m \<longrightarrow> prepared j m'" "\<forall>j ts. decode j ts m' = decode j ts m"
      using ix_prepare_loop [OF assms(1) z(1) n32 z(2)] by blast
    define x' where "x' = z\<lparr>ix_read_head := base + sz * (unat (ix_read_idx z) + unat b),
               ix_read_idx := ix_read_idx z + of_nat (unat b)\<rparr>"
    have i': "unat (ix_read_idx x') = unat (ix_read_idx z) + unat b"
      unfolding x'_def using z(1) n32 unat_add_of_nat [of "ix_read_idx z" "unat b"] by simp
    have iter: "indexer_iter T load_val x m = Inr (x', m', Some (uint b))"
      using m'(1) False by (simp add: indexer_iter_def Let_def z_def b_def x'_def)
    define W' where "W' = (if W = ?H \<and> unat (ix_read_idx ?y) = ?H then ?H + unat b else W)"
    have W': "indexed_to n W' (unat (ix_read_idx x')) (?H + unat b)" "W' = W \<or> W' = ?H + unat b"
      using idx i' z(3) by (auto simp: W'_def indexed_to_def)
    have prep: "prepared k m'" if "k < W'" for k
    proof (cases "k < W")
      case True
      then show ?thesis using assms(9) m'(4) by blast
    next
      case False
      then show ?thesis using that m'(3) z(3) by (auto simp: W'_def split: if_splits)
    qed
    have "uint b = int (unat b)" by simp
    then have ub: "1 \<le> uint b" "uint b \<le> 4" using b14 by linarith+
    show ?thesis
      by (rule that [OF iter m'(2,5)])
        (use W' prep z bR i' ub H' assms(3,5) in \<open>simp_all add: x'_def ix_ok_def\<close>)
  qed
qed

definition pipe_inv :: "('q \<Rightarrow> int list) \<Rightarrow> ('q, 'm, 'b) pipeline \<Rightarrow> 'm \<Rightarrow> bool" where
  "pipe_inv items s m0 \<longleftrightarrow> wf (p_mem s) \<and> (\<forall>j ts. decode j ts (p_mem s) = decode j ts m0) \<and>
     pipe_shape sz base n items s \<and>
     (\<exists>W. (\<forall>k<W. prepared k (p_mem s)) \<and>
          boundary (unat (sp_txn_log_id (p_sp s))) (pend items s) W \<and>
          indexed_to n W (unat (ix_read_idx (p_ix s))) (unat (ix_handled_req_cnt (p_ix s)))) \<and>
     (\<exists>V. wrapped_at n V (unat (sp_txn_log_id (p_sp s))) (unat (sp_idx (p_sp s))) \<and>
          p_spawned s = map (\<lambda>j. decode (record_of V j) (p_times s j) m0)
                            [0..<unat (sp_txn_log_id (p_sp s))])"

lemma pipe_inv_rpc:
  assumes "pipe_inv items s m0" and "rpc_iter t now gap (p_rpc s) (p_times s) (p_req_cnt s) = Some (h, tarr, cnt)"
  shows "pipe_inv items (s\<lparr>p_rpc := h, p_times := tarr, p_req_cnt := cnt\<rparr>) m0"
  using assms(2)
proof (cases rule: rpc_iter_cases)
  case wait
  then show ?thesis using assms(1) by simp
next
  case arrive
  have sh: "pipe_shape sz base n items s" using assms(1) by (simp add: pipe_inv_def)
  have cnt: "unat cnt = Suc (unat (p_req_cnt s))"
    using arrive sh by (simp add: pipe_shape_def unat_Suc)
  have S: "unat (sp_txn_log_id (p_sp s)) \<le> rpc_i (p_rpc s)"
    using sh by (simp add: pipe_shape_def)
  have sh': "pipe_shape sz base n items (s\<lparr>p_rpc := h, p_times := tarr, p_req_cnt := cnt\<rparr>)"
    using sh arrive cnt by (simp add: pipe_shape_def pend_def)
  have mapeq: "map (\<lambda>j. decode (record_of V j) (tarr j) m0) [0..<unat (sp_txn_log_id (p_sp s))] =
      map (\<lambda>j. decode (record_of V j) (p_times s j) m0) [0..<unat (sp_txn_log_id (p_sp s))]" for V
    using S arrive(3) by (intro map_cong) auto
  show ?thesis
    using assms(1) sh' unfolding pipe_inv_def by (simp add: pend_def mapeq)
qed

lemma pipe_inv_index:
  assumes "pipe_inv items s m0" and "8 \<le> n" and "rpc_i (p_rpc s) \<le> n" and "p_ix_push s = None"
  shows "\<exists>x m b. indexer_iter T (p_req_cnt s) (p_ix s) (p_mem s) = Inr (x, m, b) \<and>
     pipe_inv items (s\<lparr>p_ix := x, p_mem := m, p_ix_push := b\<rparr>) m0"
proof -
  let ?S = "unat (sp_txn_log_id (p_sp s))" and ?H = "unat (ix_handled_req_cnt (p_ix s))"
  have sh: "pipe_shape sz base n items s" and wf: "wf (p_mem s)"
    and dec: "\<forall>j ts. decode j ts (p_mem s) = decode j ts m0"
    using assms(1) by (simp_all add: pipe_inv_def)
  from assms(1) obtain W where W: "\<forall>k<W. prepared k (p_mem s)" "boundary ?S (pend items s) W"
      "indexed_to n W (unat (ix_read_idx (p_ix s))) ?H"
    by (auto simp: pipe_inv_def)
  have bnd: "unat (p_req_cnt s) \<le> n" "?H \<le> unat (p_req_cnt s)"
    using sh assms(3) by (simp_all add: pipe_shape_def)
  obtain x m bo W' where it: "indexer_iter T (p_req_cnt s) (p_ix s) (p_mem s) = Inr (x, m, bo)" "wf m"
     "\<forall>j ts. decode j ts m = decode j ts (p_mem s)" "ix_ok sz base x" "unat (ix_read_count x) = n"
     "unat (ix_handled_req_cnt x) \<le> unat (p_req_cnt s)"
     "unat (ix_handled_req_cnt x) = ?H + (case bo of None \<Rightarrow> 0 | Some b \<Rightarrow> nat b)"
     "\<forall>b. bo = Some b \<longrightarrow> 1 \<le> b \<and> b \<le> 4"
     "0 < unat (ix_handled_req_cnt x) \<longrightarrow> 1 \<le> ix_batch x \<and> ix_batch x \<le> 4"
     "indexed_to n W' (unat (ix_read_idx x)) (unat (ix_handled_req_cnt x))"
     "\<forall>k<W'. prepared k m" "W' = W \<or> W' = unat (ix_handled_req_cnt x)"
    by (rule indexer_iter_ok [OF wf _ _ assms(2) bnd _ W(3,1)]) (use sh in \<open>simp_all add: pipe_shape_def\<close>)
  let ?t = "s\<lparr>p_ix := x, p_mem := m, p_ix_push := bo\<rparr>"
  have pd: "pend items ?t = pend items s @ (case bo of None \<Rightarrow> [] | Some b \<Rightarrow> [b])"
    using assms(4) by (simp add: pend_def)
  have sum: "?S + sum_list (map nat (pend items ?t)) = unat (ix_handled_req_cnt x)"
    using sh it(7) by (simp add: pd pipe_shape_def split: option.split)
  have "pipe_shape sz base n items ?t"
    using sh it(4-9) sum by (auto simp: pipe_shape_def pd split: option.split)
  moreover have "boundary ?S (pend items ?t) W'"
    using it(12) boundary_append [OF W(2)] boundary_end [OF sum] pd by metis
  ultimately have "pipe_inv items ?t m0"
    using assms(1) it(2,3,10,11) dec unfolding pipe_inv_def by auto
  with it(1) show ?thesis by blast
qed

lemma pipe_inv_index_push:
  assumes "pipe_inv items s m0" and "spsc_ok Q items" and "p_ix_push s = Some b"
    and "q_push Q b (p_ring_idx_pref s) = Some q"
  shows "pipe_inv items (s\<lparr>p_ring_idx_pref := q, p_ix_push := None\<rparr>) m0"
proof -
  let ?t = "s\<lparr>p_ring_idx_pref := q, p_ix_push := None\<rparr>"
  have q: "items q = items (p_ring_idx_pref s) @ [b]" using assms(2,4) by (rule spsc_pushD)
  then have pd: "pend items ?t = pend items s" using assms(3) by (simp add: pend_def)
  have "pipe_shape sz base n items ?t"
    using assms(1) pd q by (auto simp: pipe_inv_def pipe_shape_def)
  then show ?thesis using assms(1) pd by (simp add: pipe_inv_def)
qed

lemma pipe_inv_prefetch:
  assumes "pipe_inv items s m0" and "spsc_ok Q items" and "p_pf_push s = None"
    and "q_front Q (p_ring_idx_pref s) = Some b"
  shows "\<exists>p. prefetcher_iter T b (p_pf s) (p_mem s) = Inr p \<and>
     pipe_inv items (s\<lparr>p_pf := p, p_pf_push := Some b\<rparr>) m0"
proof -
  obtain xs where xs: "items (p_ring_idx_pref s) = b # xs" using spsc_frontD [OF assms(2,4)] by blast
  have sh: "pipe_shape sz base n items s" and wf: "wf (p_mem s)"
    using assms(1) by (simp_all add: pipe_inv_def)
  have b: "0 \<le> b" "b \<le> 4" using sh xs by (auto simp: pipe_shape_def pend_def)
  obtain p where p: "prefetcher_iter T b (p_pf s) (p_mem s) = Inr p" "pf_ok sz base p"
      "pf_read_count p = pf_read_count (p_pf s)"
    using prefetcher_iter_ok [OF wf _ _ b, of "p_pf s"] sh by (auto simp: pipe_shape_def)
  have pd: "pend items (s\<lparr>p_pf := p, p_pf_push := Some b\<rparr>) = pend items s" by (simp add: pend_def)
  have "pipe_shape sz base n items (s\<lparr>p_pf := p, p_pf_push := Some b\<rparr>)"
    using sh p xs pd by (simp add: pipe_shape_def)
  then have "pipe_inv items (s\<lparr>p_pf := p, p_pf_push := Some b\<rparr>) m0"
    using assms(1) pd by (simp add: pipe_inv_def)
  with p(1) show ?thesis by blast
qed

lemma pipe_inv_prefetch_push:
  assumes "pipe_inv items s m0" and "spsc_ok Q items" and "p_pf_push s = Some b"
    and "q_push Q b (p_ring_pref_disp s) = Some q"
  shows "pipe_inv items (s\<lparr>p_ring_pref_disp := q, p_pf_push := None,
           p_ring_idx_pref := q_pop Q (p_ring_idx_pref s)\<rparr>) m0" (is "pipe_inv items ?t m0")
proof -
  have sh: "pipe_shape sz base n items s" using assms(1) by (simp add: pipe_inv_def)
  then obtain xs where xs: "items (p_ring_idx_pref s) = b # xs"
    using assms(3) by (auto simp: pipe_shape_def)
  have pd: "pend items ?t = pend items s"
    using xs spsc_pushD [OF assms(2,4)] spsc_popD [OF assms(2) xs] by (simp add: pend_def)
  then have "pipe_shape sz base n items ?t" using sh by (simp add: pipe_shape_def)
  then show ?thesis using assms(1) pd by (simp add: pipe_inv_def)
qed

lemma pipe_inv_spawn:
  assumes "pipe_inv items s m0" and "spsc_ok Q items" and "8 \<le> n" and "rpc_i (p_rpc s) \<le> n"
    and "q_front Q (p_ring_pref_disp s) = Some b"
  shows "\<exists>sp out ann. spawner_iter T (p_times s) w now b (p_sp s) (p_mem s) = Inr (Some (sp, out, ann)) \<and>
     pipe_inv items (s\<lparr>p_sp := sp, p_spawned := p_spawned s @ out,
                       p_ring_pref_disp := q_pop Q (p_ring_pref_disp s)\<rparr>) m0"
proof -
  let ?S = "unat (sp_txn_log_id (p_sp s))" and ?H = "unat (ix_handled_req_cnt (p_ix s))"
    and ?k = "wrap_pos n (unat (sp_idx (p_sp s)))"
  obtain xs where xs: "items (p_ring_pref_disp s) = b # xs" using spsc_frontD [OF assms(2,5)] by blast
  have pop: "items (q_pop Q (p_ring_pref_disp s)) = xs" using assms(2) xs by (rule spsc_popD)
  obtain ps where ps: "pend items s = b # ps" "ps = xs @ items (p_ring_idx_pref s) @
      (case p_ix_push s of None \<Rightarrow> [] | Some b \<Rightarrow> [b])"
    using xs by (simp add: pend_def)
  have sh: "pipe_shape sz base n items s" and wf: "wf (p_mem s)"
    and dec: "\<forall>j ts. decode j ts (p_mem s) = decode j ts m0"
    using assms(1) by (simp_all add: pipe_inv_def)
  have b: "0 \<le> b" "b \<le> 4" "0 < nat b" and H: "?S + nat b \<le> ?H" "?H \<le> n" "?H \<le> 1000000"
    using sh ps(1) assms(4) by (auto simp: pipe_shape_def)
  from assms(1) obtain W V where W: "\<forall>k<W. prepared k (p_mem s)" "boundary ?S (b # ps) W"
      "indexed_to n W (unat (ix_read_idx (p_ix s))) ?H"
    and V: "wrapped_at n V ?S (unat (sp_idx (p_sp s)))"
      "p_spawned s = map (\<lambda>j. decode (record_of V j) (p_times s j) m0) [0..<?S]"
    by (auto simp: pipe_inv_def ps(1))
  have read: "?k + nat b \<le> W"
    using wrapped_at_read [OF V(1) assms(3) H(1,2) b(3) W(3)] boundary_Cons(2) [OF W(2)] by blast
  obtain V' where V': "wrapped_at n V' (?S + nat b) (?k + nat b)"
      "\<forall>j<?S. record_of V' j = record_of V j" "\<forall>i<nat b. record_of V' (?S + i) = ?k + i"
    using wrapped_at_batch [OF V(1) assms(3), of "nat b"] H by auto
  have ok: "sp_ok sz base (p_sp s)" "unat (sp_read_count (p_sp s)) = n" "?S \<le> unat RPC_LOG_SIZE"
    using sh H by (simp_all add: pipe_shape_def const_simps)
  have prep: "\<And>j. ?k \<le> j \<Longrightarrow> j < ?k + nat b \<Longrightarrow> prepared j (p_mem s)"
    using W(1) read by auto
  let ?out = "map (\<lambda>i. decode (?k + i) (p_times s (?S + i)) (p_mem s)) [0..<nat b]"
  obtain sp ann where sp: "spawner_iter T (p_times s) w now b (p_sp s) (p_mem s) = Inr (Some (sp, ?out, ann))"
      "sp_ok sz base sp" "sp_read_count sp = sp_read_count (p_sp s)" "unat (sp_idx sp) = ?k + nat b"
      "unat (sp_txn_log_id sp) = ?S + nat b"
    using spawner_iter_ok [OF wf ok(1,2) b(1,2) ok(3) prep] by blast
  let ?t = "s\<lparr>p_sp := sp, p_spawned := p_spawned s @ ?out,
              p_ring_pref_disp := q_pop Q (p_ring_pref_disp s)\<rparr>"
  have pd: "pend items ?t = ps" by (simp add: pend_def pop ps(2))
  have "pipe_shape sz base n items ?t"
    using sh sp(2-5) ps(1) H(1) pd by (auto simp: pipe_shape_def)
  moreover have "p_spawned ?t = map (\<lambda>j. decode (record_of V' j) (p_times s j) m0) [0..<?S + nat b]"
    using V(2) V'(2,3) dec by (simp add: map_upt_add)
  ultimately have "pipe_inv items ?t m0"
    using assms(1) sp(4,5) V'(1) W(1,3) boundary_Cons(1) [OF W(2)] pd unfolding pipe_inv_def by auto
  with sp(1) show ?thesis by blast
qed

lemma pipe_inv_step:
  assumes "pipe_step Q T s t" and "pipe_inv items s m0" and "spsc_ok Q items" and "8 \<le> n"
    and "rpc_i (p_rpc t) \<le> n"
  shows "pipe_inv items t m0"
  using assms
proof (induction rule: pipe_step.induct)
  case (step_rpc t now gap s h tarr cnt)
  then show ?case by (intro pipe_inv_rpc)
next
  case (step_index s x m b)
  then show ?case using pipe_inv_index [of items s m0] by simp
next
  case (step_index_push s b q)
  then show ?case by (intro pipe_inv_index_push)
next
  case (step_prefetch s b p)
  then show ?case using pipe_inv_prefetch [of items s m0 Q b] by simp
next
  case (step_prefetch_push s b q)
  then show ?case by (intro pipe_inv_prefetch_push)
next
  case (step_spawn s b w now sp out ann)
  then show ?case using pipe_inv_spawn [of items s m0 Q b w now] by simp
qed

lemma pipe_reachable_inv:
  assumes "pipe_reachable Q T s0 s" and "pipe_inv items s0 m0" and "spsc_ok Q items" and "8 \<le> n"
    and "rpc_i (p_rpc s) \<le> n"
  shows "pipe_inv items s m0"
  using assms
proof (induction rule: pipe_reachable.induct)
  case reach_init
  then show ?case by simp
next
  case (reach_step s t)
  then show ?case
    using pipe_step_rpc_mono [of Q T s t] pipe_inv_step [of Q s t items m0] by simp
qed

lemma pipe_inv_init:
  assumes "wf m" and "new_indexer img batch0 = Inr x" and "new_prefetcher img = Inr p"
    and "new_spawner img wc reg0 ex0 lp0 = Inr sp" and "load_u32 0 img = Inr cnt" and "unat cnt = n"
    and "base = 4" and "8 \<le> n" and "items q1 = []" and "items q2 = []"
  shows "pipe_inv items (pipe_init m x p sp q1 q2 start) m"
proof -
  have pd: "pend items (pipe_init m x p sp q1 q2 start) = []"
    using assms(9,10) by (simp add: pend_def pipe_init_def)
  have flds: "ix_read_count x = cnt" "ix_read_top x = 4" "ix_read_head x = 4" "ix_read_idx x = 0"
      "ix_handled_req_cnt x = 0" "pf_read_count p = cnt" "pf_read_top p = 4" "pf_read_head p = 4"
      "pf_idx p = 0" "sp_read_count sp = cnt" "sp_read_top sp = 4" "sp_read_head sp = 4"
      "sp_prepare_read_head sp = 4" "sp_idx sp = 0" "sp_txn_log_id sp = 0"
    using assms(2-5) by (auto simp: new_indexer_def new_prefetcher_def new_spawner_def)
  have "pipe_shape sz base n items (pipe_init m x p sp q1 q2 start)"
    unfolding pipe_shape_def pd
    using assms(8) by (simp add: pipe_init_def flds assms(6,7) ix_ok_def pf_ok_def sp_ok_def)
  moreover have "wrapped_at n n 0 0" using assms(8) by (simp add: wrapped_at_def)
  moreover have "indexed_to n 0 0 0" by (simp add: indexed_to_def)
  ultimately show ?thesis
    using assms(1) pd unfolding pipe_inv_def
    by (auto simp: pipe_init_def flds boundary_def)
qed

lemma pipe_inv_no_fault:
  assumes "pipe_inv items s m0" and "spsc_ok Q items" and "8 \<le> n" and "rpc_i (p_rpc s) \<le> n"
  shows "\<not> pipe_fault Q T s"
proof -
  have "is_ok (indexer_iter T (p_req_cnt s) (p_ix s) (p_mem s))" if "p_ix_push s = None"
    using pipe_inv_index [OF assms(1,3,4) that] by (auto simp: is_ok_iff)
  moreover have "is_ok (prefetcher_iter T b (p_pf s) (p_mem s))"
    if "p_pf_push s = None" "q_front Q (p_ring_idx_pref s) = Some b" for b
    using pipe_inv_prefetch [OF assms(1,2) that] by (auto simp: is_ok_iff)
  moreover have "is_ok (spawner_iter T (p_times s) w now b (p_sp s) (p_mem s))"
    if "q_front Q (p_ring_pref_disp s) = Some b" for b now and w :: "nat counters"
    using pipe_inv_spawn [OF assms(1-4) that] by (auto simp: is_ok_iff)
  ultimately show ?thesis by (auto simp: pipe_fault_def)
qed

text \<open>The headline: what the pipeline has spawned while the requests fit in the log.\<close>

lemma pipe_inv_spawned:
  assumes "pipe_inv items s m0"
  obtains S V where "n - 4 < V" "S + sum_list (map nat (pend items s)) = unat (ix_handled_req_cnt (p_ix s))"
    "S \<le> rpc_i (p_rpc s)" "p_spawned s = map (\<lambda>j. decode (record_of V j) (p_times s j) m0) [0..<S]"
proof -
  from assms obtain V where V: "wrapped_at n V (unat (sp_txn_log_id (p_sp s))) (unat (sp_idx (p_sp s)))"
      "p_spawned s = map (\<lambda>j. decode (record_of V j) (p_times s j) m0) [0..<unat (sp_txn_log_id (p_sp s))]"
    by (auto simp: pipe_inv_def)
  moreover have "pipe_shape sz base n items s" using assms by (simp add: pipe_inv_def)
  ultimately show ?thesis
    by (intro that [of V "unat (sp_txn_log_id (p_sp s))"]) (simp_all add: wrapped_at_def pipe_shape_def)
qed

lemma pipe_progress_index:
  assumes "pipe_inv items s m0" and "8 \<le> n" and "rpc_i (p_rpc s) \<le> n"
    and "length (p_spawned s) < rpc_i (p_rpc s)" and empty2: "items (p_ring_pref_disp s) = []"
    and empty1: "items (p_ring_idx_pref s) = []" and None: "p_ix_push s = None"
  shows "\<exists>t. pipe_step Q T s t \<and> p_rpc t = p_rpc s \<and> p_times t = p_times s \<and> pipe_work items t < pipe_work items s"
proof -
  have sh: "pipe_shape sz base n items s" using assms(1) by (simp add: pipe_inv_def)
  from pipe_inv_index [OF assms(1-3) None] obtain x m bo where
    it: "indexer_iter T (p_req_cnt s) (p_ix s) (p_mem s) = Inr (x, m, bo)"
      "pipe_inv items (s\<lparr>p_ix := x, p_mem := m, p_ix_push := bo\<rparr>) m0" by blast
  have st: "pipe_step Q T s (s\<lparr>p_ix := x, p_mem := m, p_ix_push := bo\<rparr>)"
    using None it(1) by (rule step_index)
  have S: "length (p_spawned s) = unat (ix_handled_req_cnt (p_ix s))"
    using assms(1) sh empty1 empty2 None by (auto simp: pipe_inv_def pipe_shape_def pend_def)
  have "bo \<noteq> None"
    using indexer_iter_idle it(1) S assms(4) sh by (fastforce simp: pipe_shape_def)
  then obtain b where b: "bo = Some b" by blast
  have "pipe_shape sz base n items (s\<lparr>p_ix := x, p_mem := m, p_ix_push := bo\<rparr>)"
    using it(2) by (simp add: pipe_inv_def)
  then have "unat (ix_handled_req_cnt x) = unat (ix_handled_req_cnt (p_ix s)) + nat b" "1 \<le> b"
      "unat (ix_handled_req_cnt x) \<le> rpc_i (p_rpc s)"
    using sh b empty1 empty2 None by (auto simp: pipe_shape_def pend_def)
  then have "pipe_work items (s\<lparr>p_ix := x, p_mem := m, p_ix_push := bo\<rparr>) < pipe_work items s"
    using b None by (auto simp: pipe_work_def)
  with st show ?thesis by (intro exI [of _ "s\<lparr>p_ix := x, p_mem := m, p_ix_push := bo\<rparr>"]) simp
qed

lemma pipe_progress:
  assumes "pipe_inv items s m0" and "spsc_ok Q items" and "8 \<le> n" and "rpc_i (p_rpc s) \<le> n"
    and "length (p_spawned s) < rpc_i (p_rpc s)"
  shows "\<exists>t. pipe_step Q T s t \<and> p_rpc t = p_rpc s \<and> p_times t = p_times s \<and> pipe_work items t < pipe_work items s"
proof -
  have sh: "pipe_shape sz base n items s" using assms(1) by (simp add: pipe_inv_def)
  have pos: "\<forall>b\<in>set (pend items s). 1 \<le> b" using sh by (simp add: pipe_shape_def)
  show ?thesis
  proof (cases "items (p_ring_pref_disp s)")
    case (Cons b xs)
    then have "q_front Q (p_ring_pref_disp s) = Some b" using assms(2) by (simp add: spsc_ok_def)
    from pipe_inv_spawn [OF assms(1-4) this] step_spawn [OF this] show ?thesis
      using spsc_popD [OF assms(2) Cons] Cons pos by (fastforce simp: pipe_work_def pend_def)
  next
    case empty2: Nil
    show ?thesis
    proof (cases "items (p_ring_idx_pref s)")
      case (Cons b xs)
      then have front: "q_front Q (p_ring_idx_pref s) = Some b" using assms(2) by (simp add: spsc_ok_def)
      show ?thesis
      proof (cases "p_pf_push s")
        case None
        from pipe_inv_prefetch [OF assms(1,2) None front] step_prefetch [OF None front] show ?thesis
          using None by (fastforce simp: pipe_work_def)
      next
        case (Some c)
        then have "c = b" using sh Cons by (auto simp: pipe_shape_def)
        obtain q where q: "q_push Q c (p_ring_pref_disp s) = Some q"
          using spsc_emptyD [OF assms(2) empty2] by blast
        from step_prefetch_push [OF Some q] show ?thesis
          using Some Cons empty2 spsc_pushD [OF assms(2) q] spsc_popD [OF assms(2) Cons] pos \<open>c = b\<close>
          by (fastforce simp: pipe_work_def pend_def)
      qed
    next
      case empty1: Nil
      show ?thesis
      proof (cases "p_ix_push s")
        case (Some b)
        obtain q where q: "q_push Q b (p_ring_idx_pref s) = Some q"
          using spsc_emptyD [OF assms(2) empty1] by blast
        from step_index_push [OF Some q] show ?thesis
          using Some empty1 spsc_pushD [OF assms(2) q] pos by (fastforce simp: pipe_work_def pend_def)
      next
        case None
        then show ?thesis using pipe_progress_index [OF assms(1,3-5) empty2 empty1] by blast
      qed
    qed
  qed
qed

lemma pipe_drains:
  assumes "pipe_inv items s m0" and "spsc_ok Q items" and "8 \<le> n" and "rpc_i (p_rpc s) \<le> n"
  shows "\<exists>t. pipe_reachable Q T s t \<and> p_rpc t = p_rpc s \<and> p_times t = p_times s \<and> length (p_spawned t) = rpc_i (p_rpc s)"
  using assms
proof (induction "pipe_work items s" arbitrary: s rule: less_induct)
  case less
  show ?case
  proof (cases "length (p_spawned s) < rpc_i (p_rpc s)")
    case True
    obtain t where t: "pipe_step Q T s t" "p_rpc t = p_rpc s" "p_times t = p_times s"
        "pipe_work items t < pipe_work items s"
      using pipe_progress [OF less.prems True] by blast
    then obtain u where u: "pipe_reachable Q T t u" "p_rpc u = p_rpc t" "p_times u = p_times t"
        "length (p_spawned u) = rpc_i (p_rpc t)"
      using less.hyps [OF t(4) pipe_inv_step [OF t(1) less.prems(1-3)]] less.prems by auto
    have "pipe_reachable Q T s u"
      using pipe_reachable_trans [OF u(1) reach_step [OF reach_init t(1)]] .
    with t u show ?thesis by auto
  next
    case False
    moreover have "length (p_spawned s) \<le> rpc_i (p_rpc s)"
      by (rule pipe_inv_spawned [OF less.prems(1)]) simp
    ultimately show ?thesis by (intro exI [of _ s]) (simp add: reach_init)
  qed
qed

end

text \<open>An instance of the rings: a list of at most two elements (\<open>CHANNEL_SIZE\<close>).\<close>

definition list_ring :: "int list spsc" where
  "list_ring = \<lparr>q_push = (\<lambda>x q. if length q < 2 then Some (q @ [x]) else None),
     q_front = (\<lambda>q. case q of [] \<Rightarrow> None | x # xs \<Rightarrow> Some x), q_pop = tl\<rparr>"

lemma list_ring_ok [simp]: "spsc_ok list_ring (\<lambda>q. q)"
  by (auto simp: spsc_ok_def list_ring_def split: if_splits)

end
