(* ===== verification/Runs.thy ===== *)
theory Runs
  imports Pipeline Behaviours
begin

text \<open>
  Runs of the pipeline from the start: \<open>build_pipelines\<close> of \<^verbatim>\<open>src/doradd/pipeline.hpp\<close> builds the
  stages over one mapped log and starts them.  The locale \<open>log_contract\<close> is the contract of a
  transaction type whose records follow a four-byte count, as in all log files; its lemmas say what
  every run of the pipeline over such a log does, and each application interprets it.
\<close>

text \<open>The count at the front of a log file.\<close>

definition log_count :: "mem \<Rightarrow> nat result" where
  "log_count m = rmap unat (load_u32 0 m)"

text \<open>
  The stages as \<open>build_pipelines\<close> constructs them, over the mapped log \<open>ret\<close> and two empty rings.
  \<open>batch0\<close>, \<open>registered0\<close>, \<open>exec_sum0\<close> and \<open>last_print0\<close> are the values of variables the program
  leaves uninitialised; \<open>start\<close> is the clock reading the request generator starts from.
\<close>

definition build_pipelines ::
  "mem \<Rightarrow> u8 \<Rightarrow> int \<Rightarrow> bool \<Rightarrow> u64 \<Rightarrow> int \<Rightarrow> 'q \<Rightarrow> 'q \<Rightarrow> int \<Rightarrow> ('q, mem, 'b) pipeline result" where
  "build_pipelines ret worker_cnt batch0 registered0 exec_sum0 last_print0 ring_idx_pref ring_pref_disp start =
     rbind (new_indexer ret batch0) (\<lambda>indexer.
     rbind (new_prefetcher ret) (\<lambda>prefetcher.
     rbind (new_spawner ret worker_cnt registered0 exec_sum0 last_print0) (\<lambda>spawner.
       Inr (pipe_init ret indexer prefetcher spawner ring_idx_pref ring_pref_disp start))))"

lemma build_pipelines_rpc:
  "build_pipelines m wc b0 r0 e0 l0 q1 q2 start = Inr s0 \<Longrightarrow> rpc_i (p_rpc s0) = 0"
  by (auto simp: build_pipelines_def result_simps pipe_init_def)

lemma log_count_image:
  assumes "log_count m = Inr n"
  obtains s0 :: "('q, mem, 'b) pipeline" where "build_pipelines m wc b0 r0 e0 l0 q1 q2 start = Inr s0"
  using assms by (auto simp: log_count_def result_simps build_pipelines_def new_indexer_def
      new_prefetcher_def new_spawner_def)

text \<open>A log file made of records of one size, and what the stages load from it.\<close>

definition log_of :: "u8 list list \<Rightarrow> mem" where
  "log_of recs = bytes_of 4 (length recs) @ concat recs"

lemma log_count_log_of: "length recs < 2 ^ 32 \<Longrightarrow> log_count (log_of recs) = Inr (length recs)"
  by (simp add: log_count_def log_of_def load_u32_def load_front load_def nat_of_bytes_bytes_of unat_of_nat_small)

lemma length_log_of: "\<forall>x\<in>set recs. length x = b \<Longrightarrow> length (log_of recs) = 4 + b * length recs"
  by (simp add: log_of_def length_concat_blocks)

lemma load_log_of:
  assumes "\<forall>x\<in>set recs. length x = b" and "k < length recs" and "off + n \<le> b"
  shows "load n (4 + b * k + off) (log_of recs) = load n off (recs ! k)"
  using load_prefix [of n "bytes_of 4 (length recs)" "b * k + off" "concat recs"] load_concat [OF assms]
  by (simp add: log_of_def add.assoc)

lemma record_of_lt: "n - 4 < W \<Longrightarrow> 8 \<le> n \<Longrightarrow> j < k \<Longrightarrow> k \<le> n \<Longrightarrow> record_of W j < n"
  by (auto simp: record_of_def)

locale log_contract = txn_contract T sz 4 n wf prepared decode
  for T :: "(mem, 'b) txn_type" and sz :: nat and n :: nat and wf :: "mem \<Rightarrow> bool"
    and prepared :: "nat \<Rightarrow> mem \<Rightarrow> bool" and decode :: "nat \<Rightarrow> int \<Rightarrow> mem \<Rightarrow> 'b"
begin

lemma build_inv:
  assumes "build_pipelines m wc b0 r0 e0 l0 q1 q2 start = Inr s0" and "wf m" and "log_count m = Inr n"
    and "8 \<le> n" and "items q1 = []" and "items q2 = []"
  shows "pipe_inv items s0 m"
proof -
  obtain x p sp where x: "new_indexer m b0 = Inr x" and p: "new_prefetcher m = Inr p"
      and sp: "new_spawner m wc r0 e0 l0 = Inr sp" and s0: "s0 = pipe_init m x p sp q1 q2 start"
    using assms(1) by (auto simp: build_pipelines_def result_simps)
  obtain cnt where "load_u32 0 m = Inr cnt" "unat cnt = n"
    using assms(3) by (auto simp: log_count_def result_simps)
  from pipe_inv_init [OF assms(2) x p sp this _ assms(4), where items = items] show ?thesis
    using assms(5,6) s0 by simp
qed

lemma run_inv:
  assumes "spsc_ok Q items" and "build_pipelines m wc b0 r0 e0 l0 q1 q2 start = Inr s0" and "wf m"
    and "log_count m = Inr n" and "8 \<le> n" and "items q1 = []" and "items q2 = []"
    and "pipe_reachable Q T s0 s" and "rpc_i (p_rpc s) \<le> n"
  shows "pipe_inv items s m"
  using pipe_reachable_inv [OF assms(8) build_inv [OF assms(2-5)]] assms by blast

lemma run_no_fault:
  assumes "spsc_ok Q items" and "build_pipelines m wc b0 r0 e0 l0 q1 q2 start = Inr s0" and "wf m"
    and "log_count m = Inr n" and "8 \<le> n" and "items q1 = []" and "items q2 = []"
    and "pipe_reachable Q T s0 s" and "rpc_i (p_rpc s) \<le> n"
  shows "\<not> pipe_fault Q T s"
  using pipe_inv_no_fault [OF run_inv [OF assms]] assms by blast

lemma run_spawned:
  assumes "spsc_ok Q items" and "build_pipelines m wc b0 r0 e0 l0 q1 q2 start = Inr s0" and "wf m"
    and "log_count m = Inr n" and "8 \<le> n" and "items q1 = []" and "items q2 = []"
    and "pipe_reachable Q T s0 s" and "rpc_i (p_rpc s) \<le> n"
  shows "\<exists>V. n - 4 < V \<and> length (p_spawned s) \<le> rpc_i (p_rpc s) \<and>
    p_spawned s = map (\<lambda>j. decode (record_of V j) (p_times s j) m) [0..<length (p_spawned s)]"
  by (rule pipe_inv_spawned [OF run_inv [OF assms]]) auto

lemma run_decoded:
  assumes "spsc_ok Q items" and "build_pipelines m wc b0 r0 e0 l0 q1 q2 start = Inr s0" and "wf m"
    and "log_count m = Inr n" and "8 \<le> n" and "items q1 = []" and "items q2 = []"
    and "pipe_reachable Q T s0 s" and "rpc_i (p_rpc s) \<le> n" and "b \<in> set (p_spawned s)"
  shows "\<exists>k<n. \<exists>ts. b = decode k ts m"
proof -
  obtain W where W: "n - 4 < W" "length (p_spawned s) \<le> rpc_i (p_rpc s)"
      "p_spawned s = map (\<lambda>j. decode (record_of W j) (p_times s j) m) [0..<length (p_spawned s)]"
    using run_spawned [OF assms(1-9)] by blast
  from W(3) assms(10) have "b \<in> set (map (\<lambda>j. decode (record_of W j) (p_times s j) m) [0..<length (p_spawned s)])"
    by (rule subst)
  then obtain j where "j < length (p_spawned s)" "b = decode (record_of W j) (p_times s j) m" by auto
  moreover from this(1) have "record_of W j < n" using record_of_lt [OF W(1) assms(5)] W(2) assms(9) by (meson order.trans)
  ultimately show ?thesis by blast
qed

lemma run_drains:
  assumes "spsc_ok Q items" and "build_pipelines m wc b0 r0 e0 l0 q1 q2 start = Inr s0" and "wf m"
    and "log_count m = Inr n" and "8 \<le> n" and "items q1 = []" and "items q2 = []"
    and "pipe_reachable Q T s0 s" and "rpc_i (p_rpc s) \<le> n"
  shows "\<exists>t. pipe_reachable Q T s t \<and> p_rpc t = p_rpc s \<and> length (p_spawned t) = rpc_i (p_rpc s)"
  using pipe_drains [OF run_inv [OF assms]] assms by blast

text \<open>Runs that announce and spawn any number of requests exist.\<close>

lemma run_exists:
  assumes "spsc_ok Q items" and "build_pipelines m wc b0 r0 e0 l0 q1 q2 start = Inr s0" and "wf m"
    and "log_count m = Inr n" and "8 \<le> n" and "items q1 = []" and "items q2 = []"
    and "k \<le> n" and "k \<le> 1000000"
  shows "\<exists>s. pipe_reachable Q T s0 s \<and> rpc_i (p_rpc s) = k \<and> length (p_spawned s) = k"
proof -
  obtain s where s: "pipe_reachable Q T s0 s" "rpc_i (p_rpc s) = k"
    using pipe_announce [OF build_pipelines_rpc [OF assms(2)] assms(9)] by blast
  then obtain t where "pipe_reachable Q T s t" "p_rpc t = p_rpc s" "length (p_spawned t) = k"
    using run_drains [OF assms(1-7) s(1)] assms(8) by auto
  with s show ?thesis using pipe_reachable_trans by metis
qed

end

end
