(* ===== verification/Progress.thy ===== *)
theory Progress
  imports Runs
begin

text \<open>
  Progress of the pipeline under any schedule.  A pass of a stage \<open>moves\<close> something when a batch is
  taken up, handed on or spawned; the others only spin.  While no request is announced, a run can make
  at most five moves for every request not yet spawned and one more, whatever the interleaving, and as long as an announced
  request is not spawned some stage can move.
\<close>

definition moved :: "('q, 'm, 'b) pipeline \<Rightarrow> ('q, 'm, 'b) pipeline \<Rightarrow> bool" where
  "moved s t \<longleftrightarrow> p_ix_push t \<noteq> p_ix_push s \<or> p_pf_push t \<noteq> p_pf_push s \<or> length (p_spawned t) \<noteq> length (p_spawned s)"

inductive pipe_run ::
  "'q spsc \<Rightarrow> ('m, 'b) txn_type \<Rightarrow> ('q, 'm, 'b) pipeline \<Rightarrow> nat \<Rightarrow> ('q, 'm, 'b) pipeline \<Rightarrow> bool"
  for Q :: "'q spsc" and T :: "('m, 'b) txn_type" and s :: "('q, 'm, 'b) pipeline" where
  run_start: "pipe_run Q T s 0 s"
| run_move: "pipe_run Q T s k t \<Longrightarrow> pipe_step Q T t u \<Longrightarrow> p_rpc u = p_rpc t \<Longrightarrow> moved t u \<Longrightarrow>
    pipe_run Q T s (Suc k) u"
| run_spin: "pipe_run Q T s k t \<Longrightarrow> pipe_step Q T t u \<Longrightarrow> p_rpc u = p_rpc t \<Longrightarrow> \<not> moved t u \<Longrightarrow>
    pipe_run Q T s k u"

context txn_contract
begin

lemma spawned_length: "pipe_inv items s m0 \<Longrightarrow> length (p_spawned s) = unat (sp_txn_log_id (p_sp s))"
  by (auto simp: pipe_inv_def)

lemma inv_shape: "pipe_inv items s m0 \<Longrightarrow> pipe_shape sz base n items s"
  by (simp add: pipe_inv_def)

lemma step_work:
  assumes st: "pipe_step Q T s t" and inv: "pipe_inv items s m0" and Q: "spsc_ok Q items" and n: "8 \<le> n"
    and le: "rpc_i (p_rpc s) \<le> n" and rpc: "p_rpc t = p_rpc s"
  shows "if moved s t then pipe_work items t < pipe_work items s else pipe_work items t = pipe_work items s"
proof -
  have inv': "pipe_inv items t m0" using pipe_inv_step [OF st inv Q n] le rpc by simp
  note sh = inv_shape [OF inv] and sh' = inv_shape [OF inv'] and len = spawned_length [OF inv] spawned_length [OF inv']
  have pos: "\<forall>b\<in>set (pend items s). 1 \<le> b" using sh by (simp add: pipe_shape_def)
  from st show ?thesis
  proof cases
    case (step_rpc x now gap h tarr cnt)
    then have "h = p_rpc s" using rpc by simp
    then show ?thesis using step_rpc by (simp add: moved_def pipe_work_def)
  next
    case (step_index x m b)
    have "unat (ix_handled_req_cnt x) = unat (ix_handled_req_cnt (p_ix s)) + (case b of None \<Rightarrow> 0 | Some c \<Rightarrow> nat c)"
        "unat (ix_handled_req_cnt x) \<le> rpc_i (p_rpc s)" "\<forall>c. b = Some c \<longrightarrow> 1 \<le> c"
      using sh sh' step_index by (auto simp: pipe_shape_def pend_def split: option.splits)
    then show ?thesis using step_index by (cases b) (auto simp: moved_def pipe_work_def)
  next
    case (step_index_push b q)
    then show ?thesis using spsc_pushD [OF Q step_index_push(3)] pos by (auto simp: moved_def pipe_work_def pend_def)
  next
    case (step_prefetch b p)
    then show ?thesis by (simp add: moved_def pipe_work_def)
  next
    case (step_prefetch_push b q)
    obtain xs where xs: "items (p_ring_idx_pref s) = b # xs" using sh step_prefetch_push(2) by (auto simp: pipe_shape_def)
    then show ?thesis
      using step_prefetch_push spsc_pushD [OF Q step_prefetch_push(3)] spsc_popD [OF Q xs] pos
      by (auto simp: moved_def pipe_work_def pend_def)
  next
    case (step_spawn b w now sp out ann)
    obtain xs where xs: "items (p_ring_pref_disp s) = b # xs" using spsc_frontD [OF Q step_spawn(2)] by blast
    have "unat (sp_txn_log_id sp) = unat (sp_txn_log_id (p_sp s)) + nat b" "1 \<le> b"
      using sh sh' step_spawn(1) spsc_popD [OF Q xs] xs by (auto simp: pipe_shape_def pend_def)
    then show ?thesis using step_spawn(1) len spsc_popD [OF Q xs] xs by (auto simp: moved_def pipe_work_def)
  qed
qed

lemma pipe_work_le:
  assumes "pipe_inv items s m0"
  shows "pipe_work items s \<le> 5 * (rpc_i (p_rpc s) - length (p_spawned s)) + 1"
  using inv_shape [OF assms] spawned_length [OF assms]
  by (auto simp: pipe_work_def pipe_shape_def pend_def split: option.splits)

lemma pipe_run_facts:
  assumes "pipe_run Q T s k t" and "pipe_inv items s m0" and "spsc_ok Q items" and "8 \<le> n" and "rpc_i (p_rpc s) \<le> n"
  shows "p_rpc t = p_rpc s \<and> pipe_inv items t m0 \<and> k + pipe_work items t \<le> pipe_work items s"
  using assms
proof (induction rule: pipe_run.induct)
  case (run_move k t u)
  then have IH: "p_rpc t = p_rpc s" "pipe_inv items t m0" "k + pipe_work items t \<le> pipe_work items s" by auto
  then have "pipe_work items u < pipe_work items t"
    using step_work [OF run_move.hyps(2) IH(2) run_move.prems(2,3)] run_move by simp
  moreover have "pipe_inv items u m0" using pipe_inv_step [OF run_move.hyps(2) IH(2)] run_move IH(1) by simp
  ultimately show ?case using IH run_move.hyps(3) by simp
next
  case (run_spin k t u)
  then have IH: "p_rpc t = p_rpc s" "pipe_inv items t m0" "k + pipe_work items t \<le> pipe_work items s" by auto
  then have "pipe_work items u = pipe_work items t"
    using step_work [OF run_spin.hyps(2) IH(2) run_spin.prems(2,3)] run_spin by simp
  moreover have "pipe_inv items u m0" using pipe_inv_step [OF run_spin.hyps(2) IH(2)] run_spin IH(1) by simp
  ultimately show ?case using IH run_spin.hyps(3) by simp
qed simp

lemma pipe_can_move:
  assumes "pipe_inv items s m0" and "spsc_ok Q items" and "8 \<le> n" and "rpc_i (p_rpc s) \<le> n"
    and "length (p_spawned s) \<noteq> rpc_i (p_rpc s)"
  shows "\<exists>t. pipe_step Q T s t \<and> p_rpc t = p_rpc s \<and> moved s t"
proof -
  have "length (p_spawned s) \<le> rpc_i (p_rpc s)" by (rule pipe_inv_spawned [OF assms(1)]) simp
  with assms(5) obtain t where "pipe_step Q T s t" "p_rpc t = p_rpc s" "pipe_work items t < pipe_work items s"
    using pipe_progress [OF assms(1-4)] by auto
  with step_work [OF this(1) assms(1-4)] show ?thesis by (auto split: if_splits)
qed

end

context log_contract
begin

lemma run_progress:
  assumes "spsc_ok Q items" and "build_pipelines m wc b0 r0 e0 l0 q1 q2 start = Inr s0" and "wf m"
    and "log_count m = Inr n" and "8 \<le> n" and "items q1 = []" and "items q2 = []"
    and "pipe_reachable Q T s0 s" and "rpc_i (p_rpc s) \<le> n" and "pipe_run Q T s k t"
  shows "k \<le> 5 * (rpc_i (p_rpc s) - length (p_spawned s)) + 1 \<and> rpc_i (p_rpc t) = rpc_i (p_rpc s) \<and>
    (length (p_spawned t) = rpc_i (p_rpc s) \<or> (\<exists>u. pipe_run Q T s (Suc k) u))"
proof -
  note inv = run_inv [OF assms(1-9)]
  note f = pipe_run_facts [OF assms(10) inv assms(1,5,9)] pipe_work_le [OF inv]
  have "\<exists>u. pipe_run Q T s (Suc k) u" if "length (p_spawned t) \<noteq> rpc_i (p_rpc t)"
    using pipe_can_move [of items t m Q] f assms(1,5,9) that run_move [OF assms(10)] by auto
  then show ?thesis using f by auto
qed

end

end
