(* ===== verification/Tpcc.thy ===== *)
theory Tpcc
  imports Tpcc_Load Progress
begin

text \<open>
  The TPC-C application \<^verbatim>\<open>app/tpcc.cc\<close> with the macros of \<^verbatim>\<open>app/tpcc_macros.m4\<close>: the packed 576-byte
  record, the static member functions the pipeline calls, and the bodies of new-order and payment
  transactions.  The build is that of the README (\<open>INDEXER\<close>, \<open>RPC_LATENCY\<close>, \<open>LOG_LATENCY\<close>, no
  \<open>WAREHOUSE_SPLIT\<close>, which \<open>Tpcc_Split\<close> has), so that every transaction names its warehouse.
\<close>

section \<open>Layout\<close>

text \<open>\<open>TPCCTransactionMarshalled\<close>: the type byte, 65 parameters, 33 addresses, 51 bytes of padding.\<close>

definition sizeof_TPCCTransactionMarshalled :: nat where
  "sizeof_TPCCTransactionMarshalled = 576"

definition tpcc_param :: "nat \<Rightarrow> nat \<Rightarrow> mem \<Rightarrow> u32 result" where
  "tpcc_param input i m = (if i < 65 then load_u32 (input + 1 + 4 * i) m else Inl OutOfBounds)"

definition tpcc_slot :: "nat \<Rightarrow> nat \<Rightarrow> nat" where
  "tpcc_slot input j = input + 261 + 8 * j"

text \<open>\<open>txm->cown_ptrs[j] = table.get_row_addr(key)->get_base_addr()\<close>.\<close>

definition put_cown :: "'c verona \<Rightarrow> nat \<Rightarrow> nat \<Rightarrow> 'c option result \<Rightarrow> mem \<Rightarrow> mem result" where
  "put_cown V input j row m = rbind row (\<lambda>co.
     case co of
       None \<Rightarrow> Inl NullCown
     | Some c \<Rightarrow> if j < 33 then store_u64 (tpcc_slot input j) (get_base_addr V c) m else Inl OutOfBounds)"

section \<open>The transaction class\<close>

definition put_warehouse :: "'c verona \<Rightarrow> 'c database \<Rightarrow> nat \<Rightarrow> mem \<Rightarrow> mem result" where
  "put_warehouse V db input m = rbind (tpcc_param input 0 m) (\<lambda>w.
     put_cown V input 0 (get_row_addr (Warehouse_hash_key w) (rs_table (warehouse_table db))) m)"

definition put_district :: "'c verona \<Rightarrow> 'c database \<Rightarrow> nat \<Rightarrow> mem \<Rightarrow> mem result" where
  "put_district V db input m = rbind (tpcc_param input 0 m) (\<lambda>w. rbind (tpcc_param input 1 m) (\<lambda>d.
     put_cown V input 1 (get_row_addr (District_hash_key w d) (rs_table (district_table db))) m))"

definition put_customer :: "'c verona \<Rightarrow> 'c database \<Rightarrow> nat \<Rightarrow> mem \<Rightarrow> mem result" where
  "put_customer V db input m =
     rbind (tpcc_param input 0 m) (\<lambda>w. rbind (tpcc_param input 1 m) (\<lambda>d. rbind (tpcc_param input 2 m) (\<lambda>c.
       put_cown V input 2 (get_row_addr (Customer_hash_key w d c) (rs_table (customer_table db))) m)))"

definition put_stock :: "'c verona \<Rightarrow> 'c database \<Rightarrow> nat \<Rightarrow> nat \<Rightarrow> mem \<Rightarrow> mem result" where
  "put_stock V db input i m =
     rbind (tpcc_param input (20 + i) m) (\<lambda>w. rbind (tpcc_param input (5 + i) m) (\<lambda>it.
       put_cown V input (3 + i) (get_row_addr (Stock_hash_key_static w it) (rs_table (stock_table db))) m))"

definition put_item :: "'c verona \<Rightarrow> 'c database \<Rightarrow> nat \<Rightarrow> nat \<Rightarrow> mem \<Rightarrow> mem result" where
  "put_item V db input i m = rbind (tpcc_param input (5 + i) m) (\<lambda>it.
     put_cown V input (18 + i) (get_row_addr (Item_hash_key_static it) (rs_table (item_table db))) m)"

definition tpcc_prepare_cowns :: "'c verona \<Rightarrow> 'c database \<Rightarrow> nat \<Rightarrow> mem \<Rightarrow> (nat \<times> mem) result" where
  "tpcc_prepare_cowns V db input m = rbind (load_u8 input m) (\<lambda>txn_type.
     rmap (Pair sizeof_TPCCTransactionMarshalled)
       (if txn_type = 0 then
          rbind (put_warehouse V db input m) (\<lambda>m.
          rbind (put_district V db input m) (\<lambda>m.
          rbind (put_customer V db input m) (\<lambda>m.
          rbind (tpcc_param input 50 m) (\<lambda>n.
          rbind (rfold (put_stock V db input) [0..<unat n] m)
            (rfold (put_item V db input) [0..<unat n])))))
        else if txn_type = 1 then
          rbind (put_warehouse V db input m) (\<lambda>m.
          rbind (put_district V db input m) (put_customer V db input))
        else Inr m))"

definition tpcc_prefetch_cowns :: "nat \<Rightarrow> mem \<Rightarrow> (nat \<times> u64 list) result" where
  "tpcc_prefetch_cowns input m = rmap (Pair sizeof_TPCCTransactionMarshalled)
     (rmapM (\<lambda>j. load_u64 (tpcc_slot input j) m) [0..<33])"

text \<open>
  The behaviours.  The lambdas capture the pointer \<open>txm\<close>; the parameters behind it are never written
  while the program runs, so the behaviour carries them.
\<close>

datatype 'c tpcc_when =
    NewOrderWhen (tw_w: 'c) (tw_d: 'c) (tw_c: 'c) (tw_stocks: "'c list") (tw_items: "'c list")
      (tw_params: "nat \<Rightarrow> u32") (tw_init: int)
  | PaymentWhen (tw_w: 'c) (tw_d: 'c) (tw_c: 'c) (tw_params: "nat \<Rightarrow> u32") (tw_init: int)

definition tpcc_params :: "nat \<Rightarrow> mem \<Rightarrow> nat \<Rightarrow> u32" where
  "tpcc_params input m i = (case tpcc_param input i m of Inr p \<Rightarrow> p | Inl _ \<Rightarrow> 0)"

definition tpcc_get_cown :: "'c verona \<Rightarrow> nat \<Rightarrow> mem \<Rightarrow> nat \<Rightarrow> 'c result" where
  "tpcc_get_cown V input m j = rmap (get_cown_ptr_from_addr V) (load_u64 (tpcc_slot input j) m)"

definition tpcc_parse_and_process ::
  "'c verona \<Rightarrow> nat \<Rightarrow> int \<Rightarrow> mem \<Rightarrow> (nat \<times> 'c tpcc_when option) result" where
  "tpcc_parse_and_process V input init_time m = rbind (load_u8 input m) (\<lambda>txn_type.
     rmap (Pair sizeof_TPCCTransactionMarshalled)
       (if txn_type = 0 then
          rbind (tpcc_get_cown V input m 0) (\<lambda>w. rbind (tpcc_get_cown V input m 1) (\<lambda>d.
          rbind (tpcc_get_cown V input m 2) (\<lambda>c. rbind (tpcc_param input 50 m) (\<lambda>item_number.
            if 1 \<le> unat item_number \<and> unat item_number \<le> 15 then
              rbind (rmapM (\<lambda>i. tpcc_get_cown V input m (3 + i)) [0..<unat item_number]) (\<lambda>ss.
              rbind (rmapM (\<lambda>i. tpcc_get_cown V input m (18 + i)) [0..<unat item_number]) (\<lambda>is.
                Inr (Some (NewOrderWhen w d c ss is (tpcc_params input m) init_time))))
            else Inr None))))
        else if txn_type = 1 then
          rbind (tpcc_get_cown V input m 0) (\<lambda>w. rbind (tpcc_get_cown V input m 1) (\<lambda>d.
          rbind (tpcc_get_cown V input m 2) (\<lambda>c.
            Inr (Some (PaymentWhen w d c (tpcc_params input m) init_time)))))
        else Inr None))"

definition TPCCTransaction :: "'c verona \<Rightarrow> 'c database \<Rightarrow> (mem, 'c tpcc_when) txn_type" where
  "TPCCTransaction V db = \<lparr>prepare_cowns = tpcc_prepare_cowns V db, prefetch_cowns = tpcc_prefetch_cowns,
     parse_and_process = tpcc_parse_and_process V\<rparr>"

section \<open>Bodies\<close>

text \<open>
  The state a body runs on: the database, and the number of cowns allocated so far by \<open>make_cown\<close>,
  whose results are the argument \<open>alloc\<close>.
\<close>

type_synonym 'c tpcc_state = "'c database \<times> nat"

definition row_of :: "'c \<Rightarrow> ('c, 'r) row_store \<Rightarrow> 'r result" where
  "row_of c t = (case rs_rows t c of None \<Rightarrow> Inl NullCown | Some r \<Rightarrow> Inr r)"

definition set_row :: "'c \<Rightarrow> 'r \<Rightarrow> ('c, 'r) row_store \<Rightarrow> ('c, 'r) row_store" where
  "set_row c r t = t\<lparr>rs_rows := (rs_rows t)(c \<mapsto> r)\<rparr>"

definition WAREHOUSE_OP :: "'c tpcc_when \<Rightarrow> 'c database \<Rightarrow> 'c database result" where
  "WAREHOUSE_OP b db = rbind (row_of (tw_w b) (warehouse_table db)) (\<lambda>r. Inr
     (db\<lparr>warehouse_table := set_row (tw_w b) (r\<lparr>w_ytd := w_ytd r + ucast (tw_params b 52)\<rparr>) (warehouse_table db)\<rparr>))"

text \<open>\<open>idx\<close> counts from 1.\<close>

definition restock :: "u64 \<Rightarrow> u32 \<Rightarrow> u64" where
  "restock quantity qty = (let q = quantity - ucast qty in if q < 10 then q + 91 else q)"

definition UPDATE_STOCK :: "'c tpcc_when \<Rightarrow> nat \<Rightarrow> 'c database \<Rightarrow> 'c database result" where
  "UPDATE_STOCK b idx db =
     (let c = tw_stocks b ! (idx - 1); qty = tw_params b (35 + (idx - 1)) in
      rbind (row_of c (stock_table db)) (\<lambda>s. Inr (db\<lparr>stock_table := set_row c
        (s\<lparr>s_quantity := restock (s_quantity s) qty, s_ytd := s_ytd s + ucast qty,
           s_order_cnt := s_order_cnt s + 1,
           s_remote_cnt := (if tw_params b 51 = 1 then s_remote_cnt s + 1 else s_remote_cnt s)\<rparr>)
        (stock_table db)\<rparr>)))"

definition new_order_line :: "rand_env \<Rightarrow> 'c tpcc_when \<Rightarrow> u64 \<Rightarrow> nat \<Rightarrow> item \<Rightarrow> order_line" where
  "new_order_line e b order_hash_key idx it =
     (OrderLine (tw_params b 0) (tw_params b 1) order_hash_key (of_nat idx))\<lparr>
        ol_i_id := ucast (tw_params b (5 + (idx - 1))),
        ol_supply_w_id := ucast (tw_params b (20 + (idx - 1))),
        ol_quantity := ucast (tw_params b (35 + (idx - 1))),
        ol_amount := word_of_int \<lfloor>fl e (i_price it * fl e (of_nat (unat (tw_params b (35 + (idx - 1))))))\<rfloor>\<rparr>"

definition INSERT_ORDER_LINE ::
  "rand_env \<Rightarrow> (nat \<Rightarrow> 'c) \<Rightarrow> 'c tpcc_when \<Rightarrow> u64 \<Rightarrow> nat \<Rightarrow> 'c tpcc_state \<Rightarrow> 'c tpcc_state result" where
  "INSERT_ORDER_LINE e alloc b order_hash_key idx s = (case s of (db, n) \<Rightarrow>
     rbind (row_of (tw_items b ! (idx - 1)) (item_table db)) (\<lambda>it.
       let ol = new_order_line e b order_hash_key idx it;
           key = OrderLine_hash_key (ol_w_id ol) (ol_d_id ol) (ol_o_id ol) (ol_number ol) in
       rmap (\<lambda>t. (db\<lparr>order_line_table := t\<rparr>, Suc n))
         (insert_new_row key (alloc n) ol (order_line_table db))))"

definition UPDATE_STOCK_AND_INSERT_ORDER_LINE ::
  "rand_env \<Rightarrow> (nat \<Rightarrow> 'c) \<Rightarrow> 'c tpcc_when \<Rightarrow> u64 \<Rightarrow> nat \<Rightarrow> 'c tpcc_state \<Rightarrow> 'c tpcc_state result" where
  "UPDATE_STOCK_AND_INSERT_ORDER_LINE e alloc b order_hash_key idx s = (case s of (db, n) \<Rightarrow>
     rbind (UPDATE_STOCK b idx db) (\<lambda>db'. INSERT_ORDER_LINE e alloc b order_hash_key idx (db', n)))"

text \<open>
  The body of \<open>__NEW_ORDER_CASE(n)\<close>, for as many items as the transaction names: what follows
  \<open>WAREHOUSE_OP()\<close>, and the whole body of the default build.
\<close>

definition new_order_work :: "rand_env \<Rightarrow> (nat \<Rightarrow> 'c) \<Rightarrow> 'c tpcc_when \<Rightarrow> 'c tpcc_state \<Rightarrow> 'c tpcc_state result" where
  "new_order_work e alloc b s = (case s of (db1, n0) \<Rightarrow>
     rbind (row_of (tw_d b) (district_table db1)) (\<lambda>d.
       let ord = Order (tw_params b 0) (tw_params b 1) (d_next_o_id d);
           no = NewOrder (tw_params b 0) (tw_params b 1) (ucast (d_next_o_id d));
           db2 = db1\<lparr>district_table := set_row (tw_d b) (d\<lparr>d_next_o_id := d_next_o_id d + 1\<rparr>) (district_table db1)\<rparr>;
           order_hash_key = Order_hash_key (o_w_id ord) (o_d_id ord) (o_id ord);
           neworder_hash_key = NewOrder_hash_key (no_w_id no) (no_d_id no) (no_o_id no) in
       rbind (rfold (UPDATE_STOCK_AND_INSERT_ORDER_LINE e alloc b order_hash_key)
                [1..<Suc (length (tw_stocks b))] (db2, n0)) (\<lambda>(db3, n3).
       rbind (insert_new_row order_hash_key (alloc n3) ord (order_table db3)) (\<lambda>t1.
       rbind (insert_new_row neworder_hash_key (alloc (Suc n3)) no (new_order_table db3)) (\<lambda>t2.
         Inr (db3\<lparr>order_table := t1, new_order_table := t2\<rparr>, Suc (Suc n3)))))))"

definition new_order_body :: "rand_env \<Rightarrow> (nat \<Rightarrow> 'c) \<Rightarrow> 'c tpcc_when \<Rightarrow> 'c tpcc_state \<Rightarrow> 'c tpcc_state result" where
  "new_order_body e alloc b s = (case s of (db0, n0) \<Rightarrow>
     rbind (WAREHOUSE_OP b db0) (\<lambda>db1. new_order_work e alloc b (db1, n0)))"

definition payment_work :: "rand_env \<Rightarrow> 'c tpcc_when \<Rightarrow> 'c database \<Rightarrow> 'c database result" where
  "payment_work e b db1 =
     rbind (row_of (tw_d b) (district_table db1)) (\<lambda>d.
     rbind (row_of (tw_c b) (customer_table db1)) (\<lambda>c.
       let h_amount = tw_params b 52 in
       Inr (db1\<lparr>district_table := set_row (tw_d b) (d\<lparr>d_ytd := d_ytd d + ucast h_amount\<rparr>) (district_table db1),
                customer_table := set_row (tw_c b)
                  (c\<lparr>c_balance := fl e (c_balance c - fl e (of_nat (unat h_amount))),
                     c_ytd_payment := c_ytd_payment c + ucast h_amount,
                     c_payment_cnt := c_payment_cnt c + 1\<rparr>) (customer_table db1)\<rparr>)))"

definition payment_body :: "rand_env \<Rightarrow> 'c tpcc_when \<Rightarrow> 'c database \<Rightarrow> 'c database result" where
  "payment_body e b db0 = rbind (WAREHOUSE_OP b db0) (payment_work e b)"

definition tpcc_body :: "rand_env \<Rightarrow> (nat \<Rightarrow> 'c) \<Rightarrow> 'c tpcc_when \<Rightarrow> 'c tpcc_state \<Rightarrow> 'c tpcc_state result" where
  "tpcc_body e alloc b s = (case b of
     NewOrderWhen _ _ _ _ _ _ _ \<Rightarrow> new_order_body e alloc b s
   | PaymentWhen _ _ _ _ _ \<Rightarrow> rmap (\<lambda>db. (db, snd s)) (payment_body e b (fst s)))"

text \<open>The cowns a behaviour names in its \<open>when\<close>.\<close>

definition tpcc_cowns :: "'c tpcc_when \<Rightarrow> 'c set" where
  "tpcc_cowns b = (case b of
     NewOrderWhen w d c ss is _ _ \<Rightarrow> {w, d, c} \<union> set ss \<union> set is
   | PaymentWhen w d c _ _ \<Rightarrow> {w, d, c})"

text \<open>The counters: a new order counts before it logs, a payment logs before it counts.\<close>

definition tpcc_count :: "(int \<Rightarrow> u32) \<Rightarrow> 't \<Rightarrow> int \<Rightarrow> 'c tpcc_when \<Rightarrow> 't counters \<Rightarrow> 't counters" where
  "tpcc_count to_us t now b w = (case b of
     NewOrderWhen _ _ _ _ _ _ _ \<Rightarrow> incr_then_log to_us t (tw_init b) now w
   | PaymentWhen _ _ _ _ _ \<Rightarrow> log_then_incr to_us t (tw_init b) now w)"

section \<open>Records of the log\<close>

definition tpcc_off :: "nat \<Rightarrow> nat" where
  "tpcc_off k = 4 + 576 * k"

text \<open>The cown that belongs into slot \<open>j\<close> of a record with parameters \<open>p\<close>.\<close>

definition slot_row :: "'c database \<Rightarrow> (nat \<Rightarrow> u32) \<Rightarrow> nat \<Rightarrow> 'c option result" where
  "slot_row db p j =
     (if j = 0 then get_row_addr (Warehouse_hash_key (p 0)) (rs_table (warehouse_table db))
      else if j = 1 then get_row_addr (District_hash_key (p 0) (p 1)) (rs_table (district_table db))
      else if j = 2 then get_row_addr (Customer_hash_key (p 0) (p 1) (p 2)) (rs_table (customer_table db))
      else if j < 18 then get_row_addr (Stock_hash_key_static (p (20 + (j - 3))) (p (5 + (j - 3)))) (rs_table (stock_table db))
      else get_row_addr (Item_hash_key_static (p (5 + (j - 18)))) (rs_table (item_table db)))"

definition slot_cown :: "'c verona \<Rightarrow> 'c database \<Rightarrow> (nat \<Rightarrow> u32) \<Rightarrow> nat \<Rightarrow> 'c" where
  "slot_cown V db p j = (case slot_row db p j of Inr (Some c) \<Rightarrow> c | _ \<Rightarrow> get_cown_ptr_from_addr V 0)"

definition tpcc_type :: "nat \<Rightarrow> mem \<Rightarrow> u8" where
  "tpcc_type k m = (case load_u8 (tpcc_off k) m of Inr t \<Rightarrow> t | Inl _ \<Rightarrow> 2)"

abbreviation tpcc_p :: "nat \<Rightarrow> mem \<Rightarrow> nat \<Rightarrow> u32" where
  "tpcc_p k \<equiv> tpcc_params (tpcc_off k)"

definition slots :: "u8 \<Rightarrow> nat \<Rightarrow> nat set" where
  "slots ty n = {0, 1, 2} \<union> (if ty = 0 then {3..<3 + n} \<union> {18..<18 + n} else {})"

definition tpcc_decode :: "'c verona \<Rightarrow> 'c database \<Rightarrow> nat \<Rightarrow> int \<Rightarrow> mem \<Rightarrow> 'c tpcc_when" where
  "tpcc_decode V db k ts m =
     (let p = tpcc_p k m; c = slot_cown V db p; n = unat (p 50) in
      if tpcc_type k m = 0
      then NewOrderWhen (c 0) (c 1) (c 2) (map (\<lambda>i. c (3 + i)) [0..<n]) (map (\<lambda>i. c (18 + i)) [0..<n]) p ts
      else PaymentWhen (c 0) (c 1) (c 2) p ts)"

text \<open>A log of \<open>n\<close> records, each a payment or a new order of one to fifteen items on existing rows.\<close>

definition tpcc_record_wf :: "'c database \<Rightarrow> nat \<Rightarrow> mem \<Rightarrow> bool" where
  "tpcc_record_wf db k m \<longleftrightarrow>
     (tpcc_type k m = 1 \<or> tpcc_type k m = 0 \<and> 1 \<le> unat (tpcc_p k m 50) \<and> unat (tpcc_p k m 50) \<le> 15) \<and>
     (\<forall>j\<in>slots (tpcc_type k m) (unat (tpcc_p k m 50)). \<exists>c. slot_row db (tpcc_p k m) j = Inr (Some c))"

definition tpcc_prepared :: "'c verona \<Rightarrow> 'c database \<Rightarrow> nat \<Rightarrow> mem \<Rightarrow> bool" where
  "tpcc_prepared V db k m \<longleftrightarrow> tpcc_record_wf db k m \<and> (\<forall>j\<in>slots (tpcc_type k m) (unat (tpcc_p k m 50)).
     load_u64 (tpcc_slot (tpcc_off k) j) m = Inr (get_base_addr V (slot_cown V db (tpcc_p k m) j)))"

definition tpcc_wf :: "'c verona \<Rightarrow> 'c database \<Rightarrow> nat \<Rightarrow> mem \<Rightarrow> bool" where
  "tpcc_wf V db n m \<longleftrightarrow> verona_ok V \<and> length m = tpcc_off n \<and> (\<forall>k<n. tpcc_record_wf db k m)"

abbreviation slot_area :: "nat \<Rightarrow> mem \<Rightarrow> mem \<Rightarrow> bool" where
  "slot_area k \<equiv> same_outside (tpcc_off k + 261) (tpcc_off k + 525)"

lemma tpcc_apart:
  assumes "j \<noteq> k" and "a \<le> 576" and "b \<le> 576"
  shows "tpcc_off j + a \<le> tpcc_off k \<or> tpcc_off k + b \<le> tpcc_off j"
  using assms by (cases "j < k") (auto simp: tpcc_off_def)

lemma slot_area_outside:
  assumes "slot_area k m m'" and "a + n \<le> 261 \<or> j \<noteq> k \<and> a + n \<le> 576"
  shows "load n (tpcc_off j + a) m' = load n (tpcc_off j + a) m"
proof (rule same_outside_load [OF assms(1)])
  show "tpcc_off j + a + n \<le> tpcc_off k + 261 \<or> tpcc_off k + 525 \<le> tpcc_off j + a"
    using assms(2) tpcc_apart [of j k "a + n" 525] by (cases "j = k") auto
qed

lemma slot_area_type: "slot_area k m m' \<Longrightarrow> tpcc_type j m' = tpcc_type j m"
  using slot_area_outside [of k m m' 0 1 j] by (simp add: tpcc_type_def load_u8_def)

lemma slot_area_param: "slot_area k m m' \<Longrightarrow> tpcc_param (tpcc_off j) i m' = tpcc_param (tpcc_off j) i m"
  using slot_area_outside [of k m m' "1 + 4 * i" 4 j] by (simp add: tpcc_param_def load_u32_def add.assoc)

lemma slot_area_params: "slot_area k m m' \<Longrightarrow> tpcc_p j m' = tpcc_p j m"
  by (simp add: tpcc_params_def [abs_def] slot_area_param)

lemma slot_area_record_wf: "slot_area k m m' \<Longrightarrow> tpcc_record_wf db j m' = tpcc_record_wf db j m"
  by (simp add: tpcc_record_wf_def slot_area_type slot_area_params)

lemma slot_area_wf: "slot_area k m m' \<Longrightarrow> tpcc_wf V db n m \<Longrightarrow> tpcc_wf V db n m'"
  by (auto simp: tpcc_wf_def slot_area_record_wf dest: same_outside_length)

lemma slot_area_decode: "slot_area k m m' \<Longrightarrow> tpcc_decode V db j ts m' = tpcc_decode V db j ts m"
  by (simp add: tpcc_decode_def slot_area_type slot_area_params)

lemma slots_lt: "n \<le> 15 \<Longrightarrow> j \<in> slots ty n \<Longrightarrow> j < 33"
  by (auto simp: slots_def split: if_splits)

lemma wf_slots_lt: "tpcc_record_wf db k m \<Longrightarrow> j \<in> slots (tpcc_type k m) (unat (tpcc_p k m 50)) \<Longrightarrow> j < 33"
  using slots_lt by (auto simp: tpcc_record_wf_def slots_def)

lemma slot_area_prepared:
  assumes "slot_area k m m'" and "tpcc_prepared V db k m'"
  shows "tpcc_prepared V db j m \<Longrightarrow> tpcc_prepared V db j m'"
proof (cases "j = k")
  case False
  assume prep: "tpcc_prepared V db j m"
  then have wf: "tpcc_record_wf db j m" by (simp add: tpcc_prepared_def)
  have "load_u64 (tpcc_slot (tpcc_off j) i) m' = load_u64 (tpcc_slot (tpcc_off j) i) m"
    if "i \<in> slots (tpcc_type j m) (unat (tpcc_p j m 50))" for i
    using slot_area_outside [OF assms(1), of "261 + 8 * i" 8 j] False wf_slots_lt [OF wf that]
    by (simp add: load_u64_def tpcc_slot_def add.assoc)
  with prep show ?thesis
    using slot_area_type [OF assms(1)] slot_area_params [OF assms(1)] slot_area_record_wf [OF assms(1), of db j]
    by (simp add: tpcc_prepared_def)
qed (use assms in simp)

lemma tpcc_wf_load:
  assumes "tpcc_wf V db n m" and "k < n" and "off + b \<le> 576"
  shows "\<exists>x. load b (tpcc_off k + off) m = Inr x"
proof -
  have "tpcc_off k + off + b \<le> length m"
    using assms by (simp add: tpcc_wf_def tpcc_off_def)
  then show ?thesis by (simp add: load_def)
qed

lemma tpcc_param_ok:
  assumes "tpcc_wf V db n m" and "k < n" and "i < 65"
  shows "tpcc_param (tpcc_off k) i m = Inr (tpcc_p k m i)"
  using tpcc_wf_load [OF assms(1,2), of "1 + 4 * i" 4] assms(3)
  by (auto simp: tpcc_param_def tpcc_params_def load_u32_def add.assoc)

lemma tpcc_type_ok: "tpcc_wf V db n m \<Longrightarrow> k < n \<Longrightarrow> load_u8 (tpcc_off k) m = Inr (tpcc_type k m)"
  using tpcc_wf_load [of V db n m k 0 1] by (auto simp: tpcc_type_def load_u8_def)

section \<open>Preparing a record\<close>

text \<open>\<open>filled V db k m J m'\<close>: the slots in \<open>J\<close> have been written, and nothing outside the slots.\<close>

definition filled :: "'c verona \<Rightarrow> 'c database \<Rightarrow> nat \<Rightarrow> mem \<Rightarrow> nat set \<Rightarrow> mem \<Rightarrow> bool" where
  "filled V db k m J m' \<longleftrightarrow> slot_area k m m' \<and>
     (\<forall>j\<in>J. load_u64 (tpcc_slot (tpcc_off k) j) m' = Inr (get_base_addr V (slot_cown V db (tpcc_p k m) j)))"

lemma put_cown_ok:
  assumes "filled V db k m J m1" and "length m = tpcc_off n" and "k < n" and "j < 33"
    and "slot_row db (tpcc_p k m) j = Inr (Some c)"
  shows "\<exists>m2. put_cown V (tpcc_off k) j (slot_row db (tpcc_p k m) j) m1 = Inr m2 \<and> filled V db k m (insert j J) m2"
proof -
  let ?a = "tpcc_slot (tpcc_off k)"
  have c: "c = slot_cown V db (tpcc_p k m) j" using assms(5) by (simp add: slot_cown_def)
  have "length m1 = tpcc_off n" using assms(1,2) by (auto simp: filled_def dest: same_outside_length)
  then have "?a j + 8 \<le> length m1" using assms(3,4) by (simp add: tpcc_slot_def tpcc_off_def)
  then obtain m2 where st: "store 8 (?a j) (unat (get_base_addr V c)) m1 = Inr m2" using store_ok by blast
  then have st2: "store_u64 (?a j) (get_base_addr V c) m1 = Inr m2" by (simp add: store_u64_def)
  have "slot_area k m m2"
    using assms(1,4) by (intro same_outside_store [OF _ st]) (auto simp: filled_def tpcc_slot_def)
  moreover have "load_u64 (?a i) m2 = load_u64 (?a i) m1" if "i \<noteq> j" for i
    using load_store_other [OF st, of "?a i" 8] that by (cases "i < j") (simp_all add: load_u64_def tpcc_slot_def)
  moreover have "load_u64 (?a j) m2 = Inr (get_base_addr V c)" using st2 by (rule load_u64_store_same)
  ultimately have "filled V db k m (insert j J) m2"
    using assms(1) c by (force simp: filled_def)
  then show ?thesis using assms(4,5) st2 by (simp add: put_cown_def)
qed

lemma filled_param:
  "filled V db k m J m1 \<Longrightarrow> tpcc_wf V db n m \<Longrightarrow> k < n \<Longrightarrow> i < 65 \<Longrightarrow> tpcc_param (tpcc_off k) i m1 = Inr (tpcc_p k m i)"
  using slot_area_param [of k m m1 k i] tpcc_param_ok by (simp add: filled_def)

text \<open>Each of the five kinds of writes is a write of the slot's cown.\<close>

lemma put_is_slot:
  assumes "filled V db k m J m1" and "tpcc_wf V db n m" and "k < n"
  shows "put_warehouse V db (tpcc_off k) m1 = put_cown V (tpcc_off k) 0 (slot_row db (tpcc_p k m) 0) m1"
    and "put_district V db (tpcc_off k) m1 = put_cown V (tpcc_off k) 1 (slot_row db (tpcc_p k m) 1) m1"
    and "put_customer V db (tpcc_off k) m1 = put_cown V (tpcc_off k) 2 (slot_row db (tpcc_p k m) 2) m1"
    and "i < 15 \<Longrightarrow> put_stock V db (tpcc_off k) i m1 = put_cown V (tpcc_off k) (3 + i) (slot_row db (tpcc_p k m) (3 + i)) m1"
    and "i < 15 \<Longrightarrow> put_item V db (tpcc_off k) i m1 = put_cown V (tpcc_off k) (18 + i) (slot_row db (tpcc_p k m) (18 + i)) m1"
  by (simp_all add: put_warehouse_def put_district_def put_customer_def put_stock_def put_item_def
      filled_param [OF assms] slot_row_def)

lemma put_loop_ok:
  assumes "tpcc_wf V db n m" and "k < n" and "filled V db k m J m1" and "cnt \<le> 15"
    and "\<And>i m'. i < cnt \<Longrightarrow> filled V db k m (J \<union> {b..<b + i}) m' \<Longrightarrow>
       f i m' = put_cown V (tpcc_off k) (b + i) (slot_row db (tpcc_p k m) (b + i)) m'"
    and "\<And>i. i < cnt \<Longrightarrow> \<exists>c. slot_row db (tpcc_p k m) (b + i) = Inr (Some c)" and "b + cnt \<le> 33"
  shows "\<exists>m2. rfold f [0..<cnt] m1 = Inr m2 \<and> filled V db k m (J \<union> {b..<b + cnt}) m2"
proof (rule rfold_upt_total [where P = "\<lambda>i m'. filled V db k m (J \<union> {b..<b + i}) m'"])
  show "filled V db k m (J \<union> {b..<b + 0}) m1" using assms(3) by simp
next
  fix i m'
  assume i: "i < cnt" and fl: "filled V db k m (J \<union> {b..<b + i}) m'"
  obtain c where c: "slot_row db (tpcc_p k m) (b + i) = Inr (Some c)" using assms(6) [OF i] by blast
  have len: "length m = tpcc_off n" using assms(1) by (simp add: tpcc_wf_def)
  have j: "b + i < 33" using i assms(7) by simp
  have "insert (b + i) (J \<union> {b..<b + i}) = J \<union> {b..<b + Suc i}" by auto
  then show "\<exists>m2. f i m' = Inr m2 \<and> filled V db k m (J \<union> {b..<b + Suc i}) m2"
    using put_cown_ok [OF fl len assms(2) j c] assms(5) [OF i fl] by simp
qed

lemma put_head_ok:
  assumes "tpcc_wf V db n m" and "k < n"
  obtains m3 where "rbind (put_warehouse V db (tpcc_off k) m) (\<lambda>m.
      rbind (put_district V db (tpcc_off k) m) (put_customer V db (tpcc_off k))) = Inr m3"
    "filled V db k m {0, 1, 2} m3"
proof -
  have wf: "tpcc_record_wf db k m" "length m = tpcc_off n" using assms by (simp_all add: tpcc_wf_def)
  have "j \<in> slots (tpcc_type k m) (unat (tpcc_p k m 50))" if "j < 3" for j
    using that by (auto simp: slots_def)
  then have row: "\<exists>c. slot_row db (tpcc_p k m) j = Inr (Some c)" if "j < 3" for j
    using wf(1) that by (simp add: tpcc_record_wf_def)
  obtain c0 c1 c2 where c: "slot_row db (tpcc_p k m) 0 = Inr (Some c0)" "slot_row db (tpcc_p k m) 1 = Inr (Some c1)"
      "slot_row db (tpcc_p k m) 2 = Inr (Some c2)"
    using row [of 0] row [of 1] row [of 2] by auto
  have f0: "filled V db k m {} m" by (simp add: filled_def)
  obtain m1 where m1: "put_warehouse V db (tpcc_off k) m = Inr m1" "filled V db k m {0} m1"
    using put_cown_ok [OF f0 wf(2) assms(2) _ c(1)] put_is_slot(1) [OF f0 assms] by auto
  obtain m2 where m2: "put_district V db (tpcc_off k) m1 = Inr m2" "filled V db k m {1, 0} m2"
    using put_cown_ok [OF m1(2) wf(2) assms(2) _ c(2)] put_is_slot(2) [OF m1(2) assms] by auto
  obtain m3 where m3: "put_customer V db (tpcc_off k) m2 = Inr m3" "filled V db k m {2, 1, 0} m3"
    using put_cown_ok [OF m2(2) wf(2) assms(2) _ c(3)] put_is_slot(3) [OF m2(2) assms] by auto
  have "{2, 1, 0} = {0, 1, 2 :: nat}" by auto
  with m1(1) m2(1) m3 show ?thesis by (intro that [of m3]) simp_all
qed

lemma filled_prepared:
  assumes "filled V db k m (slots (tpcc_type k m) (unat (tpcc_p k m 50))) m'" and "tpcc_record_wf db k m"
  shows "slot_area k m m' \<and> tpcc_prepared V db k m'"
proof -
  have area: "slot_area k m m'" using assms(1) by (simp add: filled_def)
  then show ?thesis
    using assms slot_area_type [OF area] slot_area_params [OF area] slot_area_record_wf [OF area, of db k]
    by (simp add: tpcc_prepared_def filled_def)
qed

lemma tpcc_prepare_ok:
  assumes "tpcc_wf V db n m" and "k < n"
  shows "\<exists>m'. tpcc_prepare_cowns V db (tpcc_off k) m = Inr (576, m') \<and> slot_area k m m' \<and> tpcc_prepared V db k m'"
proof -
  have wf: "tpcc_record_wf db k m" using assms by (simp add: tpcc_wf_def)
  obtain m3 where head: "rbind (put_warehouse V db (tpcc_off k) m) (\<lambda>m.
      rbind (put_district V db (tpcc_off k) m) (put_customer V db (tpcc_off k))) = Inr m3"
    and f3: "filled V db k m {0, 1, 2} m3"
    by (rule put_head_ok [OF assms])
  show ?thesis
  proof (cases "tpcc_type k m = 0")
    case False
    then have "tpcc_type k m = 1" using wf by (simp add: tpcc_record_wf_def)
    then have "tpcc_prepare_cowns V db (tpcc_off k) m = Inr (576, m3)"
      using tpcc_type_ok [OF assms] head
      by (simp add: tpcc_prepare_cowns_def sizeof_TPCCTransactionMarshalled_def)
    moreover have "slot_area k m m3 \<and> tpcc_prepared V db k m3"
      using f3 wf False by (intro filled_prepared) (simp_all add: slots_def)
    ultimately show ?thesis by blast
  next
    case True
    let ?n = "unat (tpcc_p k m 50)"
    have n15: "?n \<le> 15" using True wf by (simp add: tpcc_record_wf_def)
    have row: "\<exists>c. slot_row db (tpcc_p k m) j = Inr (Some c)" if "j \<in> {3..<3 + ?n} \<union> {18..<18 + ?n}" for j
      using wf True that by (auto simp: tpcc_record_wf_def slots_def)
    obtain m4 where m4: "rfold (put_stock V db (tpcc_off k)) [0..<?n] m3 = Inr m4"
        "filled V db k m ({0, 1, 2} \<union> {3..<3 + ?n}) m4"
      using put_loop_ok [OF assms f3 n15, of 3 "put_stock V db (tpcc_off k)"] put_is_slot(4) [OF _ assms] row n15
      by auto
    obtain m5 where m5: "rfold (put_item V db (tpcc_off k)) [0..<?n] m4 = Inr m5"
        "filled V db k m ({0, 1, 2} \<union> {3..<3 + ?n} \<union> {18..<18 + ?n}) m5"
      using put_loop_ok [OF assms m4(2) n15, of 18 "put_item V db (tpcc_off k)"] put_is_slot(5) [OF _ assms] row n15
      by auto
    have "tpcc_param (tpcc_off k) 50 m3 = Inr (tpcc_p k m 50)" using filled_param [OF f3 assms] by simp
    then have "tpcc_prepare_cowns V db (tpcc_off k) m = Inr (576, m5)"
      using tpcc_type_ok [OF assms] head m4(1) m5(1) True
      by (auto simp: tpcc_prepare_cowns_def sizeof_TPCCTransactionMarshalled_def result_simps)
    moreover have "slot_area k m m5 \<and> tpcc_prepared V db k m5"
      using m5(2) wf True by (intro filled_prepared) (simp_all add: slots_def Un_assoc)
    ultimately show ?thesis by blast
  qed
qed

lemma tpcc_prepared_cown:
  assumes "tpcc_prepared V db k m" and "verona_ok V" and "j \<in> slots (tpcc_type k m) (unat (tpcc_p k m 50))"
  shows "tpcc_get_cown V (tpcc_off k) m j = Inr (slot_cown V db (tpcc_p k m) j)"
  using assms by (simp add: tpcc_prepared_def tpcc_get_cown_def)

lemma tpcc_parse_ok:
  assumes "tpcc_wf V db n m" and "k < n" and "tpcc_prepared V db k m"
  shows "tpcc_parse_and_process V (tpcc_off k) ts m = Inr (576, Some (tpcc_decode V db k ts m))"
proof -
  have V: "verona_ok V" and wf: "tpcc_record_wf db k m" using assms by (simp_all add: tpcc_wf_def)
  let ?n = "unat (tpcc_p k m 50)" and ?c = "slot_cown V db (tpcc_p k m)"
  have g: "tpcc_get_cown V (tpcc_off k) m j = Inr (?c j)" if "j \<in> slots (tpcc_type k m) ?n" for j
    using tpcc_prepared_cown [OF assms(3) V that] .
  have head: "tpcc_get_cown V (tpcc_off k) m 0 = Inr (?c 0)" "tpcc_get_cown V (tpcc_off k) m 1 = Inr (?c 1)"
      "tpcc_get_cown V (tpcc_off k) m 2 = Inr (?c 2)"
    by (simp_all add: g slots_def)
  show ?thesis
  proof (cases "tpcc_type k m = 0")
    case True
    have "rmapM (\<lambda>i. tpcc_get_cown V (tpcc_off k) m (3 + i)) [0..<?n] = Inr (map (\<lambda>i. ?c (3 + i)) [0..<?n])"
      using True by (intro rmapM_ok g) (simp add: slots_def)
    moreover have "rmapM (\<lambda>i. tpcc_get_cown V (tpcc_off k) m (18 + i)) [0..<?n] = Inr (map (\<lambda>i. ?c (18 + i)) [0..<?n])"
      using True by (intro rmapM_ok g) (simp add: slots_def)
    moreover have "1 \<le> ?n \<and> ?n \<le> 15" using True wf by (simp add: tpcc_record_wf_def)
    ultimately show ?thesis
      using tpcc_type_ok [OF assms(1,2)] tpcc_param_ok [OF assms(1,2), of 50] head True
      by (simp add: tpcc_parse_and_process_def tpcc_decode_def Let_def sizeof_TPCCTransactionMarshalled_def)
  next
    case False
    then have "tpcc_type k m = 1" using wf by (simp add: tpcc_record_wf_def)
    then show ?thesis
      using tpcc_type_ok [OF assms(1,2)] head
      by (simp add: tpcc_parse_and_process_def tpcc_decode_def Let_def sizeof_TPCCTransactionMarshalled_def)
  qed
qed

interpretation tpcc: txn_contract "TPCCTransaction V db" 576 4 n "tpcc_wf V db n"
    "tpcc_prepared V db" "tpcc_decode V db"
  for V :: "'c verona" and db :: "'c database" and n :: nat
proof
  fix m k
  assume wf: "tpcc_wf V db n m" and k: "k < n"
  from tpcc_prepare_ok [OF this] obtain m' where
    m': "tpcc_prepare_cowns V db (tpcc_off k) m = Inr (576, m')" "slot_area k m m'" "tpcc_prepared V db k m'"
    by blast
  then show "\<exists>m'. prepare_cowns (TPCCTransaction V db) (4 + 576 * k) m = Inr (576, m') \<and>
      tpcc_wf V db n m' \<and> tpcc_prepared V db k m' \<and>
      (\<forall>j. tpcc_prepared V db j m \<longrightarrow> tpcc_prepared V db j m') \<and>
      (\<forall>j ts. tpcc_decode V db j ts m' = tpcc_decode V db j ts m)"
    using slot_area_wf [OF m'(2) wf] slot_area_prepared [OF m'(2,3)] slot_area_decode [OF m'(2), of V db]
    by (intro exI [of _ m']) (simp add: TPCCTransaction_def tpcc_off_def)
next
  fix m k
  assume wf: "tpcc_wf V db n m" "k < n"
  have "\<exists>x. load_u64 (tpcc_slot (tpcc_off k) i) m = Inr x" if "i \<in> set [0..<33]" for i
    using tpcc_wf_load [OF wf, of "261 + 8 * i" 8] that by (auto simp: load_u64_def tpcc_slot_def add.assoc)
  then obtain g where "\<And>i. i \<in> set [0..<33] \<Longrightarrow> load_u64 (tpcc_slot (tpcc_off k) i) m = Inr (g i)"
    by metis
  then have "rmapM (\<lambda>i. load_u64 (tpcc_slot (tpcc_off k) i) m) [0..<33] = Inr (map g [0..<33])"
    by (rule rmapM_ok)
  then show "\<exists>as. prefetch_cowns (TPCCTransaction V db) (4 + 576 * k) m = Inr (576, as)"
    by (simp add: TPCCTransaction_def tpcc_prefetch_cowns_def tpcc_off_def
        sizeof_TPCCTransactionMarshalled_def del: upt_rec_numeral)
next
  fix m k ts
  assume "tpcc_wf V db n m" "k < n" "tpcc_prepared V db k m"
  then show "parse_and_process (TPCCTransaction V db) (4 + 576 * k) ts m =
      Inr (576, Some (tpcc_decode V db k ts m))"
    using tpcc_parse_ok [of V db n m k ts] by (simp add: TPCCTransaction_def tpcc_off_def)
qed

interpretation tpcc_log: log_contract "TPCCTransaction V db" 576 n "tpcc_wf V db n"
    "tpcc_prepared V db" "tpcc_decode V db"
  for V :: "'c verona" and db :: "'c database" and n :: nat
  by unfold_locales

section \<open>Serial execution\<close>

text \<open>
  With one warehouse every transaction names the same cown, so the runtime has no freedom: the
  behaviours run in spawn order.
\<close>

lemma boc_order_total:
  assumes "boc_order conflict bs ord" and "\<And>a b. a \<in> set bs \<Longrightarrow> b \<in> set bs \<Longrightarrow> conflict a b"
  shows "ord = bs"
  using assms
proof (induction rule: boc_order.induct)
  case boc_done
  show ?case by simp
next
  case (boc_pick xs b ys ord)
  then have "xs = []" by (cases xs) auto
  with boc_pick show ?case by simp
qed

lemma tpcc_common_warehouse:
  assumes "tpcc_wf V db n m" and "k < n" and "tpcc_p k m 0 = 1"
  shows "slot_cown V db (tpcc_p k m) 0 \<in> tpcc_cowns (tpcc_decode V db k ts m)"
    and "slot_cown V db (tpcc_p k m) 0 = (case get_row_addr 0 (rs_table (warehouse_table db)) of
           Inr (Some c) \<Rightarrow> c | _ \<Rightarrow> get_cown_ptr_from_addr V 0)"
  using assms(3) by (simp_all add: tpcc_cowns_def tpcc_decode_def Let_def slot_cown_def slot_row_def Warehouse_hash_key_def)

section \<open>Effects of the bodies\<close>

lemma row_of_Some [simp]: "rs_rows t c = Some r \<Longrightarrow> row_of c t = Inr r"
  by (simp add: row_of_def)

lemma set_row_simps [simp]:
  "rs_table (set_row c r t) = rs_table t" "rs_rows (set_row c r t) = (rs_rows t)(c \<mapsto> r)"
  by (simp_all add: set_row_def)

lemma restock_bounds:
  assumes "10 \<le> unat q" and "unat q \<le> 100" and "unat qty \<le> 10"
  shows "10 \<le> unat (restock q qty) \<and> unat (restock q qty) \<le> 100"
proof -
  have le: "ucast qty \<le> q" using assms by (simp add: word_le_nat_alt)
  then have u: "unat (q - ucast qty) = unat q - unat qty" by (simp add: unat_sub)
  show ?thesis
  proof (cases "q - ucast qty < 10")
    case True
    then have lt: "unat q - unat qty < 10" using u by (simp add: word_less_nat_alt)
    then have "unat (q - ucast qty + 91) = unat q - unat qty + 91"
      using u by (subst unat_add_small) simp_all
    then show ?thesis using True lt by (simp add: restock_def Let_def)
  next
    case False
    then have "10 \<le> unat q - unat qty" using u by (simp add: word_less_nat_alt not_less)
    then show ?thesis using False u assms(2) by (simp add: restock_def Let_def)
  qed
qed

text \<open>All stock quantities are between 10 and 100.\<close>

definition stock_levels_ok :: "('c, stock) row_store \<Rightarrow> bool" where
  "stock_levels_ok t \<longleftrightarrow> (\<forall>s\<in>ran (rs_rows t). 10 \<le> unat (s_quantity s) \<and> unat (s_quantity s) \<le> 100)"

lemma stock_levels_set:
  "stock_levels_ok t \<Longrightarrow> 10 \<le> unat (s_quantity s) \<Longrightarrow> unat (s_quantity s) \<le> 100 \<Longrightarrow> stock_levels_ok (set_row c s t)"
  by (auto simp: stock_levels_ok_def ran_def split: if_splits)

definition restocked :: "'c tpcc_when \<Rightarrow> nat \<Rightarrow> stock \<Rightarrow> stock" where
  "restocked b idx s = (let qty = tw_params b (35 + (idx - 1)) in
     s\<lparr>s_quantity := restock (s_quantity s) qty, s_ytd := s_ytd s + ucast qty, s_order_cnt := s_order_cnt s + 1,
       s_remote_cnt := (if tw_params b 51 = 1 then s_remote_cnt s + 1 else s_remote_cnt s)\<rparr>)"

lemma UPDATE_STOCK_ok:
  assumes "rs_rows (stock_table db) (tw_stocks b ! (idx - 1)) = Some s"
  shows "UPDATE_STOCK b idx db =
     Inr (db\<lparr>stock_table := set_row (tw_stocks b ! (idx - 1)) (restocked b idx s) (stock_table db)\<rparr>)"
  using assms by (simp add: UPDATE_STOCK_def restocked_def Let_def)

lemma restocked_levels:
  assumes "stock_levels_ok t" and "rs_rows t c = Some s" and "unat (tw_params b (35 + (idx - 1))) \<le> 10"
  shows "stock_levels_ok (set_row c (restocked b idx s) t)"
proof -
  have "s \<in> ran (rs_rows t)" using assms(2) by (rule ranI)
  then have "10 \<le> unat (s_quantity s)" "unat (s_quantity s) \<le> 100" using assms(1) by (simp_all add: stock_levels_ok_def)
  from restock_bounds [OF this assms(3)] show ?thesis
    using assms(1) by (intro stock_levels_set) (simp_all add: restocked_def Let_def)
qed

lemma WAREHOUSE_OP_ok:
  assumes "rs_rows (warehouse_table db) (tw_w b) = Some r"
  shows "WAREHOUSE_OP b db = Inr (db\<lparr>warehouse_table :=
     set_row (tw_w b) (r\<lparr>w_ytd := w_ytd r + ucast (tw_params b 52)\<rparr>) (warehouse_table db)\<rparr>)"
  using assms by (simp add: WAREHOUSE_OP_def)

lemma payment_body_ok:
  assumes "rs_rows (warehouse_table db) (tw_w b) = Some w" and "rs_rows (district_table db) (tw_d b) = Some d"
    and "rs_rows (customer_table db) (tw_c b) = Some c"
  shows "payment_body e b db = Inr (db\<lparr>
     warehouse_table := set_row (tw_w b) (w\<lparr>w_ytd := w_ytd w + ucast (tw_params b 52)\<rparr>) (warehouse_table db),
     district_table := set_row (tw_d b) (d\<lparr>d_ytd := d_ytd d + ucast (tw_params b 52)\<rparr>) (district_table db),
     customer_table := set_row (tw_c b)
       (c\<lparr>c_balance := fl e (c_balance c - fl e (of_nat (unat (tw_params b 52)))),
          c_ytd_payment := c_ytd_payment c + ucast (tw_params b 52),
          c_payment_cnt := c_payment_cnt c + 1\<rparr>) (customer_table db)\<rparr>)"
  using assms by (simp add: payment_body_def payment_work_def WAREHOUSE_OP_ok Let_def)

text \<open>
  The key a new order's line is stored under.  The order's hash key stands where the order number
  belongs, so the line lands in the slots of district \<open>2 * d - 1\<close> and order \<open>oid - 1\<close>.
\<close>

lemma Order_hash_key_static_wide:
  assumes "unat d \<le> 10" and "1 \<le> unat d" and "1 \<le> unat oid"
  shows "unat (Order_hash_key_static 1 d oid) = (unat d - 1) * 6840 + (unat oid - 1)"
  using Order_hash_key_static_unat [of 1 d oid] assms by (simp add: valid_wd_def)

lemma new_order_line_key:
  assumes "1 \<le> unat d" and "unat d \<le> 10" and "2 \<le> unat oid" and "unat oid \<le> 1100000"
    and "1 \<le> unat number" and "unat number \<le> 15"
  shows "unat (OrderLine_hash_key 1 d (Order_hash_key 1 d oid) number) =
     (2 * (unat d - 1) * 6840 + (unat oid - 2)) * 15 + (unat number - 1)"
proof -
  let ?k = "Order_hash_key 1 d oid"
  have k: "unat ?k = (unat d - 1) * 6840 + (unat oid - 1)"
    using Order_hash_key_unat [of 1 d oid] assms by (simp add: valid_wd_def)
  have "(unat d - 1) * 6840 \<le> 9 * 6840" using assms by (intro mult_le_mono1) simp
  then have b: "1 \<le> unat ?k" "unat ?k < 2000000" using k assms by auto
  have u: "unat (ucast ?k :: u32) = unat ?k"
    using b(2) by (simp add: unsigned_ucast_eq take_bit_nat_eq_self_iff)
  have s: "unat (Order_hash_key_static 1 d (ucast ?k)) = 2 * (unat d - 1) * 6840 + (unat oid - 2)"
  proof -
    have "unat (Order_hash_key_static 1 d (ucast ?k)) = (unat d - 1) * 6840 + (unat ?k - 1)"
      using Order_hash_key_static_wide [of d "ucast ?k"] u b(1) assms(1,2) by simp
    then show ?thesis using k assms(3) by linarith
  qed
  have "unat (number - 1) = unat number - 1" using assms by (simp add: unat_pred)
  moreover have "2 * (unat d - 1) * 6840 + (unat oid - 2) < 2000000"
    using assms by auto
  ultimately have "unat (Order_hash_key_static 1 d (ucast ?k) * 15 + (number - 1)) =
      (2 * (unat d - 1) * 6840 + (unat oid - 2)) * 15 + (unat number - 1)"
    using s assms(6) by (subst unat_add_small; subst unat_mult_small) auto
  then show ?thesis by (simp only: OrderLine_hash_key_def)
qed

end
