(* ===== verification/Tpcc_Replay.thy ===== *)
theory Tpcc_Replay
  imports Tpcc
begin

text \<open>
  Executing TPC-C transactions one after the other.  The lemmas give the effect of a whole new order
  on every table it touches, and an invariant under which a million transactions, as many as the
  pipeline accepts, run on the loaded database without failing.
\<close>

section \<open>New orders\<close>

definition has_room :: "nat \<Rightarrow> ('c, 'r) row_store \<Rightarrow> bool" where
  "has_room sz t \<longleftrightarrow> table_inv (rs_table t) \<and> tbl_size (rs_table t) = sz \<and> unat (tbl_cnt (rs_table t)) < sz"

text \<open>
  What a new order relies on: it names warehouse 1 and one of its districts, at most fifteen items,
  and stock and item rows that exist.
\<close>

definition items_ready :: "'c tpcc_when \<Rightarrow> 'c database \<Rightarrow> bool" where
  "items_ready b db \<longleftrightarrow>
     tw_params b 0 = 1 \<and> 1 \<le> unat (tw_params b 1) \<and> unat (tw_params b 1) \<le> 10 \<and>
     length (tw_stocks b) \<le> 15 \<and> length (tw_items b) = length (tw_stocks b) \<and>
     set (tw_stocks b) \<subseteq> dom (rs_rows (stock_table db)) \<and> set (tw_items b) \<subseteq> dom (rs_rows (item_table db))"

text \<open>The key of line \<open>idx\<close> of the new order with number \<open>oid\<close>.\<close>

definition nol_key :: "'c tpcc_when \<Rightarrow> u64 \<Rightarrow> nat \<Rightarrow> u64" where
  "nol_key b oid idx = OrderLine_hash_key (tw_params b 0) (tw_params b 1)
     (Order_hash_key (tw_params b 0) (tw_params b 1) oid) (of_nat idx)"

lemma nol_key_unat:
  assumes "items_ready b db" and "2 \<le> unat oid" and "unat oid \<le> 1100000" and "1 \<le> idx" and "idx \<le> 15"
  shows "unat (nol_key b oid idx) = (2 * (unat (tw_params b 1) - 1) * 6840 + (unat oid - 2)) * 15 + (idx - 1)"
proof -
  have "unat (of_nat idx :: u64) = idx" using assms(5) by (intro unat_of_nat_small) simp
  then show ?thesis
    using new_order_line_key [of "tw_params b 1" oid "of_nat idx"] assms
    by (simp add: nol_key_def items_ready_def)
qed

lemma nol_key_facts:
  assumes "items_ready b db" and "2 \<le> unat oid" and "unat oid \<le> 1100000" and "1 \<le> idx" and "idx \<le> 15"
  shows "unat (nol_key b oid idx) < 61560000"
    and "1 \<le> j \<Longrightarrow> j \<le> 15 \<Longrightarrow> nol_key b oid idx = nol_key b oid j \<Longrightarrow> idx = j"
proof -
  have "unat (tw_params b 1) \<le> 10" using assms(1) by (simp add: items_ready_def)
  then show "unat (nol_key b oid idx) < 61560000"
    using nol_key_unat [OF assms] assms(3,5) by auto
  assume j: "1 \<le> j" "j \<le> 15" and "nol_key b oid idx = nol_key b oid j"
  then show "idx = j" using nol_key_unat [OF assms] nol_key_unat [OF assms(1-3) j] assms(4) by simp
qed

text \<open>What the first \<open>j\<close> items of the order do to the stock rows.\<close>

definition stock_effect :: "'c tpcc_when \<Rightarrow> nat \<Rightarrow> ('c \<Rightarrow> stock option) \<Rightarrow> 'c \<Rightarrow> stock option" where
  "stock_effect b j = fold (\<lambda>idx R. R(tw_stocks b ! (idx - 1) :=
     map_option (restocked b idx) (R (tw_stocks b ! (idx - 1))))) [1..<Suc j]"

lemma stock_effect_simps [simp]:
  "stock_effect b 0 R = R"
  "stock_effect b (Suc j) R = (stock_effect b j R)(tw_stocks b ! j :=
     map_option (restocked b (Suc j)) (stock_effect b j R (tw_stocks b ! j)))"
  by (simp_all add: stock_effect_def)

text \<open>After the first \<open>j\<close> items of the order.\<close>

definition items_done ::
  "nat \<Rightarrow> (nat \<Rightarrow> 'c) \<Rightarrow> 'c tpcc_when \<Rightarrow> u64 \<Rightarrow> 'c database \<Rightarrow> nat \<Rightarrow> nat \<Rightarrow> 'c tpcc_state \<Rightarrow> bool" where
  "items_done L alloc b oid db n0 j s \<longleftrightarrow> (\<exists>st l. s = (db\<lparr>stock_table := st, order_line_table := l\<rparr>, n0 + j) \<and>
     rs_table st = rs_table (stock_table db) \<and> dom (rs_rows st) = dom (rs_rows (stock_table db)) \<and>
     rs_rows st = stock_effect b j (rs_rows (stock_table db)) \<and>
     ((\<forall>i<15. unat (tw_params b (35 + i)) \<le> 10) \<longrightarrow> stock_levels_ok (stock_table db) \<longrightarrow> stock_levels_ok st) \<and>
     lines_inv (L + j) l \<and>
     (\<forall>i. 1 \<le> i \<and> i \<le> j \<longrightarrow> get_row_addr (nol_key b oid i) (rs_table l) = Inr (Some (alloc (n0 + (i - 1))))))"

lemma items_done_step:
  assumes "items_ready b db" and "2 \<le> unat oid" and "unat oid \<le> 1100000" and "j < length (tw_stocks b)"
    and "items_done L alloc b oid db n0 j s" and L: "L + 15 \<le> 61560000"
  shows "\<exists>s'. UPDATE_STOCK_AND_INSERT_ORDER_LINE e alloc b (Order_hash_key (tw_params b 0) (tw_params b 1) oid) (Suc j) s = Inr s' \<and>
     items_done L alloc b oid db n0 (Suc j) s'"
proof -
  from assms(5) obtain st l where s: "s = (db\<lparr>stock_table := st, order_line_table := l\<rparr>, n0 + j)"
     "rs_table st = rs_table (stock_table db)" "dom (rs_rows st) = dom (rs_rows (stock_table db))"
     "(\<forall>i<15. unat (tw_params b (35 + i)) \<le> 10) \<longrightarrow> stock_levels_ok (stock_table db) \<longrightarrow> stock_levels_ok st"
     "lines_inv (L + j) l"
     "\<forall>i. 1 \<le> i \<and> i \<le> j \<longrightarrow> get_row_addr (nol_key b oid i) (rs_table l) = Inr (Some (alloc (n0 + (i - 1))))"
     "rs_rows st = stock_effect b j (rs_rows (stock_table db))"
    unfolding items_done_def by blast
  have len: "j < 15" "length (tw_items b) = length (tw_stocks b)" using assms(1,4) by (simp_all add: items_ready_def)
  let ?c = "tw_stocks b ! j"
  have "set (tw_stocks b) \<subseteq> dom (rs_rows st)" "set (tw_items b) \<subseteq> dom (rs_rows (item_table db))"
    using assms(1) s(3) by (simp_all add: items_ready_def)
  then have "?c \<in> dom (rs_rows st)" "tw_items b ! j \<in> dom (rs_rows (item_table db))"
    using nth_mem [of j "tw_stocks b"] nth_mem [of j "tw_items b"] assms(4) len(2) by (blast, metis subsetD)
  then obtain r it where r: "rs_rows st ?c = Some r" "rs_rows (item_table db) (tw_items b ! j) = Some it" by blast
  let ?st = "set_row ?c (restocked b (Suc j) r) st"
  have upd: "UPDATE_STOCK b (Suc j) (fst s) = Inr (db\<lparr>stock_table := ?st, order_line_table := l\<rparr>)"
    using UPDATE_STOCK_ok [of "fst s" b "Suc j" r] r(1) s(1) by simp
  have key: "unat (nol_key b oid (Suc j)) < 61560000" using nol_key_facts(1) [OF assms(1-3)] len(1) by simp
  have room: "table_inv (rs_table l)" "unat (tbl_cnt (rs_table l)) < tbl_size (rs_table l)"
      "unat (nol_key b oid (Suc j)) < tbl_size (rs_table l)"
    using s(5) len(1) key L by (simp_all add: lines_inv_def)
  let ?ol = "new_order_line e b (Order_hash_key (tw_params b 0) (tw_params b 1) oid) (Suc j) it"
  obtain l' where l': "insert_new_row (nol_key b oid (Suc j)) (alloc (n0 + j)) ?ol l = Inr l'" "table_inv (rs_table l')"
      "unat (tbl_cnt (rs_table l')) = Suc (unat (tbl_cnt (rs_table l)))" "tbl_size (rs_table l') = tbl_size (rs_table l)"
      "\<forall>k. get_row_addr k (rs_table l') =
         (if k = nol_key b oid (Suc j) then Inr (Some (alloc (n0 + j))) else get_row_addr k (rs_table l))"
    by (rule insert_new_row_ok [OF room, where c = "alloc (n0 + j)" and row = ?ol])
  have "INSERT_ORDER_LINE e alloc b (Order_hash_key (tw_params b 0) (tw_params b 1) oid) (Suc j)
      (db\<lparr>stock_table := ?st, order_line_table := l\<rparr>, n0 + j) =
      Inr (db\<lparr>stock_table := ?st, order_line_table := l'\<rparr>, Suc (n0 + j))"
    using r(2) l'(1) by (simp add: INSERT_ORDER_LINE_def Let_def new_order_line_def OrderLine_def nol_key_def)
  then have run: "UPDATE_STOCK_AND_INSERT_ORDER_LINE e alloc b (Order_hash_key (tw_params b 0) (tw_params b 1) oid) (Suc j) s =
      Inr (db\<lparr>stock_table := ?st, order_line_table := l'\<rparr>, Suc (n0 + j))"
    using upd s(1) by (simp add: UPDATE_STOCK_AND_INSERT_ORDER_LINE_def)
  have "stock_levels_ok ?st" if "\<forall>i<15. unat (tw_params b (35 + i)) \<le> 10" "stock_levels_ok (stock_table db)"
    using s(4) that len(1) r(1) by (intro restocked_levels) simp_all
  moreover have "get_row_addr (nol_key b oid i) (rs_table l') = Inr (Some (alloc (n0 + (i - 1))))"
    if "1 \<le> i" "i \<le> Suc j" for i
    using l'(5) s(6) that len(1) nol_key_facts(2) [OF assms(1-3), of "Suc j" i] by (cases "i = Suc j") auto
  moreover have "lines_inv (L + Suc j) l'" using s(5) l'(2-4) by (simp add: lines_inv_def)
  ultimately have "items_done L alloc b oid db n0 (Suc j) (db\<lparr>stock_table := ?st, order_line_table := l'\<rparr>, Suc (n0 + j))"
    unfolding items_done_def using s(2,3) r(1) s(7) [symmetric]
    by (intro exI [of _ ?st] exI [of _ l']) (auto simp: insert_absorb)
  with run show ?thesis by blast
qed

lemma items_loop:
  assumes "items_ready b db" and "2 \<le> unat oid" and "unat oid \<le> 1100000"
    and lines: "lines_inv L (order_line_table db)" and L: "L + 15 \<le> 61560000"
  shows "\<exists>s. rfold (UPDATE_STOCK_AND_INSERT_ORDER_LINE e alloc b (Order_hash_key (tw_params b 0) (tw_params b 1) oid))
       [1..<Suc (length (tw_stocks b))] (db, n0) = Inr s \<and>
     items_done L alloc b oid db n0 (length (tw_stocks b)) s"
proof -
  let ?f = "UPDATE_STOCK_AND_INSERT_ORDER_LINE e alloc b (Order_hash_key (tw_params b 0) (tw_params b 1) oid)"
  let ?xs = "[1..<Suc (length (tw_stocks b))]"
  have "\<exists>s. rfold ?f ?xs (db, n0) = Inr s \<and> items_done L alloc b oid db n0 (length ?xs) s"
  proof (rule rfold_prefix [where P = "\<lambda>ys. items_done L alloc b oid db n0 (length ys)"])
    show "items_done L alloc b oid db n0 (length []) (db, n0)"
      unfolding items_done_def
      using lines by (intro exI [of _ "stock_table db"] exI [of _ "order_line_table db"]) simp
  next
    fix ys x zs s
    assume xs: "?xs = ys @ x # zs" and it: "items_done L alloc b oid db n0 (length ys) s"
    have lt: "length ys < length (tw_stocks b)" using arg_cong [OF xs, of length] by (simp del: upt_Suc)
    have "?xs ! length ys = x" using xs by simp
    then have "x = Suc (length ys)" using lt by (simp del: upt_Suc)
    then show "\<exists>s'. ?f x s = Inr s' \<and> items_done L alloc b oid db n0 (length (ys @ [x])) s'"
      using items_done_step [OF assms(1-3) lt it L, of e] by simp
  qed
  then show ?thesis by (simp del: upt_Suc)
qed

text \<open>The hash keys of the order and of its new-order row agree and lie in both tables.\<close>

lemma order_key_facts:
  assumes "1 \<le> unat d" and "unat d \<le> 10" and "2 \<le> unat oid" and "unat oid \<le> 1100000"
  shows "unat (Order_hash_key 1 d oid) < 1422000"
    and "NewOrder_hash_key 1 d (ucast oid) = Order_hash_key 1 d oid"
proof -
  have "unat (Order_hash_key 1 d oid) = (unat d - 1) * 6840 + (unat oid - 1)"
    using Order_hash_key_unat [of 1 d oid] assms by (simp add: valid_wd_def)
  then show "unat (Order_hash_key 1 d oid) < 1422000" using assms by auto
  have u: "unat (ucast oid :: u32) = unat oid"
    using assms(4) by (simp add: unsigned_ucast_eq take_bit_nat_eq_self_iff)
  then have "ucast (ucast oid :: u32) = oid" by (simp only: word_unat_eq_iff unat_ucast_u32_u64)
  moreover have "1 \<le> unat (ucast oid :: u32)" using assms u by simp
  ultimately show "NewOrder_hash_key 1 d (ucast oid) = Order_hash_key 1 d oid"
    unfolding NewOrder_hash_key_eq by (metis Order_hash_key_eq)
qed

text \<open>A row store with \<open>n\<close> rows after an insertion.\<close>

definition filled_to :: "nat \<Rightarrow> nat \<Rightarrow> ('c, 'r) row_store \<Rightarrow> bool" where
  "filled_to sz n t \<longleftrightarrow> table_inv (rs_table t) \<and> tbl_size (rs_table t) = sz \<and> unat (tbl_cnt (rs_table t)) \<le> n"

lemma filled_to_insert:
  assumes "filled_to sz n t" and "n < sz" and "unat key < sz"
  obtains t' where "insert_new_row key c row t = Inr t'" "filled_to sz (Suc n) t'"
    "get_row_addr key (rs_table t') = Inr (Some c)"
    "rs_rows t' = (rs_rows t)(c \<mapsto> row)"
proof -
  have room: "table_inv (rs_table t)" "unat (tbl_cnt (rs_table t)) < tbl_size (rs_table t)"
    "unat key < tbl_size (rs_table t)" using assms by (simp_all add: filled_to_def)
  show ?thesis
    by (rule insert_new_row_ok [OF room, where c = c and row = row], rule that)
      (use assms(1) in \<open>simp_all add: filled_to_def\<close>)
qed

text \<open>The transaction after \<open>WAREHOUSE_OP\<close>: the rows it finds, and the database it leaves.\<close>

lemma new_order_work_ok:
  assumes ready: "items_ready b db"
    and d: "rs_rows (district_table db) (tw_d b) = Some d" and rng: "2 \<le> unat (d_next_o_id d)" "unat (d_next_o_id d) \<le> 1100000"
    and lines: "lines_inv L (order_line_table db)" "L + 15 \<le> 61560000"
    and room1: "filled_to 2052000 N1 (order_table db)" "N1 < 2052000"
    and room2: "filled_to 1422000 N2 (new_order_table db)" "N2 < 1422000"
  defines "oid \<equiv> d_next_o_id d"
  defines "key \<equiv> Order_hash_key (tw_params b 0) (tw_params b 1) oid" and "n \<equiv> length (tw_stocks b)"
  obtains st l t1 t2 where "new_order_work e alloc b (db, n0) = Inr (db\<lparr>
       district_table := set_row (tw_d b) (d\<lparr>d_next_o_id := oid + 1\<rparr>) (district_table db),
       stock_table := st, order_line_table := l, order_table := t1, new_order_table := t2\<rparr>, n0 + n + 2)"
    "rs_table st = rs_table (stock_table db)" "rs_rows st = stock_effect b n (rs_rows (stock_table db))"
    "dom (rs_rows st) = dom (rs_rows (stock_table db))"
    "(\<forall>i<15. unat (tw_params b (35 + i)) \<le> 10) \<longrightarrow> stock_levels_ok (stock_table db) \<longrightarrow> stock_levels_ok st"
    "lines_inv (L + 15) l"
    "\<forall>i. 1 \<le> i \<and> i \<le> n \<longrightarrow> get_row_addr (nol_key b oid i) (rs_table l) = Inr (Some (alloc (n0 + (i - 1))))"
    "filled_to 2052000 (Suc N1) t1" "get_row_addr key (rs_table t1) = Inr (Some (alloc (n0 + n)))"
    "rs_rows t1 = (rs_rows (order_table db))(alloc (n0 + n) \<mapsto> Order (tw_params b 0) (tw_params b 1) oid)"
    "filled_to 1422000 (Suc N2) t2" "get_row_addr key (rs_table t2) = Inr (Some (alloc (n0 + n + 1)))"
    "rs_rows t2 = (rs_rows (new_order_table db))(alloc (n0 + n + 1) \<mapsto> NewOrder (tw_params b 0) (tw_params b 1) (ucast oid))"
proof -
  define db2 where "db2 = db\<lparr>district_table := set_row (tw_d b) (d\<lparr>d_next_o_id := oid + 1\<rparr>) (district_table db)\<rparr>"
  have frame: "stock_table db2 = stock_table db" "order_line_table db2 = order_line_table db" "item_table db2 = item_table db"
     "order_table db2 = order_table db" "new_order_table db2 = new_order_table db" by (simp_all add: db2_def)
  have ready2: "items_ready b db2" using ready frame by (simp add: items_ready_def)
  have p: "tw_params b 0 = 1" "1 \<le> unat (tw_params b 1)" "unat (tw_params b 1) \<le> 10" "n \<le> 15"
    using ready by (simp_all add: items_ready_def n_def)
  have lines2: "lines_inv L (order_line_table db2)" using lines(1) frame by simp
  from items_loop [OF ready2 rng lines2 lines(2), of e alloc n0] obtain st l where
     it: "rfold (UPDATE_STOCK_AND_INSERT_ORDER_LINE e alloc b key) [1..<Suc n] (db2, n0) =
      Inr (db2\<lparr>stock_table := st, order_line_table := l\<rparr>, n0 + n)"
     "dom (rs_rows st) = dom (rs_rows (stock_table db))"
     "(\<forall>i<15. unat (tw_params b (35 + i)) \<le> 10) \<longrightarrow> stock_levels_ok (stock_table db) \<longrightarrow> stock_levels_ok st"
     "lines_inv (L + n) l"
     "\<forall>i. 1 \<le> i \<and> i \<le> n \<longrightarrow> get_row_addr (nol_key b oid i) (rs_table l) = Inr (Some (alloc (n0 + (i - 1))))"
     "rs_table st = rs_table (stock_table db)" "rs_rows st = stock_effect b n (rs_rows (stock_table db))"
    unfolding items_done_def key_def frame oid_def n_def by blast
  have l15: "lines_inv (L + 15) l" using it(4) p(4) by (simp add: lines_inv_def)
  have key: "unat key < 1422000" "NewOrder_hash_key 1 (tw_params b 1) (ucast oid) = key"
    unfolding key_def oid_def p(1) using order_key_facts [OF p(2,3) rng] by simp_all
  then have "unat key < 2052000" by simp
  then obtain t1 where t1: "insert_new_row key (alloc (n0 + n)) (Order (tw_params b 0) (tw_params b 1) oid) (order_table db) = Inr t1"
      "filled_to 2052000 (Suc N1) t1" "get_row_addr key (rs_table t1) = Inr (Some (alloc (n0 + n)))"
      "rs_rows t1 = (rs_rows (order_table db))(alloc (n0 + n) \<mapsto> Order (tw_params b 0) (tw_params b 1) oid)"
    by (rule filled_to_insert [OF room1])
  obtain t2 where t2: "insert_new_row key (alloc (n0 + n + 1)) (NewOrder (tw_params b 0) (tw_params b 1) (ucast oid)) (new_order_table db) = Inr t2"
      "filled_to 1422000 (Suc N2) t2" "get_row_addr key (rs_table t2) = Inr (Some (alloc (n0 + n + 1)))"
      "rs_rows t2 = (rs_rows (new_order_table db))(alloc (n0 + n + 1) \<mapsto> NewOrder (tw_params b 0) (tw_params b 1) (ucast oid))"
    by (rule filled_to_insert [OF room2 key(1)])
  have "new_order_work e alloc b (db, n0) =
      Inr (db2\<lparr>stock_table := st, order_line_table := l, order_table := t1, new_order_table := t2\<rparr>, n0 + n + 2)"
    using d it(1) t1(1) t2(1) key(2) p(1)
    by (simp add: new_order_work_def Let_def Order_def NewOrder_def db2_def key_def n_def oid_def)
  then show ?thesis using it(2,3,5-7) l15 t1 t2 by (intro that) (simp_all add: db2_def)
qed

text \<open>The whole transaction of the default build.\<close>

lemma new_order_body_ok:
  assumes ready: "items_ready b db" and w: "rs_rows (warehouse_table db) (tw_w b) = Some w"
    and d: "rs_rows (district_table db) (tw_d b) = Some d" and rng: "2 \<le> unat (d_next_o_id d)" "unat (d_next_o_id d) \<le> 1100000"
    and lines: "lines_inv L (order_line_table db)" "L + 15 \<le> 61560000"
    and room1: "filled_to 2052000 N1 (order_table db)" "N1 < 2052000"
    and room2: "filled_to 1422000 N2 (new_order_table db)" "N2 < 1422000"
  defines "oid \<equiv> d_next_o_id d"
  defines "key \<equiv> Order_hash_key (tw_params b 0) (tw_params b 1) oid" and "n \<equiv> length (tw_stocks b)"
  obtains st l t1 t2 where "new_order_body e alloc b (db, n0) = Inr (db\<lparr>
       warehouse_table := set_row (tw_w b) (w\<lparr>w_ytd := w_ytd w + ucast (tw_params b 52)\<rparr>) (warehouse_table db),
       district_table := set_row (tw_d b) (d\<lparr>d_next_o_id := oid + 1\<rparr>) (district_table db),
       stock_table := st, order_line_table := l, order_table := t1, new_order_table := t2\<rparr>, n0 + n + 2)"
    "dom (rs_rows st) = dom (rs_rows (stock_table db))"
    "(\<forall>i<15. unat (tw_params b (35 + i)) \<le> 10) \<longrightarrow> stock_levels_ok (stock_table db) \<longrightarrow> stock_levels_ok st"
    "lines_inv (L + 15) l"
    "\<forall>i. 1 \<le> i \<and> i \<le> n \<longrightarrow> get_row_addr (nol_key b oid i) (rs_table l) = Inr (Some (alloc (n0 + (i - 1))))"
    "filled_to 2052000 (Suc N1) t1" "get_row_addr key (rs_table t1) = Inr (Some (alloc (n0 + n)))"
    "rs_rows t1 = (rs_rows (order_table db))(alloc (n0 + n) \<mapsto> Order (tw_params b 0) (tw_params b 1) oid)"
    "filled_to 1422000 (Suc N2) t2" "get_row_addr key (rs_table t2) = Inr (Some (alloc (n0 + n + 1)))"
    "rs_rows t2 = (rs_rows (new_order_table db))(alloc (n0 + n + 1) \<mapsto> NewOrder (tw_params b 0) (tw_params b 1) (ucast oid))"
proof -
  define db1 where "db1 = db\<lparr>warehouse_table := set_row (tw_w b) (w\<lparr>w_ytd := w_ytd w + ucast (tw_params b 52)\<rparr>) (warehouse_table db)\<rparr>"
  have ready1: "items_ready b db1" and d1: "rs_rows (district_table db1) (tw_d b) = Some d"
      and inv1: "lines_inv L (order_line_table db1)" "filled_to 2052000 N1 (order_table db1)" "filled_to 1422000 N2 (new_order_table db1)"
    using ready d lines room1 room2 by (simp_all add: db1_def items_ready_def)
  have run: "new_order_body e alloc b (db, n0) = new_order_work e alloc b (db1, n0)"
    using w by (simp add: new_order_body_def WAREHOUSE_OP_ok db1_def)
  show ?thesis
    by (rule new_order_work_ok [OF ready1 d1 rng inv1(1) lines(2) inv1(2) room1(2) inv1(3) room2(2), of e alloc n0], rule that)
      (simp_all add: run db1_def oid_def key_def n_def)
qed

section \<open>Running transactions\<close>

text \<open>The rows a behaviour works on exist.\<close>

definition targeted :: "'c tpcc_when \<Rightarrow> 'c database \<Rightarrow> bool" where
  "targeted b db \<longleftrightarrow> tw_w b \<in> dom (rs_rows (warehouse_table db)) \<and>
     tw_d b \<in> dom (rs_rows (district_table db)) \<and> tw_c b \<in> dom (rs_rows (customer_table db)) \<and>
     (is_NewOrderWhen b \<longrightarrow> items_ready b db)"

definition quantities_ok :: "'c tpcc_when \<Rightarrow> bool" where
  "quantities_ok b \<longleftrightarrow> (is_NewOrderWhen b \<longrightarrow> (\<forall>i<15. unat (tw_params b (35 + i)) \<le> 10))"

text \<open>After \<open>N\<close> transactions: the tables that grow have room, order numbers are in range.\<close>

definition replay_inv :: "nat \<Rightarrow> 'c database \<Rightarrow> bool" where
  "replay_inv N db \<longleftrightarrow> lines_inv (450000 + 15 * N) (order_line_table db) \<and>
     filled_to 2052000 (30000 + N) (order_table db) \<and> filled_to 1422000 N (new_order_table db) \<and>
     (\<forall>d\<in>ran (rs_rows (district_table db)). 2 \<le> unat (d_next_o_id d) \<and> unat (d_next_o_id d) \<le> 3001 + N)"

text \<open>No row of the fixed tables appears or disappears.\<close>

definition same_rows :: "'c database \<Rightarrow> 'c database \<Rightarrow> bool" where
  "same_rows db db' \<longleftrightarrow> dom (rs_rows (warehouse_table db')) = dom (rs_rows (warehouse_table db)) \<and>
     dom (rs_rows (district_table db')) = dom (rs_rows (district_table db)) \<and>
     dom (rs_rows (customer_table db')) = dom (rs_rows (customer_table db)) \<and>
     dom (rs_rows (stock_table db')) = dom (rs_rows (stock_table db)) \<and>
     dom (rs_rows (item_table db')) = dom (rs_rows (item_table db))"

lemma targeted_same: "same_rows db db' \<Longrightarrow> targeted b db' = targeted b db"
  by (simp add: same_rows_def targeted_def items_ready_def)

text \<open>The new orders of the district in cown \<open>c\<close>, and the number the district gives out next.\<close>

definition orders_of :: "'c \<Rightarrow> 'c tpcc_when list \<Rightarrow> nat" where
  "orders_of c bs = length (filter (\<lambda>b. is_NewOrderWhen b \<and> tw_d b = c) bs)"

definition next_o_id :: "'c \<Rightarrow> 'c database \<Rightarrow> nat" where
  "next_o_id c db = (case rs_rows (district_table db) c of Some d \<Rightarrow> unat (d_next_o_id d) | None \<Rightarrow> 0)"

lemma replay_payment:
  assumes "targeted b db" and "replay_inv N db" and "\<not> is_NewOrderWhen b"
  shows "\<exists>db'. tpcc_body e alloc b (db, n) = Inr (db', n) \<and> replay_inv (Suc N) db' \<and> same_rows db db' \<and>
    (\<forall>c. next_o_id c db' = next_o_id c db) \<and> stock_table db' = stock_table db"
proof -
  obtain w d c where rows: "rs_rows (warehouse_table db) (tw_w b) = Some w"
      "rs_rows (district_table db) (tw_d b) = Some d" "rs_rows (customer_table db) (tw_c b) = Some c"
    using assms(1) by (auto simp: targeted_def)
  have d: "d \<in> ran (rs_rows (district_table db))" using rows(2) by (rule ranI)
  have "tpcc_body e alloc b (db, n) = rmap (\<lambda>db. (db, n)) (payment_body e b db)"
    using assms(3) by (cases b) (simp_all add: tpcc_body_def)
  then show ?thesis
    using rows d assms(2) unfolding payment_body_ok [OF rows]
    by (auto simp: replay_inv_def same_rows_def next_o_id_def lines_inv_def filled_to_def ran_def
        split: option.splits if_splits)
qed

lemma replay_new_order:
  assumes "targeted b db" and "replay_inv N db" and "is_NewOrderWhen b" and "N < 1000000"
  shows "\<exists>db' n'. tpcc_body e alloc b (db, n) = Inr (db', n') \<and> replay_inv (Suc N) db' \<and> same_rows db db' \<and>
    (\<forall>c. next_o_id c db' = next_o_id c db + (if c = tw_d b then 1 else 0)) \<and>
    (quantities_ok b \<longrightarrow> stock_levels_ok (stock_table db) \<longrightarrow> stock_levels_ok (stock_table db'))"
proof -
  have ready: "items_ready b db" using assms(1,3) by (simp add: targeted_def)
  obtain w d where w: "rs_rows (warehouse_table db) (tw_w b) = Some w"
      and d: "rs_rows (district_table db) (tw_d b) = Some d"
    using assms(1) by (auto simp: targeted_def)
  have "d \<in> ran (rs_rows (district_table db))" using d by (rule ranI)
  then have rng: "2 \<le> unat (d_next_o_id d)" "unat (d_next_o_id d) \<le> 3001 + N" "unat (d_next_o_id d) \<le> 1100000"
    using assms(2,4) by (auto simp: replay_inv_def)
  have inv: "lines_inv (450000 + 15 * N) (order_line_table db)" "filled_to 2052000 (30000 + N) (order_table db)"
      "filled_to 1422000 N (new_order_table db)"
    using assms(2) by (simp_all add: replay_inv_def)
  have bounds: "450000 + 15 * N + 15 \<le> 61560000" "30000 + N < 2052000" "N < 1422000" using assms(4) by simp_all
  have suc: "unat (d_next_o_id d + 1) = Suc (unat (d_next_o_id d))"
    using rng(3) by (subst unat_add_small) simp_all
  have body: "tpcc_body e alloc b (db, n) = new_order_body e alloc b (db, n)"
    using assms(3) by (cases b) (simp_all add: tpcc_body_def)
  show ?thesis
  proof (rule new_order_body_ok [OF ready w d rng(1,3) inv(1) bounds(1) inv(2) bounds(2) inv(3) bounds(3),
        of e alloc n])
    fix st l t1 t2
    assume run: "new_order_body e alloc b (db, n) = Inr (db\<lparr>
       warehouse_table := set_row (tw_w b) (w\<lparr>w_ytd := w_ytd w + ucast (tw_params b 52)\<rparr>) (warehouse_table db),
       district_table := set_row (tw_d b) (d\<lparr>d_next_o_id := d_next_o_id d + 1\<rparr>) (district_table db),
       stock_table := st, order_line_table := l, order_table := t1, new_order_table := t2\<rparr>, n + length (tw_stocks b) + 2)"
      (is "_ = Inr (?db', ?n')")
      and st: "dom (rs_rows st) = dom (rs_rows (stock_table db))"
      "(\<forall>i<15. unat (tw_params b (35 + i)) \<le> 10) \<longrightarrow> stock_levels_ok (stock_table db) \<longrightarrow> stock_levels_ok st"
      and grown: "lines_inv (450000 + 15 * N + 15) l" "filled_to 2052000 (Suc (30000 + N)) t1" "filled_to 1422000 (Suc N) t2"
    have "replay_inv (Suc N) ?db'"
      using grown assms(2) rng suc by (auto simp: replay_inv_def lines_inv_def ran_def split: if_splits)
    moreover have "same_rows db ?db'" using st(1) w d by (auto simp: same_rows_def)
    moreover have "next_o_id c ?db' = next_o_id c db + (if c = tw_d b then 1 else 0)" for c
      using d suc by (simp add: next_o_id_def)
    moreover have "quantities_ok b \<longrightarrow> stock_levels_ok (stock_table db) \<longrightarrow> stock_levels_ok (stock_table ?db')"
      using st(2) assms(3) by (simp add: quantities_ok_def)
    ultimately show ?thesis using run body by (intro exI [of _ ?db'] exI [of _ ?n']) simp
  qed
qed

lemma replay_step:
  assumes "targeted b db" and "replay_inv N db" and "N < 1000000"
  shows "\<exists>db' n'. tpcc_body e alloc b (db, n) = Inr (db', n') \<and> replay_inv (Suc N) db' \<and> same_rows db db' \<and>
    (\<forall>c. next_o_id c db' = next_o_id c db + orders_of c [b]) \<and>
    (quantities_ok b \<longrightarrow> stock_levels_ok (stock_table db) \<longrightarrow> stock_levels_ok (stock_table db'))"
proof (cases "is_NewOrderWhen b")
  case True
  then show ?thesis using replay_new_order [OF assms(1,2) True assms(3), of e alloc n] by (auto simp: orders_of_def)
next
  case False
  then show ?thesis using replay_payment [OF assms(1,2) False, of e alloc n] by (fastforce simp: orders_of_def)
qed

lemma replay_run:
  assumes "\<forall>b\<in>set bs. targeted b db" and "replay_inv N db" and "N + length bs \<le> 1000000"
  shows "\<exists>db' n'. rfold (tpcc_body e alloc) bs (db, n) = Inr (db', n') \<and> replay_inv (N + length bs) db' \<and>
    same_rows db db' \<and> (\<forall>c. next_o_id c db' = next_o_id c db + orders_of c bs) \<and>
    ((\<forall>b\<in>set bs. quantities_ok b) \<longrightarrow> stock_levels_ok (stock_table db) \<longrightarrow> stock_levels_ok (stock_table db'))"
  using assms
proof (induction bs arbitrary: db N n)
  case Nil
  then show ?case by (auto simp: same_rows_def orders_of_def)
next
  case (Cons b bs)
  then have "targeted b db" "N < 1000000" by simp_all
  then obtain db1 n1 where st: "tpcc_body e alloc b (db, n) = Inr (db1, n1)" "replay_inv (Suc N) db1"
      "same_rows db db1" "\<forall>c. next_o_id c db1 = next_o_id c db + orders_of c [b]"
      "quantities_ok b \<longrightarrow> stock_levels_ok (stock_table db) \<longrightarrow> stock_levels_ok (stock_table db1)"
    using replay_step [OF _ Cons.prems(2)] by blast
  have tg: "\<forall>b\<in>set bs. targeted b db1" using Cons.prems(1) targeted_same [OF st(3)] by simp
  have len: "Suc N + length bs \<le> 1000000" using Cons.prems(3) by simp
  from Cons.IH [OF tg st(2) len, of n1] obtain db2 n2 where
      "rfold (tpcc_body e alloc) bs (db1, n1) = Inr (db2, n2)" "replay_inv (Suc N + length bs) db2" "same_rows db1 db2"
      "\<forall>c. next_o_id c db2 = next_o_id c db1 + orders_of c bs"
      "(\<forall>b\<in>set bs. quantities_ok b) \<longrightarrow> stock_levels_ok (stock_table db1) \<longrightarrow> stock_levels_ok (stock_table db2)"
    by blast
  with st show ?case by (auto simp: same_rows_def orders_of_def)
qed

section \<open>Transactions of a log on the loaded database\<close>

lemma loaded_filled:
  "loaded sz cown key P xs t \<Longrightarrow> length xs \<le> n \<Longrightarrow> filled_to sz n t"
  by (simp add: loaded_def filled_to_def)

lemma loaded_found: "loaded sz cown key P xs t \<Longrightarrow> get_row_addr k (rs_table t) = Inr (Some c) \<Longrightarrow>
    c \<in> dom (rs_rows t) \<and> unat k < sz"
  by (auto simp: loaded_def get_row_addr_def split: if_splits)

lemma loaded_dom: "loaded sz cown key P xs t \<Longrightarrow> dom (rs_rows t) = cown ` set xs"
  by (simp add: loaded_def)

lemma db_loaded_replay:
  assumes "db_loaded V a db"
  shows "replay_inv 0 db" and "stock_levels_ok (stock_table db)"
proof -
  have l: "loaded 10 (district_cown V a) (\<lambda>(w, d). District_hash_key w d) district_init district_ids (district_table db)"
      "loaded 100000 (stock_cown V a) (\<lambda>(w, i). Stock_hash_key_static w i) stock_init stock_ids (stock_table db)"
      "loaded 2052000 (order_cown V a) (\<lambda>(w, d, i). Order_hash_key_static w d i) order_init order_ids (order_table db)"
      "lines_inv 450000 (order_line_table db)" "new_order_table db = new_store TSIZE_NEW_ORDER"
    using assms by (simp_all add: db_loaded_def)
  have "filled_to 2052000 30000 (order_table db)"
    using loaded_filled [OF l(3)] by (simp add: order_ids_length)
  moreover have "filled_to 1422000 0 (new_order_table db)"
    by (simp add: l(5) filled_to_def new_store_def new_table_def table_inv_def const_simps)
  moreover have "unat (d_next_o_id d) = 3001" if "d \<in> ran (rs_rows (district_table db))" for d
    using loaded_ran [OF l(1) that] by (auto simp: district_init_def)
  ultimately show "replay_inv 0 db" using l(4) by (simp add: replay_inv_def)
  show "stock_levels_ok (stock_table db)"
    unfolding stock_levels_ok_def using loaded_ran [OF l(2)] by (fastforce simp: stock_init_def)
qed

lemma loaded_next_o_id:
  assumes "db_loaded V a db" and "c \<in> dom (rs_rows (district_table db))"
  shows "next_o_id c db = 3001"
proof -
  have l: "loaded 10 (district_cown V a) (\<lambda>(w, d). District_hash_key w d) district_init district_ids (district_table db)"
    using assms(1) by (simp add: db_loaded_def)
  obtain d where "rs_rows (district_table db) c = Some d" using assms(2) by blast
  then show ?thesis using loaded_ran [OF l, of d] ranI [of "rs_rows (district_table db)" c d]
    by (fastforce simp: next_o_id_def district_init_def)
qed

text \<open>A record that names existing rows names warehouse 1 and one of its districts.\<close>

lemma named_warehouse:
  assumes "unat (Warehouse_hash_key w) < 1" and "unat (District_hash_key w d) < 10"
  shows "w = 1 \<and> 1 \<le> unat d \<and> unat d \<le> 10"
proof -
  have "unat (w - 1) = 0" using assms(1) by (simp add: Warehouse_hash_key_def)
  then have w: "w = 1" by (simp add: unat_eq_0)
  have lt: "unat (d - 1) < 10" using assms(2) by (simp add: District_hash_key_def w tpcc_consts)
  have "unat d \<noteq> 0"
  proof
    assume "unat d = 0"
    then have "d = 0" by (simp add: unat_eq_0)
    then show False using lt by (simp add: unsigned_minus_1_eq_mask mask_eq_exp_minus_1)
  qed
  then have "1 \<le> unat d" by simp
  with lt w show ?thesis by (simp add: unat_pred)
qed

lemma decoded_targeted:
  assumes "db_loaded V a db" and "tpcc_record_wf db k m"
  shows "targeted (tpcc_decode V db k ts m) db"
proof -
  let ?p = "tpcc_p k m" and ?S = "slots (tpcc_type k m) (unat (tpcc_p k m 50))"
  have row: "slot_row db ?p j = Inr (Some (slot_cown V db ?p j))" if "j \<in> ?S" for j
    using assms(2) that by (fastforce simp: tpcc_record_wf_def slot_cown_def)
  have heads: "0 \<in> ?S" "1 \<in> ?S" "2 \<in> ?S" by (simp_all add: slots_def)
  note l = assms(1) [unfolded db_loaded_def]
  have w: "slot_cown V db ?p 0 \<in> dom (rs_rows (warehouse_table db)) \<and> unat (Warehouse_hash_key (?p 0)) < 1"
    using loaded_found [OF l [THEN conjunct1]] row [OF heads(1)] by (simp add: slot_row_def)
  have d: "slot_cown V db ?p 1 \<in> dom (rs_rows (district_table db)) \<and> unat (District_hash_key (?p 0) (?p 1)) < 10"
    using loaded_found [OF l [THEN conjunct2, THEN conjunct1]] row [OF heads(2)] by (simp add: slot_row_def)
  have c: "slot_cown V db ?p 2 \<in> dom (rs_rows (customer_table db))"
    using loaded_found [OF l [THEN conjunct2, THEN conjunct2, THEN conjunct1]] row [OF heads(3)]
    by (simp add: slot_row_def)
  have items: "items_ready (tpcc_decode V db k ts m) db" if ty: "tpcc_type k m = 0"
  proof -
    have n: "unat (?p 50) \<le> 15" using assms(2) ty by (auto simp: tpcc_record_wf_def)
    have in_slots: "3 + i \<in> ?S" "18 + i \<in> ?S" if "i < unat (?p 50)" for i
      using that ty by (simp_all add: slots_def)
    have "slot_cown V db ?p (3 + i) \<in> dom (rs_rows (stock_table db))" if "i < unat (?p 50)" for i
    proof -
      have "slot_row db ?p (3 + i) = get_row_addr (Stock_hash_key_static (?p (20 + i)) (?p (5 + i))) (rs_table (stock_table db))"
        using that n by (simp add: slot_row_def)
      with row [OF in_slots(1) [OF that]] l show ?thesis using loaded_found by fastforce
    qed
    moreover have "slot_cown V db ?p (18 + i) \<in> dom (rs_rows (item_table db))" if "i < unat (?p 50)" for i
    proof -
      have "slot_row db ?p (18 + i) = get_row_addr (Item_hash_key_static (?p (5 + i))) (rs_table (item_table db))"
        by (simp add: slot_row_def)
      with row [OF in_slots(2) [OF that]] l show ?thesis using loaded_found by fastforce
    qed
    ultimately show ?thesis
      using ty n named_warehouse [OF w [THEN conjunct2] d [THEN conjunct2]]
      by (simp add: items_ready_def tpcc_decode_def Let_def image_subset_iff)
  qed
  have "tw_w (tpcc_decode V db k ts m) = slot_cown V db ?p 0" "tw_d (tpcc_decode V db k ts m) = slot_cown V db ?p 1"
    "tw_c (tpcc_decode V db k ts m) = slot_cown V db ?p 2"
    "is_NewOrderWhen (tpcc_decode V db k ts m) \<longleftrightarrow> tpcc_type k m = 0"
    by (simp_all add: tpcc_decode_def Let_def)
  with w d c items show ?thesis by (simp add: targeted_def)
qed

text \<open>A new order of one item on the loaded database.\<close>

definition sample_new_order :: "'c verona \<Rightarrow> table_addrs \<Rightarrow> 'c tpcc_when" where
  "sample_new_order V a = NewOrderWhen (warehouse_cown V a 1) (district_cown V a (1, 1)) (customer_cown V a (1, 1, 1))
     [stock_cown V a (1, 1)] [item_cown V a 1] (\<lambda>_. 1) 0"

lemma db_loaded_doms:
  assumes "db_loaded V a db"
  shows "dom (rs_rows (warehouse_table db)) = warehouse_cown V a ` set [1]"
    "dom (rs_rows (district_table db)) = district_cown V a ` set district_ids"
    "dom (rs_rows (customer_table db)) = customer_cown V a ` set customer_ids"
    "dom (rs_rows (stock_table db)) = stock_cown V a ` set stock_ids"
    "dom (rs_rows (item_table db)) = item_cown V a ` set (upto32 NUM_ITEMS)"
  using loaded_dom assms unfolding db_loaded_def by blast+

lemma sample_targeted:
  assumes "db_loaded V a db"
  shows "targeted (sample_new_order V a) db"
proof -
  have "(1, 1) \<in> set district_ids" "(1, 1, 1) \<in> set customer_ids" "(1, 1) \<in> set stock_ids"
    "1 \<in> set (upto32 NUM_ITEMS)"
    by (simp_all add: district_ids_iff customer_ids_iff stock_ids_iff upto32_set tpcc_consts)
  with db_loaded_doms [OF assms] show ?thesis
    by (simp add: targeted_def items_ready_def sample_new_order_def)
qed

text \<open>A log of payments by the first customer of the first district.\<close>

definition sample_payment :: "u8 list" where
  "sample_payment = [1] @ concat (replicate 65 (bytes_of 4 1)) @ replicate 315 0"

lemma sample_payment_loads:
  "length sample_payment = 576" "load_u8 0 sample_payment = Inr 1"
  "i < 65 \<Longrightarrow> load_u32 (1 + 4 * i) sample_payment = Inr 1"
proof -
  have len: "length (concat (replicate 65 (bytes_of 4 1))) = 260"
    by (subst length_concat_blocks [of _ 4]) auto
  then show "length sample_payment = 576" by (simp add: sample_payment_def)
  show "load_u8 0 sample_payment = Inr 1" by (simp add: sample_payment_def load_u8_def load_def)
  assume i: "i < 65"
  have "load 4 (1 + 4 * i) sample_payment = load 4 (4 * i) (concat (replicate 65 (bytes_of 4 1)) @ replicate 315 0)"
    using load_prefix [of 4 "[1 :: u8]" "4 * i"] by (simp add: sample_payment_def)
  also have "\<dots> = load 4 (4 * i + 0) (concat (replicate 65 (bytes_of 4 1)))"
    using i len by (subst load_front) simp_all
  also have "\<dots> = load 4 0 (replicate 65 (bytes_of 4 1) ! i)"
    using i by (intro load_concat) auto
  finally show "load_u32 (1 + 4 * i) sample_payment = Inr 1"
    using i by (simp add: load_u32_def load_def nat_of_bytes_bytes_of)
qed

lemma sample_payments_wf:
  assumes "db_loaded V a db" and "verona_ok V"
  shows "tpcc_wf V db n (log_of (replicate n sample_payment))"
proof -
  let ?m = "log_of (replicate n sample_payment)"
  have all: "\<forall>x\<in>set (replicate n sample_payment). length x = 576" by (simp add: sample_payment_loads)
  have ld: "load b (tpcc_off k + off) ?m = load b off sample_payment" if "k < n" "off + b \<le> 576" for k off b
    using load_log_of [OF all, of k off b] that by (simp add: tpcc_off_def)
  have "tpcc_record_wf db k ?m" if k: "k < n" for k
  proof -
    have ty: "tpcc_type k ?m = 1"
      using ld [OF k, of 0 1] sample_payment_loads(2) by (simp add: tpcc_type_def load_u8_def)
    have p: "tpcc_p k ?m i = 1" if i: "i < 65" for i
      using ld [OF k, of "1 + 4 * i" 4] sample_payment_loads(3) [OF i] i
      by (simp add: tpcc_params_def tpcc_param_def load_u32_def add.assoc)
    note l = assms(1) [unfolded db_loaded_def loaded_def]
    have "(1, 1) \<in> set district_ids" "(1, 1, 1) \<in> set customer_ids"
      by (simp_all add: district_ids_iff customer_ids_iff)
    then have "\<exists>c. slot_row db (tpcc_p k ?m) 0 = Inr (Some c)" "\<exists>c. slot_row db (tpcc_p k ?m) 1 = Inr (Some c)"
        "\<exists>c. slot_row db (tpcc_p k ?m) 2 = Inr (Some c)"
      using l by (fastforce simp: slot_row_def p)+
    with ty show ?thesis by (auto simp: tpcc_record_wf_def slots_def)
  qed
  then show ?thesis
    using assms(2) length_log_of [OF all] by (simp add: tpcc_wf_def tpcc_off_def)
qed

lemma sample_payment_log:
  obtains db rs where "tpcc_load flat_verona least_env sample_addrs = Inr (db, rs)" "db_loaded flat_verona sample_addrs db"
    "tpcc_wf flat_verona db 8 (log_of (replicate 8 sample_payment))" "log_count (log_of (replicate 8 sample_payment)) = Inr 8"
proof -
  obtain db rs where db: "tpcc_load flat_verona least_env sample_addrs = Inr (db, rs)" "db_loaded flat_verona sample_addrs db"
    using tpcc_load_ok by (metis flat_verona_ok least_env_pick least_env_shuffle)
  have cnt: "log_count (log_of (replicate 8 sample_payment)) = Inr 8" by (subst log_count_log_of) simp_all
  show ?thesis by (rule that [OF db sample_payments_wf [OF db(2) flat_verona_ok] cnt])
qed

section \<open>Properties\<close>





text \<open>
  C5. A million transactions, the most the pipeline accepts, run one after the other on the loaded
  database without an exception: every district has numbered exactly its own new orders, without
  gaps, and if no item is ordered more than ten times at once every stock level stays between 10 and
  100.
\<close>

theorem transactions_replay:
  assumes "db_loaded V a db" and "\<forall>b\<in>set bs. targeted b db" and "length bs \<le> 1000000"
  shows "\<exists>db' n'. rfold (tpcc_body e alloc) bs (db, n) = Inr (db', n') \<and>
    (\<forall>c. next_o_id c db' = next_o_id c db + orders_of c bs) \<and>
    ((\<forall>b\<in>set bs. quantities_ok b) \<longrightarrow> stock_levels_ok (stock_table db'))"
  using replay_run [OF assms(2) db_loaded_replay(1) [OF assms(1)], of e alloc n] assms(3)
    db_loaded_replay(2) [OF assms(1)] by fastforce

theorem transactions_replay_witness:
  "\<exists>db s db' n'. tpcc_load flat_verona least_env sample_addrs = Inr (db, s) \<and>
     rfold (tpcc_body least_env of_nat) (replicate 1000000 (sample_new_order flat_verona sample_addrs)) (db, 0) = Inr (db', n') \<and>
     stock_levels_ok (stock_table db')"
proof -
  let ?b = "sample_new_order flat_verona sample_addrs"
  obtain db s where db: "tpcc_load flat_verona least_env sample_addrs = Inr (db, s)" "db_loaded flat_verona sample_addrs db"
    using tpcc_load_ok by (metis flat_verona_ok least_env_pick least_env_shuffle)
  have all: "\<forall>b\<in>set (replicate 1000000 ?b). targeted b db \<and> quantities_ok b"
    using sample_targeted [OF db(2)] by (simp add: set_replicate_conv_if sample_new_order_def quantities_ok_def)
  show ?thesis
    using transactions_replay [OF db(2), of "replicate 1000000 ?b" least_env of_nat 0] all db(1)
    by (metis length_replicate order.refl)
qed




end
