(* ===== verification/Tpcc_Split.thy ===== *)
theory Tpcc_Split
  imports Tpcc_Replay
begin

text \<open>
  The \<open>WAREHOUSE_SPLIT\<close> build of \<^verbatim>\<open>app/tpcc.cc\<close>.  There the macro \<open>WHEN\<close> spawns two behaviours for
  every transaction: one that adds the amount to the warehouse and names only the warehouse's cown,
  and one with the rest of the body that names all the other cowns.  Transactions of different
  districts then no longer conflict, and the runtime may complete them in any order.
  The rows of the loaded tables do not depend on that order; what lies in the tables that grow does.
\<close>

section \<open>The build\<close>

datatype 'c split_when = WarehouseWhen "'c tpcc_when" | RestWhen "'c tpcc_when"

definition WHEN_split :: "'c tpcc_when \<Rightarrow> 'c split_when list" where
  "WHEN_split b = [WarehouseWhen b, RestWhen b]"

definition split_parse_and_process ::
  "'c verona \<Rightarrow> nat \<Rightarrow> int \<Rightarrow> mem \<Rightarrow> (nat \<times> 'c split_when list option) result" where
  "split_parse_and_process V input init_time m =
     rmap (\<lambda>(len, b). (len, map_option WHEN_split b)) (tpcc_parse_and_process V input init_time m)"

definition TPCCTransaction_split :: "'c verona \<Rightarrow> 'c database \<Rightarrow> (mem, 'c split_when list) txn_type" where
  "TPCCTransaction_split V db = \<lparr>prepare_cowns = tpcc_prepare_cowns V db, prefetch_cowns = tpcc_prefetch_cowns,
     parse_and_process = split_parse_and_process V\<rparr>"

definition split_body :: "rand_env \<Rightarrow> (nat \<Rightarrow> 'c) \<Rightarrow> 'c split_when \<Rightarrow> 'c tpcc_state \<Rightarrow> 'c tpcc_state result" where
  "split_body e alloc x s = (case x of
     WarehouseWhen b \<Rightarrow> rmap (\<lambda>db. (db, snd s)) (WAREHOUSE_OP b (fst s))
   | RestWhen b \<Rightarrow> (case b of
       NewOrderWhen _ _ _ _ _ _ _ \<Rightarrow> new_order_work e alloc b s
     | PaymentWhen _ _ _ _ _ \<Rightarrow> rmap (\<lambda>db. (db, snd s)) (payment_work e b (fst s))))"

definition split_cowns :: "'c split_when \<Rightarrow> 'c set" where
  "split_cowns x = (case x of
     WarehouseWhen b \<Rightarrow> {tw_w b}
   | RestWhen b \<Rightarrow> (case b of
       NewOrderWhen _ d c ss is _ _ \<Rightarrow> {d, c} \<union> set ss \<union> set is
     | PaymentWhen _ d c _ _ \<Rightarrow> {d, c}))"

abbreviation split_conflict :: "'c split_when \<Rightarrow> 'c split_when \<Rightarrow> bool" where
  "split_conflict x y \<equiv> split_cowns x \<inter> split_cowns y \<noteq> {}"

text \<open>The pipeline does not notice the difference: a record becomes the two behaviours of its transaction.\<close>

interpretation split: txn_contract "TPCCTransaction_split V db" 576 4 n "tpcc_wf V db n"
    "tpcc_prepared V db" "\<lambda>k ts m. WHEN_split (tpcc_decode V db k ts m)"
  for V :: "'c verona" and db :: "'c database" and n :: nat
proof
  fix m k
  assume "tpcc_wf V db n m" "k < n"
  from tpcc.prepare_law [OF this] show "\<exists>m'. prepare_cowns (TPCCTransaction_split V db) (4 + 576 * k) m = Inr (576, m') \<and>
      tpcc_wf V db n m' \<and> tpcc_prepared V db k m' \<and> (\<forall>j. tpcc_prepared V db j m \<longrightarrow> tpcc_prepared V db j m') \<and>
      (\<forall>j ts. WHEN_split (tpcc_decode V db j ts m') = WHEN_split (tpcc_decode V db j ts m))"
    by (auto simp: TPCCTransaction_split_def TPCCTransaction_def)
next
  fix m k
  assume "tpcc_wf V db n m" "k < n"
  from tpcc.prefetch_law [OF this] show "\<exists>as. prefetch_cowns (TPCCTransaction_split V db) (4 + 576 * k) m = Inr (576, as)"
    by (simp add: TPCCTransaction_split_def TPCCTransaction_def)
next
  fix m k ts
  assume "tpcc_wf V db n m" "k < n" "tpcc_prepared V db k m"
  from tpcc.parse_law [OF this] show "parse_and_process (TPCCTransaction_split V db) (4 + 576 * k) ts m =
      Inr (576, Some (WHEN_split (tpcc_decode V db k ts m)))"
    by (simp add: TPCCTransaction_split_def TPCCTransaction_def split_parse_and_process_def)
qed

interpretation split_log: log_contract "TPCCTransaction_split V db" 576 n "tpcc_wf V db n"
    "tpcc_prepared V db" "\<lambda>k ts m. WHEN_split (tpcc_decode V db k ts m)"
  for V :: "'c verona" and db :: "'c database" and n :: nat
  by unfold_locales

text \<open>Run in spawn order, the two halves are the whole transaction.\<close>

lemma split_serial:
  "rfold (split_body e alloc) (concat (map WHEN_split bs)) s = rfold (tpcc_body e alloc) bs s"
proof (induction bs arbitrary: s)
  case Nil
  show ?case by simp
next
  case (Cons b bs)
  have "rfold (split_body e alloc) (WHEN_split b) s = tpcc_body e alloc b s"
    by (cases s; cases b; cases "WAREHOUSE_OP b (fst s)")
      (auto simp: WHEN_split_def split_body_def tpcc_body_def new_order_body_def payment_body_def rbind_def rmap_def
        split: sum.splits)
  then show ?case using Cons.IH by (simp add: rfold_append rbind_def split: sum.splits)
qed

section \<open>The rows of the loaded tables\<close>

text \<open>The rows a cown leads to, in each of the tables a transaction updates.\<close>

record row_view =
  rv_w :: "warehouse option"
  rv_d :: "district option"
  rv_c :: "customer option"
  rv_s :: "stock option"

definition view :: "'c database \<Rightarrow> 'c \<Rightarrow> row_view" where
  "view db c = \<lparr>rv_w = rs_rows (warehouse_table db) c, rv_d = rs_rows (district_table db) c,
     rv_c = rs_rows (customer_table db) c, rv_s = rs_rows (stock_table db) c\<rparr>"

text \<open>What a behaviour does to them.\<close>

fun split_effect :: "rand_env \<Rightarrow> 'c split_when \<Rightarrow> ('c \<Rightarrow> row_view) \<Rightarrow> 'c \<Rightarrow> row_view" where
  "split_effect e (WarehouseWhen b) st c = (if c = tw_w b
     then (st c)\<lparr>rv_w := map_option (\<lambda>r. r\<lparr>w_ytd := w_ytd r + ucast (tw_params b 52)\<rparr>) (rv_w (st c))\<rparr> else st c)"
| "split_effect e (RestWhen b) st c = (if is_NewOrderWhen b then (st c)\<lparr>
       rv_d := (if c = tw_d b then map_option (\<lambda>d. d\<lparr>d_next_o_id := d_next_o_id d + 1\<rparr>) (rv_d (st c)) else rv_d (st c)),
       rv_s := stock_effect b (length (tw_stocks b)) (\<lambda>c. rv_s (st c)) c\<rparr>
     else (st c)\<lparr>
       rv_d := (if c = tw_d b then map_option (\<lambda>d. d\<lparr>d_ytd := d_ytd d + ucast (tw_params b 52)\<rparr>) (rv_d (st c)) else rv_d (st c)),
       rv_c := (if c = tw_c b then map_option (\<lambda>r. r\<lparr>c_balance := fl e (c_balance r - fl e (of_nat (unat (tw_params b 52)))),
           c_ytd_payment := c_ytd_payment r + ucast (tw_params b 52), c_payment_cnt := c_payment_cnt r + 1\<rparr>) (rv_c (st c))
         else rv_c (st c))\<rparr>)"

lemma stock_effect_frame: "j \<le> length (tw_stocks b) \<Longrightarrow> c \<notin> set (tw_stocks b) \<Longrightarrow> stock_effect b j R c = R c"
  by (induction j) (auto simp: Suc_le_eq)

lemma stock_effect_local: "R c = R' c \<Longrightarrow> stock_effect b j R c = stock_effect b j R' c"
  by (induction j) auto

interpretation split_rows: cown_bodies "split_effect e" split_cowns
  for e :: rand_env
proof
  fix c :: 'c and x :: "'c split_when" and st
  assume "c \<notin> split_cowns x"
  then show "split_effect e x st c = st c"
    by (cases x; cases "case x of WarehouseWhen b \<Rightarrow> b | RestWhen b \<Rightarrow> b") (auto simp: split_cowns_def stock_effect_frame)
next
  fix x :: "'c split_when" and st st' :: "'c \<Rightarrow> row_view" and c
  assume "\<And>c. c \<in> split_cowns x \<Longrightarrow> st c = st' c" "c \<in> split_cowns x"
  then have eq: "st c = st' c" by blast
  have "stock_effect b j (\<lambda>c. rv_s (st c)) c = stock_effect b j (\<lambda>c. rv_s (st' c)) c" for b :: "'c tpcc_when" and j
    by (rule stock_effect_local) (simp add: eq)
  then show "split_effect e x st c = split_effect e x st' c" by (cases x) (simp_all only: split_effect.simps eq)
qed

text \<open>The tables themselves stay, and so do items and history.\<close>

definition keeps_tables :: "'c database \<Rightarrow> 'c database \<Rightarrow> bool" where
  "keeps_tables db db' \<longleftrightarrow> same_rows db db' \<and> rs_table (warehouse_table db') = rs_table (warehouse_table db) \<and>
     rs_table (district_table db') = rs_table (district_table db) \<and>
     rs_table (customer_table db') = rs_table (customer_table db) \<and>
     rs_table (stock_table db') = rs_table (stock_table db) \<and>
     item_table db' = item_table db \<and> history_table db' = history_table db"

lemma keeps_tables_trans: "keeps_tables db db1 \<Longrightarrow> keeps_tables db1 db2 \<Longrightarrow> keeps_tables db db2"
  by (simp add: keeps_tables_def same_rows_def)

lemma keeps_tables_refl: "keeps_tables db db"
  by (simp add: keeps_tables_def same_rows_def)

definition fixed_tables_agree :: "'c database \<Rightarrow> 'c database \<Rightarrow> bool" where
  "fixed_tables_agree db db' \<longleftrightarrow> warehouse_table db' = warehouse_table db \<and> district_table db' = district_table db \<and>
     customer_table db' = customer_table db \<and> stock_table db' = stock_table db \<and>
     item_table db' = item_table db \<and> history_table db' = history_table db"

lemma fixed_tables_agreeI:
  assumes "keeps_tables db db1" and "keeps_tables db db2" and "view db1 = view db2"
  shows "fixed_tables_agree db1 db2"
proof -
  have "view db1 c = view db2 c" for c using assms(3) by simp
  then have "rs_rows (warehouse_table db1) c = rs_rows (warehouse_table db2) c"
    "rs_rows (district_table db1) c = rs_rows (district_table db2) c"
    "rs_rows (customer_table db1) c = rs_rows (customer_table db2) c"
    "rs_rows (stock_table db1) c = rs_rows (stock_table db2) c" for c
    by (simp_all add: view_def)
  then have "rs_rows (warehouse_table db1) = rs_rows (warehouse_table db2)"
    "rs_rows (district_table db1) = rs_rows (district_table db2)"
    "rs_rows (customer_table db1) = rs_rows (customer_table db2)"
    "rs_rows (stock_table db1) = rs_rows (stock_table db2)" by auto
  then show ?thesis using assms(1,2) by (simp add: fixed_tables_agree_def keeps_tables_def row_store.equality)
qed

text \<open>The order stored under a key.\<close>

definition stored_order :: "u64 \<Rightarrow> 'c database \<Rightarrow> order option" where
  "stored_order key db = (case get_row_addr key (rs_table (order_table db)) of
     Inr (Some c) \<Rightarrow> rs_rows (order_table db) c | _ \<Rightarrow> None)"

section \<open>One behaviour\<close>

fun txn_of :: "'c split_when \<Rightarrow> 'c tpcc_when" where
  "txn_of (WarehouseWhen b) = b"
| "txn_of (RestWhen b) = b"

fun is_rest :: "'c split_when \<Rightarrow> bool" where
  "is_rest (WarehouseWhen b) = False"
| "is_rest (RestWhen b) = True"

abbreviation weight :: "'c split_when \<Rightarrow> nat" where
  "weight x \<equiv> if is_rest x then 1 else 0"

lemma split_warehouse:
  assumes "targeted b db" and "replay_inv N db"
  shows "\<exists>db'. split_body e alloc (WarehouseWhen b) (db, n) = Inr (db', n) \<and> replay_inv N db' \<and> keeps_tables db db' \<and>
    view db' = split_effect e (WarehouseWhen b) (view db)"
proof -
  obtain w where w: "rs_rows (warehouse_table db) (tw_w b) = Some w" using assms(1) by (auto simp: targeted_def)
  show ?thesis
    using assms(2) w by (auto simp: split_body_def WAREHOUSE_OP_ok [OF w] replay_inv_def keeps_tables_def same_rows_def view_def fun_eq_iff)
qed

lemma split_payment:
  assumes "targeted b db" and "replay_inv N db" and "\<not> is_NewOrderWhen b"
  shows "\<exists>db'. split_body e alloc (RestWhen b) (db, n) = Inr (db', n) \<and> replay_inv (Suc N) db' \<and> keeps_tables db db' \<and>
    view db' = split_effect e (RestWhen b) (view db)"
proof -
  obtain d c where rows: "rs_rows (district_table db) (tw_d b) = Some d" "rs_rows (customer_table db) (tw_c b) = Some c"
    using assms(1) by (auto simp: targeted_def)
  have d: "d \<in> ran (rs_rows (district_table db))" using rows(1) by (rule ranI)
  have run: "split_body e alloc (RestWhen b) (db, n) = rmap (\<lambda>db. (db, n)) (payment_work e b db)"
    using assms(3) by (cases b) (simp_all add: split_body_def)
  show ?thesis
    using rows d assms(2,3) unfolding run
    by (auto simp: payment_work_def Let_def replay_inv_def keeps_tables_def same_rows_def view_def fun_eq_iff
        lines_inv_def filled_to_def ran_def split: if_splits)
qed

lemma split_new_order:
  assumes "targeted b db" and "replay_inv N db" and "is_NewOrderWhen b" and "N < 1000000"
  shows "\<exists>db' n'. split_body e alloc (RestWhen b) (db, n) = Inr (db', n') \<and> replay_inv (Suc N) db' \<and> keeps_tables db db' \<and>
    view db' = split_effect e (RestWhen b) (view db) \<and>
    (\<forall>d. rs_rows (district_table db) (tw_d b) = Some d \<longrightarrow>
       stored_order (Order_hash_key (tw_params b 0) (tw_params b 1) (d_next_o_id d)) db' =
         Some (Order (tw_params b 0) (tw_params b 1) (d_next_o_id d)))"
proof -
  have ready: "items_ready b db" using assms(1,3) by (simp add: targeted_def)
  obtain d where d: "rs_rows (district_table db) (tw_d b) = Some d" using assms(1) by (auto simp: targeted_def)
  have "d \<in> ran (rs_rows (district_table db))" using d by (rule ranI)
  then have rng: "2 \<le> unat (d_next_o_id d)" "unat (d_next_o_id d) \<le> 3001 + N" "unat (d_next_o_id d) \<le> 1100000"
    using assms(2,4) by (auto simp: replay_inv_def)
  have inv: "lines_inv (450000 + 15 * N) (order_line_table db)" "filled_to 2052000 (30000 + N) (order_table db)"
      "filled_to 1422000 N (new_order_table db)"
    using assms(2) by (simp_all add: replay_inv_def)
  have bounds: "450000 + 15 * N + 15 \<le> 61560000" "30000 + N < 2052000" "N < 1422000" using assms(4) by simp_all
  have suc: "unat (d_next_o_id d + 1) = Suc (unat (d_next_o_id d))"
    using rng(3) by (subst unat_add_small) simp_all
  have body: "split_body e alloc (RestWhen b) (db, n) = new_order_work e alloc b (db, n)"
    using assms(3) by (cases b) (simp_all add: split_body_def)
  show ?thesis
  proof (rule new_order_work_ok [OF ready d rng(1,3) inv(1) bounds(1) inv(2) bounds(2) inv(3) bounds(3), of e alloc n])
    fix st l t1 t2
    assume run: "new_order_work e alloc b (db, n) = Inr (db\<lparr>
       district_table := set_row (tw_d b) (d\<lparr>d_next_o_id := d_next_o_id d + 1\<rparr>) (district_table db),
       stock_table := st, order_line_table := l, order_table := t1, new_order_table := t2\<rparr>, n + length (tw_stocks b) + 2)"
      (is "_ = Inr (?db', ?n')")
      and st: "rs_table st = rs_table (stock_table db)"
      "rs_rows st = stock_effect b (length (tw_stocks b)) (rs_rows (stock_table db))"
      "dom (rs_rows st) = dom (rs_rows (stock_table db))"
      and grown: "lines_inv (450000 + 15 * N + 15) l" "filled_to 2052000 (Suc (30000 + N)) t1" "filled_to 1422000 (Suc N) t2"
      and ord: "get_row_addr (Order_hash_key (tw_params b 0) (tw_params b 1) (d_next_o_id d)) (rs_table t1) =
          Inr (Some (alloc (n + length (tw_stocks b))))"
        "rs_rows t1 = (rs_rows (order_table db))(alloc (n + length (tw_stocks b)) \<mapsto>
          Order (tw_params b 0) (tw_params b 1) (d_next_o_id d))"
    have "replay_inv (Suc N) ?db'"
      using grown assms(2) rng suc by (auto simp: replay_inv_def lines_inv_def ran_def split: if_splits)
    moreover have "keeps_tables db ?db'" using st(1,3) d by (auto simp: keeps_tables_def same_rows_def)
    moreover have "view ?db' = split_effect e (RestWhen b) (view db)"
      using st(2) d assms(3) by (auto simp: view_def fun_eq_iff)
    moreover have "stored_order (Order_hash_key (tw_params b 0) (tw_params b 1) (d_next_o_id d)) ?db' =
        Some (Order (tw_params b 0) (tw_params b 1) (d_next_o_id d))"
      using ord by (simp add: stored_order_def)
    ultimately show ?thesis using run body d by (intro exI [of _ ?db'] exI [of _ ?n']) simp
  qed
qed

lemma split_step:
  assumes "targeted (txn_of x) db" and "replay_inv N db" and "N + weight x \<le> 1000000"
  shows "\<exists>db' n'. split_body e alloc x (db, n) = Inr (db', n') \<and> replay_inv (N + weight x) db' \<and> keeps_tables db db' \<and>
    view db' = split_effect e x (view db)"
proof (cases x)
  case (WarehouseWhen b)
  then show ?thesis using split_warehouse [of b db N e alloc n] assms by auto
next
  case (RestWhen b)
  then show ?thesis
    using split_payment [of b db N e alloc n] split_new_order [of b db N e alloc n] assms by (cases "is_NewOrderWhen b") auto
qed

section \<open>Any completion order\<close>

lemma split_run:
  assumes "\<forall>x\<in>set xs. targeted (txn_of x) db" and "replay_inv N db" and "N + length (filter is_rest xs) \<le> 1000000"
  shows "\<exists>db' n'. rfold (split_body e alloc) xs (db, n) = Inr (db', n') \<and> keeps_tables db db' \<and>
    view db' = fold (split_effect e) xs (view db)"
  using assms
proof (induction xs arbitrary: db N n)
  case Nil
  then show ?case by (simp add: keeps_tables_refl)
next
  case (Cons x xs)
  have "targeted (txn_of x) db" "N + weight x \<le> 1000000" using Cons.prems(1,3) by (auto split: if_splits)
  then obtain db1 n1 where st: "split_body e alloc x (db, n) = Inr (db1, n1)" "replay_inv (N + weight x) db1" "keeps_tables db db1"
      "view db1 = split_effect e x (view db)"
    using split_step [OF _ Cons.prems(2)] by blast
  have "same_rows db db1" using st(3) by (simp add: keeps_tables_def)
  then have tg: "\<forall>x\<in>set xs. targeted (txn_of x) db1" using Cons.prems(1) targeted_same [of db db1] by simp
  have len: "N + weight x + length (filter is_rest xs) \<le> 1000000" using Cons.prems(3) by (simp split: if_splits)
  from Cons.IH [OF tg st(2) len, of n1] obtain db2 n2 where
      "rfold (split_body e alloc) xs (db1, n1) = Inr (db2, n2)" "keeps_tables db1 db2"
      "view db2 = fold (split_effect e) xs (view db1)" by blast
  with st show ?case using keeps_tables_trans by fastforce
qed

lemma boc_order_filter: "boc_order conflict bs ord \<Longrightarrow> length (filter P ord) = length (filter P bs)"
  by (induction rule: boc_order.induct) auto

lemma split_count: "length (filter is_rest (concat (map WHEN_split bs))) = length bs"
  by (induction bs) (simp_all add: WHEN_split_def)

lemma split_txns: "x \<in> set (concat (map WHEN_split bs)) \<Longrightarrow> txn_of x \<in> set bs"
  by (auto simp: WHEN_split_def)

lemma split_any_order:
  assumes "\<forall>b\<in>set bs. targeted b db" and "replay_inv 0 db" and "length bs \<le> 1000000"
    and "boc_order split_conflict (concat (map WHEN_split bs)) completed"
  shows "\<exists>db1 n1 db2 n2. rfold (split_body e alloc) completed (db, n) = Inr (db1, n1) \<and>
    rfold (tpcc_body e alloc) bs (db, n) = Inr (db2, n2) \<and> fixed_tables_agree db2 db1"
proof -
  let ?xs = "concat (map WHEN_split bs)"
  have tg: "\<forall>x\<in>set ?xs. targeted (txn_of x) db" using assms(1) split_txns by blast
  then have tg': "\<forall>x\<in>set completed. targeted (txn_of x) db" using boc_order_perm [OF assms(4)] by simp
  have len: "0 + length (filter is_rest ?xs) \<le> 1000000" using assms(3) by (simp add: split_count del: filter_concat)
  then have len': "0 + length (filter is_rest completed) \<le> 1000000"
    by (simp add: boc_order_filter [OF assms(4)])
  obtain db2 n2 where s2: "rfold (split_body e alloc) ?xs (db, n) = Inr (db2, n2)" "keeps_tables db db2"
      "view db2 = fold (split_effect e) ?xs (view db)"
    using split_run [OF tg assms(2) len] by blast
  obtain db1 n1 where s1: "rfold (split_body e alloc) completed (db, n) = Inr (db1, n1)" "keeps_tables db db1"
      "view db1 = fold (split_effect e) completed (view db)"
    using split_run [OF tg' assms(2) len'] by blast
  have "view db1 = view db2" using s1(3) s2(3) split_rows.boc_deterministic [OF assms(4)] by metis
  then have "fixed_tables_agree db2 db1" using fixed_tables_agreeI [OF s2(2) s1(2)] by simp
  with s1(1) s2(1) show ?thesis using split_serial [of e alloc bs "(db, n)"] by auto
qed

section \<open>Orders of different districts\<close>

text \<open>
  Two new orders of different districts, one after the other: under a key they share lies the
  second one's order.
\<close>

lemma second_order_stays:
  assumes "targeted b1 db" and "targeted b2 db" and "is_NewOrderWhen b1" and "is_NewOrderWhen b2"
    and "replay_inv N db" and "N < 999999" and "tw_d b1 \<noteq> tw_d b2"
    and "rs_rows (district_table db) (tw_d b2) = Some d2" and "targeted x db" and "targeted y db"
  shows "\<exists>db' n'. rfold (split_body e alloc) [WarehouseWhen x, WarehouseWhen y, RestWhen b1, RestWhen b2] (db, n) = Inr (db', n') \<and>
    stored_order (Order_hash_key (tw_params b2 0) (tw_params b2 1) (d_next_o_id d2)) db' =
      Some (Order (tw_params b2 0) (tw_params b2 1) (d_next_o_id d2))"
proof -
  let ?pre = "[WarehouseWhen x, WarehouseWhen y, RestWhen b1]"
  obtain dbw nw where w: "rfold (split_body e alloc) [WarehouseWhen x, WarehouseWhen y] (db, n) = Inr (dbw, nw)" "keeps_tables db dbw"
      "replay_inv N dbw" "view dbw = fold (split_effect e) [WarehouseWhen x, WarehouseWhen y] (view db)"
  proof -
    obtain db1 where w1: "split_body e alloc (WarehouseWhen x) (db, n) = Inr (db1, n)" "replay_inv N db1" "keeps_tables db db1"
        "view db1 = split_effect e (WarehouseWhen x) (view db)"
      using split_warehouse [OF assms(9,5)] by blast
    then have "targeted y db1" using assms(10) targeted_same by (auto simp: keeps_tables_def)
    then obtain db2 where "split_body e alloc (WarehouseWhen y) (db1, n) = Inr (db2, n)" "replay_inv N db2" "keeps_tables db1 db2"
        "view db2 = split_effect e (WarehouseWhen y) (view db1)"
      using split_warehouse [OF _ w1(2)] by blast
    with w1 show ?thesis using keeps_tables_trans by (intro that [of db2 n]) fastforce+
  qed
  have tg: "targeted b1 dbw" "targeted b2 dbw" using assms(1,2) w(2) targeted_same by (auto simp: keeps_tables_def)
  obtain db3 n3 where r1: "split_body e alloc (RestWhen b1) (dbw, nw) = Inr (db3, n3)" "replay_inv (Suc N) db3" "keeps_tables dbw db3"
      "view db3 = split_effect e (RestWhen b1) (view dbw)"
    using split_new_order [OF tg(1) w(3) assms(3), of e alloc nw] assms(6) by auto
  have "view db3 (tw_d b2) = split_effect e (RestWhen b1) (view dbw) (tw_d b2)" using r1(4) by simp
  then have "rv_d (view db3 (tw_d b2)) = rv_d (view db (tw_d b2))"
    using assms(3,7) w(4) by simp
  then have d2: "rs_rows (district_table db3) (tw_d b2) = Some d2" using assms(8) by (simp add: view_def)
  have "targeted b2 db3" using tg(2) r1(3) targeted_same by (auto simp: keeps_tables_def)
  then obtain db' n' where "split_body e alloc (RestWhen b2) (db3, n3) = Inr (db', n')"
      "stored_order (Order_hash_key (tw_params b2 0) (tw_params b2 1) (d_next_o_id d2)) db' =
         Some (Order (tw_params b2 0) (tw_params b2 1) (d_next_o_id d2))"
    using split_new_order [OF _ r1(2) assms(4), of e alloc n3] assms(6) d2 by auto
  moreover have "rfold (split_body e alloc) ?pre (db, n) = Inr (db3, n3)"
    using rfold_append [of "split_body e alloc" "[WarehouseWhen x, WarehouseWhen y]" "[RestWhen b1]" "(db, n)"] w(1) r1(1)
    by simp
  ultimately show ?thesis
    using rfold_append [of "split_body e alloc" ?pre "[RestWhen b2]" "(db, n)"] by simp
qed

lemma overtaking_order:
  assumes "\<not> split_conflict (RestWhen b1) (WarehouseWhen b2)" and "\<not> split_conflict (RestWhen b1) (RestWhen b2)"
  shows "boc_order split_conflict (concat (map WHEN_split [b1, b2]))
      [WarehouseWhen b1, WarehouseWhen b2, RestWhen b1, RestWhen b2]" (is ?A)
    and "boc_order split_conflict (concat (map WHEN_split [b1, b2]))
      [WarehouseWhen b1, WarehouseWhen b2, RestWhen b2, RestWhen b1]" (is ?B)
proof -
  have spawned: "concat (map WHEN_split [b1, b2]) = [] @ WarehouseWhen b1 # [RestWhen b1] @ [WarehouseWhen b2, RestWhen b2]"
    by (simp add: WHEN_split_def)
  have front: "boc_order split_conflict ([RestWhen b1] @ [WarehouseWhen b2, RestWhen b2]) (WarehouseWhen b2 # ord) \<Longrightarrow>
      boc_order split_conflict (concat (map WHEN_split [b1, b2])) (WarehouseWhen b1 # WarehouseWhen b2 # ord)" for ord
    unfolding spawned by (rule boc_pick) simp_all
  have next_w: "boc_order split_conflict [RestWhen b1, RestWhen b2] ord \<Longrightarrow>
      boc_order split_conflict ([RestWhen b1] @ [WarehouseWhen b2, RestWhen b2]) (WarehouseWhen b2 # ord)" for ord
    using boc_pick [of "[RestWhen b1]" split_conflict "WarehouseWhen b2" "[RestWhen b2]" ord] assms(1) by simp
  show ?A by (rule front, rule next_w, rule boc_order_serial)
  have "boc_order split_conflict [RestWhen b1, RestWhen b2] [RestWhen b2, RestWhen b1]"
    using boc_pick [of "[RestWhen b1]" split_conflict "RestWhen b2" "[]" "[RestWhen b1]"] assms(2)
      boc_order_serial [of split_conflict "[RestWhen b1]"] by simp
  then show ?B by (intro front next_w)
qed

text \<open>A new order of one item in the second district.\<close>

definition sample_new_order_2 :: "'c verona \<Rightarrow> table_addrs \<Rightarrow> 'c tpcc_when" where
  "sample_new_order_2 V a = NewOrderWhen (warehouse_cown V a 1) (district_cown V a (1, 2)) (customer_cown V a (1, 2, 1))
     [stock_cown V a (1, 2)] [item_cown V a 2] (\<lambda>i. if i = 1 then 2 else 1) 0"

lemma sample_targeted_2:
  assumes "db_loaded V a db"
  shows "targeted (sample_new_order_2 V a) db"
proof -
  note dom = db_loaded_doms [OF assms]
  have "(1, 2) \<in> set district_ids" "(1, 2, 1) \<in> set customer_ids" "(1, 2) \<in> set stock_ids"
    "2 \<in> set (upto32 NUM_ITEMS)"
    by (simp_all add: district_ids_iff customer_ids_iff stock_ids_iff upto32_set tpcc_consts)
  with dom show ?thesis
    by (simp add: targeted_def items_ready_def sample_new_order_2_def)
qed

section \<open>Properties\<close>

text \<open>
  C11. The \<open>WAREHOUSE_SPLIT\<close> build of TPC-C from end to end: over any well-formed log the pipeline
  reaches no access outside the log, it spawns two behaviours for each transaction of the log in log
  order, and whatever completion order the runtime chooses, up to a million transactions run without
  an exception and leave warehouses, districts, customers, stock, items and history exactly as the
  default build leaves them after running the transactions of the log one by one.
\<close>

theorem split_build_agrees:
  assumes "spsc_ok Q items" and "verona_ok V" and "pick_ok e" and "shuffle_ok e"
    and "tpcc_load V e a = Inr (db, rs)"
    and "build_pipelines m wc batch0 reg0 exec0 print0 q1 q2 start = Inr s0"
    and "tpcc_wf V db n m" and "log_count m = Inr n" and "8 \<le> n" and "items q1 = []" and "items q2 = []"
    and "pipe_reachable Q (TPCCTransaction_split V db) s0 s" and "rpc_i (p_rpc s) \<le> n"
    and "boc_order (\<lambda>x y. split_cowns x \<inter> split_cowns y \<noteq> {}) (concat (p_spawned s)) completed"
  shows "\<not> pipe_fault Q (TPCCTransaction_split V db) s \<and>
    (\<exists>W bs db1 k1 db2 k2. n - 4 < W \<and>
       bs = map (\<lambda>j. tpcc_decode V db (record_of W j) (p_times s j) m) [0..<length (p_spawned s)] \<and>
       p_spawned s = map WHEN_split bs \<and>
       rfold (split_body e' alloc) completed (db, k) = Inr (db1, k1) \<and>
       rfold (tpcc_body e' alloc) bs (db, k) = Inr (db2, k2) \<and>
       warehouse_table db1 = warehouse_table db2 \<and> district_table db1 = district_table db2 \<and>
       customer_table db1 = customer_table db2 \<and> stock_table db1 = stock_table db2 \<and>
       item_table db1 = item_table db2 \<and> history_table db1 = history_table db2)"
proof -
  have db: "db_loaded V a db" using tpcc_load_ok [OF assms(3,2,4), of a] assms(5) by auto
  note run = assms(1,6-13)
  obtain W where W: "n - 4 < W" "length (p_spawned s) \<le> rpc_i (p_rpc s)"
      "p_spawned s = map (\<lambda>j. WHEN_split (tpcc_decode V db (record_of W j) (p_times s j) m)) [0..<length (p_spawned s)]"
    using split_log.run_spawned [OF run] by blast
  define bs where "bs = map (\<lambda>j. tpcc_decode V db (record_of W j) (p_times s j) m) [0..<length (p_spawned s)]"
  have spawned: "p_spawned s = map WHEN_split bs" using W(3) by (simp add: bs_def comp_def)
  have "record_of W j < n" if "j < length (p_spawned s)" for j
    using record_of_lt [OF W(1) assms(9) that] W(2) assms(13) by simp
  then have tg: "\<forall>b\<in>set bs. targeted b db"
    using decoded_targeted [OF db] assms(7) by (auto simp: bs_def tpcc_wf_def)
  have len: "length bs \<le> 1000000"
    using W(2) pipe_reachable_rpc_limit [OF assms(12) build_pipelines_rpc [OF assms(6)]] by (simp add: bs_def)
  obtain db1 n1 db2 n2 where res: "rfold (split_body e' alloc) completed (db, k) = Inr (db1, n1)"
      "rfold (tpcc_body e' alloc) bs (db, k) = Inr (db2, n2)" and agree: "fixed_tables_agree db2 db1"
    using split_any_order [OF tg db_loaded_replay(1) [OF db] len assms(14) [unfolded spawned]] by blast
  show ?thesis
    by (rule conjI [OF split_log.run_no_fault [OF run]], rule exI [of _ W], rule exI [of _ bs], rule exI [of _ db1],
        rule exI [of _ n1], rule exI [of _ db2], rule exI [of _ n2])
      (use W(1) bs_def spawned res agree [unfolded fixed_tables_agree_def] in blast)
qed

theorem split_build_agrees_witness:
  "\<exists>db rs m s0 s db1 k1. tpcc_load flat_verona least_env sample_addrs = Inr (db, rs) \<and>
     build_pipelines m 4 0 False 0 0 [] [] 0 = Inr s0 \<and>
     pipe_reachable list_ring (TPCCTransaction_split flat_verona db) s0 s \<and> length (p_spawned s) = 8 \<and>
     rfold (split_body least_env of_nat) (concat (p_spawned s)) (db, 0) = Inr (db1, k1)"
proof (rule sample_payment_log)
  fix db rs
  let ?m = "log_of (replicate 8 sample_payment)"
  assume db: "tpcc_load flat_verona least_env sample_addrs = Inr (db, rs)" and wf: "tpcc_wf flat_verona db 8 ?m"
    and cnt: "log_count ?m = Inr 8"
  obtain s0 :: "(int list, mem, u64 split_when list) pipeline" where s0: "build_pipelines ?m 4 0 False 0 0 [] [] 0 = Inr s0"
    by (rule log_count_image [OF cnt])
  obtain s where s: "pipe_reachable list_ring (TPCCTransaction_split flat_verona db) s0 s"
      "rpc_i (p_rpc s) = 8" "length (p_spawned s) = 8"
    using split_log.run_exists [OF list_ring_ok s0 wf cnt, of 8] by auto
  from split_build_agrees [OF list_ring_ok flat_verona_ok least_env_pick least_env_shuffle db s0 wf cnt _ _ _ s(1) _
      boc_order_serial, of least_env of_nat 0] s(2)
  obtain db1 k1 where "rfold (split_body least_env of_nat) (concat (p_spawned s)) (db, 0) = Inr (db1, k1)" by auto
  with db s0 s(1,3) show ?thesis by blast
qed

text \<open>
  C36. The tables that grow are not protected by any cown.  Two new orders of different districts whose
  order numbers give the same hash key do not conflict in the \<open>WAREHOUSE_SPLIT\<close> build, so the runtime
  may complete them in either order, and the order found under that key afterwards is that of the
  one or of the other.
\<close>

theorem split_orders_overwritten:
  assumes "replay_inv N db" and "N < 999999" and "targeted b1 db" and "targeted b2 db"
    and "is_NewOrderWhen b1" and "is_NewOrderWhen b2"
    and "rs_rows (district_table db) (tw_d b1) = Some d1" and "rs_rows (district_table db) (tw_d b2) = Some d2"
    and "split_cowns (RestWhen b1) \<inter> split_cowns (WarehouseWhen b2) = {}"
    and "split_cowns (RestWhen b1) \<inter> split_cowns (RestWhen b2) = {}"
    and "tw_params b1 1 \<noteq> tw_params b2 1"
    and "key = Order_hash_key 1 (tw_params b1 1) (d_next_o_id d1)"
    and "key = Order_hash_key 1 (tw_params b2 1) (d_next_o_id d2)"
  shows "\<exists>completed1 completed2 db1 k1 db2 k2.
    boc_order (\<lambda>x y. split_cowns x \<inter> split_cowns y \<noteq> {}) (concat (map WHEN_split [b1, b2])) completed1 \<and>
    boc_order (\<lambda>x y. split_cowns x \<inter> split_cowns y \<noteq> {}) (concat (map WHEN_split [b1, b2])) completed2 \<and>
    rfold (split_body e alloc) completed1 (db, k) = Inr (db1, k1) \<and>
    rfold (split_body e alloc) completed2 (db, k) = Inr (db2, k2) \<and>
    stored_order key db1 = Some (Order 1 (tw_params b2 1) (d_next_o_id d2)) \<and>
    stored_order key db2 = Some (Order 1 (tw_params b1 1) (d_next_o_id d1)) \<and> stored_order key db1 \<noteq> stored_order key db2"
proof -
  have "tw_d b1 \<in> split_cowns (RestWhen b1)" "tw_d b2 \<in> split_cowns (RestWhen b2)"
    using assms(5,6) by (cases b1, simp_all add: split_cowns_def) (cases b2, simp_all)
  then have ne: "tw_d b1 \<noteq> tw_d b2" using assms(10) by auto
  have p: "tw_params b1 0 = 1" "tw_params b2 0 = 1" using assms(3-6) by (simp_all add: targeted_def items_ready_def)
  note orders = overtaking_order [of b1 b2]
  obtain db1 k1 where r1: "rfold (split_body e alloc) [WarehouseWhen b1, WarehouseWhen b2, RestWhen b1, RestWhen b2] (db, k) = Inr (db1, k1)"
      "stored_order key db1 = Some (Order 1 (tw_params b2 1) (d_next_o_id d2))"
    using second_order_stays [OF assms(3-6,1,2) ne assms(8,3,4), of e alloc k] assms(13) p by auto
  obtain db2 k2 where r2: "rfold (split_body e alloc) [WarehouseWhen b1, WarehouseWhen b2, RestWhen b2, RestWhen b1] (db, k) = Inr (db2, k2)"
      "stored_order key db2 = Some (Order 1 (tw_params b1 1) (d_next_o_id d1))"
    using second_order_stays [OF assms(4,3,6,5,1,2) ne [symmetric] assms(7,3,4), of e alloc k] assms(12) p by auto
  have "stored_order key db1 \<noteq> stored_order key db2" using r1(2) r2(2) assms(11) by (simp add: Order_def)
  with orders assms(9,10) r1 r2 show ?thesis by blast
qed

theorem split_orders_overwritten_witness:
  "\<exists>db completed1 completed2 db1 k1 db2 k2. let bs = [sample_new_order flat_verona sample_addrs, sample_new_order_2 flat_verona sample_addrs] in
    boc_order (\<lambda>x y. split_cowns x \<inter> split_cowns y \<noteq> {}) (concat (map WHEN_split bs)) completed1 \<and>
    boc_order (\<lambda>x y. split_cowns x \<inter> split_cowns y \<noteq> {}) (concat (map WHEN_split bs)) completed2 \<and>
    rfold (split_body least_env of_nat) completed1 (db, 0) = Inr (db1, k1) \<and>
    rfold (split_body least_env of_nat) completed2 (db, 0) = Inr (db2, k2) \<and>
    stored_order 9840 db1 \<noteq> stored_order 9840 db2"
proof -
  let ?b1 = "sample_new_order flat_verona sample_addrs" and ?b2 = "sample_new_order_2 flat_verona sample_addrs"
  obtain db0 rs where db0: "tpcc_load flat_verona least_env sample_addrs = Inr (db0, rs)" "db_loaded flat_verona sample_addrs db0"
    by (rule sample_payment_log)
  have tg: "targeted ?b1 db0" "targeted ?b2 db0" using sample_targeted [OF db0(2)] sample_targeted_2 [OF db0(2)] .
  obtain db n where run: "rfold (tpcc_body least_env of_nat) (replicate 6840 ?b1) (db0, 0) = Inr (db, n)"
      "replay_inv 6840 db" "same_rows db0 db" "\<forall>c. next_o_id c db = next_o_id c db0 + orders_of c (replicate 6840 ?b1)"
    using replay_run [of "replicate 6840 ?b1" db0 0 least_env of_nat 0] tg(1) db_loaded_replay(1) [OF db0(2)] by auto
  have tg': "targeted ?b1 db" "targeted ?b2 db" using tg targeted_same [OF run(3)] by simp_all
  then obtain d1 d2 where d: "rs_rows (district_table db) (tw_d ?b1) = Some d1" "rs_rows (district_table db) (tw_d ?b2) = Some d2"
    by (auto simp: targeted_def)
  have cowns: "tw_d ?b1 = 0x1000" "tw_d ?b2 = 0x1400"
    by (simp_all add: sample_new_order_def sample_new_order_2_def district_cown_def sample_addrs_def District_hash_key_def tpcc_consts)
  have first: "next_o_id (tw_d ?b1) db0 = 3001" "next_o_id (tw_d ?b2) db0 = 3001"
    using loaded_next_o_id [OF db0(2)] tg unfolding targeted_def by blast+
  have "unat (d_next_o_id d1) = 9841"
    using run(4) [rule_format, of "tw_d ?b1"] first d(1) by (simp add: next_o_id_def orders_of_def sample_new_order_def)
  moreover have "unat (d_next_o_id d2) = 3001"
    using run(4) [rule_format, of "tw_d ?b2"] first d(2) cowns by (simp add: next_o_id_def orders_of_def)
  ultimately have keys: "Order_hash_key 1 (tw_params ?b1 1) (d_next_o_id d1) = 9840"
      "Order_hash_key 1 (tw_params ?b2 1) (d_next_o_id d2) = 9840"
    using Order_hash_key_unat [of 1 1 "d_next_o_id d1"] Order_hash_key_unat [of 1 2 "d_next_o_id d2"]
    by (simp_all add: word_unat_eq_iff valid_wd_def sample_new_order_def sample_new_order_2_def)
  have "split_cowns (RestWhen ?b1) \<inter> split_cowns (WarehouseWhen ?b2) = {}"
    "split_cowns (RestWhen ?b1) \<inter> split_cowns (RestWhen ?b2) = {}" "is_NewOrderWhen ?b1" "is_NewOrderWhen ?b2"
    by (simp_all add: split_cowns_def sample_new_order_def sample_new_order_2_def sample_addrs_def district_cown_def customer_cown_def
        stock_cown_def item_cown_def warehouse_cown_def District_hash_key_def Customer_hash_key_def Stock_hash_key_static_def
        Item_hash_key_static_def Warehouse_hash_key_def tpcc_consts)
  then show ?thesis
    using split_orders_overwritten [OF run(2) _ tg' _ _ d, of 9840 least_env of_nat 0] keys
    by (simp add: Let_def sample_new_order_def sample_new_order_2_def) blast
qed

end
