(* ===== verification/Ycsb.thy ===== *)
theory Ycsb
  imports Progress
begin

text \<open>
  The YCSB application \<^verbatim>\<open>app/ycsb.cc\<close>: the packed 128-byte record, the three static member functions
  the pipeline calls, the body of a transaction, and the loop of \<open>main\<close> that creates the rows.  The
  build is that of the README (\<open>INDEXER\<close>, \<open>RPC_LATENCY\<close>, \<open>LOG_LATENCY\<close>, rows held in the cowns).  The
  runtime's address functions are the argument \<open>V\<close>.  The transaction type is shown to satisfy the
  contract of the pipeline, and the bodies the contract of behaviours.
\<close>

section \<open>Constants and layout\<close>

definition ROWS_PER_TX :: nat where
  "ROWS_PER_TX = 10"

definition ROW_SIZE :: nat where
  "ROW_SIZE = 900"

definition WRITE_SIZE :: nat where
  "WRITE_SIZE = 100"

definition COWN_STRIDE :: u64 where
  "COWN_STRIDE = 1024"

text \<open>\<open>YCSBTransactionMarshalled\<close>, packed: the offsets of its fields and its size.\<close>

definition txm_indices :: "nat \<Rightarrow> nat \<Rightarrow> nat" where
  "txm_indices input i = input + 4 * i"

definition txm_write_set :: "nat \<Rightarrow> nat" where
  "txm_write_set input = input + 40"

definition txm_cown_ptrs :: "nat \<Rightarrow> nat \<Rightarrow> nat" where
  "txm_cown_ptrs input i = input + 42 + 8 * i"

definition sizeof_YCSBTransactionMarshalled :: nat where
  "sizeof_YCSBTransactionMarshalled = 128"

lemmas ycsb_layout = txm_indices_def txm_write_set_def txm_cown_ptrs_def
  sizeof_YCSBTransactionMarshalled_def ROWS_PER_TX_def

section \<open>The transaction class\<close>

text \<open>A spawned transaction: the cowns it names, and what its lambda captures.\<close>

record 'c ycsb_when =
  yw_rows :: "'c list"
  yw_ws_cap :: u16
  yw_init_time :: int

definition ycsb_prepare_cowns :: "'c verona \<Rightarrow> 'c index \<Rightarrow> nat \<Rightarrow> mem \<Rightarrow> (nat \<times> mem) result" where
  "ycsb_prepare_cowns V index input m =
     rmap (Pair sizeof_YCSBTransactionMarshalled)
       (rfold (\<lambda>i m.
          rbind (load_u32 (txm_indices input i) m) (\<lambda>key.
          rbind (index_get_row (ucast key) index) (\<lambda>cown.
            case cown of
              None \<Rightarrow> Inl NullCown
            | Some c \<Rightarrow> store_u64 (txm_cown_ptrs input i) (get_base_addr V c) m)))
        [0..<ROWS_PER_TX] m)"

definition ycsb_prefetch_cowns :: "nat \<Rightarrow> mem \<Rightarrow> (nat \<times> u64 list) result" where
  "ycsb_prefetch_cowns input m =
     rmap (Pair sizeof_YCSBTransactionMarshalled)
       (rmapM (\<lambda>i. load_u64 (txm_cown_ptrs input i) m) [0..<ROWS_PER_TX])"

definition ycsb_parse_and_process ::
  "'c verona \<Rightarrow> nat \<Rightarrow> int \<Rightarrow> mem \<Rightarrow> (nat \<times> 'c ycsb_when option) result" where
  "ycsb_parse_and_process V input init_time m =
     rbind (load_u16 (txm_write_set input) m) (\<lambda>ws_cap.
     rbind (rmapM (\<lambda>i. rmap (get_cown_ptr_from_addr V) (load_u64 (txm_cown_ptrs input i) m))
              [0..<ROWS_PER_TX]) (\<lambda>rows.
       Inr (sizeof_YCSBTransactionMarshalled,
            Some \<lparr>yw_rows = rows, yw_ws_cap = ws_cap, yw_init_time = init_time\<rparr>)))"

definition YCSBTransaction :: "'c verona \<Rightarrow> 'c index \<Rightarrow> (mem, 'c ycsb_when) txn_type" where
  "YCSBTransaction V index =
     \<lparr>prepare_cowns = ycsb_prepare_cowns V index, prefetch_cowns = ycsb_prefetch_cowns,
      parse_and_process = ycsb_parse_and_process V\<rparr>"

section \<open>The body of a transaction\<close>

text \<open>
  \<open>sum += payload[j]\<close> over the row, in \<open>uint8_t\<close>; \<open>memset\<close> of the first \<open>WRITE_SIZE\<close> bytes.  Rows live
  in a store indexed by cowns, so that two of the ten names may be the same row.
\<close>

definition read_row :: "u8 list \<Rightarrow> u8 \<Rightarrow> u8" where
  "read_row payload acc = fold (\<lambda>b s. s + b) (take ROW_SIZE payload) acc"

definition memset_row :: "u8 \<Rightarrow> u8 list \<Rightarrow> u8 list" where
  "memset_row v payload = replicate WRITE_SIZE v @ drop WRITE_SIZE payload"

definition TXN :: "'c \<Rightarrow> u8 \<times> u16 \<times> ('c \<Rightarrow> u8 list) \<Rightarrow> u8 \<times> u16 \<times> ('c \<Rightarrow> u8 list)" where
  "TXN acq_row s = (case s of (acc, write_set_l, st) \<Rightarrow>
     if write_set_l AND 1 \<noteq> 0
     then (acc, drop_bit 1 write_set_l, st(acq_row := memset_row acc (st acq_row)))
     else (read_row (st acq_row) acc, drop_bit 1 write_set_l, st))"

definition ycsb_body :: "'c ycsb_when \<Rightarrow> ('c \<Rightarrow> u8 list) \<Rightarrow> ('c \<Rightarrow> u8 list)" where
  "ycsb_body w st = snd (snd (fold TXN (yw_rows w) (0, yw_ws_cap w, st)))"

text \<open>The behaviour as worker \<open>t\<close> runs it: the rows, then \<open>M_LOG_LATENCY\<close>.\<close>

definition ycsb_run ::
  "(int \<Rightarrow> u32) \<Rightarrow> 't \<Rightarrow> int \<Rightarrow> 'c ycsb_when \<Rightarrow> ('c \<Rightarrow> u8 list) \<times> 't counters \<Rightarrow> ('c \<Rightarrow> u8 list) \<times> 't counters" where
  "ycsb_run to_us t now w s =
     (ycsb_body w (fst s), log_then_incr to_us t (yw_init_time w) now (snd s))"

section \<open>Creating the rows\<close>

text \<open>
  One pass of the loop of \<open>main\<close>, for the \<open>COWN_STRIDE\<close> of a build: build the cown at its place,
  check its distance from the previous one, insert it.
\<close>

definition ycsb_load_step :: "u64 \<Rightarrow> 'c verona \<Rightarrow> u64 \<Rightarrow> nat \<Rightarrow> u64 \<times> 'c index \<Rightarrow> (u64 \<times> 'c index) result" where
  "ycsb_load_step stride V cown_arr_addr i s = (case s of (cown_prev_addr, index) \<Rightarrow>
     let cown_r = make_cown_custom V (cown_arr_addr + stride * of_nat i) in
     if 0 < i \<and> get_base_addr V cown_r - cown_prev_addr \<noteq> stride then Inl AssertFailed
     else rmap (\<lambda>(_, index'). (get_base_addr V cown_r, index')) (index_insert_row cown_r index))"

definition ycsb_load :: "'c verona \<Rightarrow> u64 \<Rightarrow> nat \<Rightarrow> 'c index result" where
  "ycsb_load V cown_arr_addr rows = rmap snd (rfold (ycsb_load_step COWN_STRIDE V cown_arr_addr) [0..<rows] (0, new_index))"

section \<open>Records of the log\<close>

definition ycsb_off :: "nat \<Rightarrow> nat" where
  "ycsb_off k = 4 + 128 * k"

definition ycsb_key :: "mem \<Rightarrow> nat \<Rightarrow> nat \<Rightarrow> u64" where
  "ycsb_key m k i = (case load_u32 (txm_indices (ycsb_off k) i) m of Inr key \<Rightarrow> ucast key | Inl _ \<Rightarrow> 0)"

definition ycsb_ws :: "mem \<Rightarrow> nat \<Rightarrow> u16" where
  "ycsb_ws m k = (case load_u16 (txm_write_set (ycsb_off k)) m of Inr ws \<Rightarrow> ws | Inl _ \<Rightarrow> 0)"

definition row_at :: "'c verona \<Rightarrow> 'c index \<Rightarrow> u64 \<Rightarrow> 'c" where
  "row_at V index key = (case index_get_row key index of
     Inr (Some c) \<Rightarrow> c | _ \<Rightarrow> get_cown_ptr_from_addr V 0)"

text \<open>What record \<open>k\<close> means: a transaction on the rows its ten indices name.\<close>

definition ycsb_decode :: "'c verona \<Rightarrow> 'c index \<Rightarrow> nat \<Rightarrow> int \<Rightarrow> mem \<Rightarrow> 'c ycsb_when" where
  "ycsb_decode V index k ts m =
     \<lparr>yw_rows = map (\<lambda>i. row_at V index (ycsb_key m k i)) [0..<ROWS_PER_TX],
      yw_ws_cap = ycsb_ws m k, yw_init_time = ts\<rparr>"

definition ycsb_prepared :: "'c verona \<Rightarrow> 'c index \<Rightarrow> nat \<Rightarrow> mem \<Rightarrow> bool" where
  "ycsb_prepared V index k m \<longleftrightarrow> (\<forall>i<ROWS_PER_TX. load_u64 (txm_cown_ptrs (ycsb_off k) i) m =
     Inr (get_base_addr V (row_at V index (ycsb_key m k i))))"

text \<open>A log of \<open>n\<close> records whose indices all name rows.\<close>

definition ycsb_wf :: "'c verona \<Rightarrow> 'c index \<Rightarrow> nat \<Rightarrow> mem \<Rightarrow> bool" where
  "ycsb_wf V index n m \<longleftrightarrow> verona_ok V \<and> length m = ycsb_off n \<and>
     (\<forall>k<n. \<forall>i<ROWS_PER_TX. \<exists>c. index_get_row (ycsb_key m k i) index = Inr (Some c))"

lemma ycsb_wf_row:
  "ycsb_wf V index n m \<Longrightarrow> k < n \<Longrightarrow> i < ROWS_PER_TX \<Longrightarrow>
     index_get_row (ycsb_key m k i) index = Inr (Some (row_at V index (ycsb_key m k i)))"
  by (force simp: ycsb_wf_def row_at_def)

lemma ycsb_wf_load:
  assumes "ycsb_wf V index n m" and "k < n" and "off + b \<le> 128"
  shows "\<exists>x. load b (ycsb_off k + off) m = Inr x"
proof -
  have "ycsb_off k + off + b \<le> length m"
    using assms by (simp add: ycsb_wf_def ycsb_off_def)
  then show ?thesis by (simp add: load_def)
qed

lemma ycsb_load_key:
  assumes "ycsb_wf V index n m" and "k < n" and "i < ROWS_PER_TX"
  shows "rmap ucast (load_u32 (txm_indices (ycsb_off k) i) m) = Inr (ycsb_key m k i)"
  using ycsb_wf_load [OF assms(1,2), of "4 * i" 4] assms(3)
  by (auto simp: ycsb_key_def load_u32_def ycsb_layout)

lemma ycsb_load_ws:
  assumes "ycsb_wf V index n m" and "k < n"
  shows "load_u16 (txm_write_set (ycsb_off k)) m = Inr (ycsb_ws m k)"
  using ycsb_wf_load [OF assms(1,2), of 40 2]
  by (auto simp: ycsb_ws_def load_u16_def ycsb_layout)

text \<open>Writes inside the cown area of record \<open>k\<close> leave indices, write sets and other records alone.\<close>

abbreviation cown_area :: "nat \<Rightarrow> mem \<Rightarrow> mem \<Rightarrow> bool" where
  "cown_area k \<equiv> same_outside (ycsb_off k + 42) (ycsb_off k + 122)"

lemma record_apart:
  assumes "j \<noteq> k" and "a \<le> 128" and "b \<le> 128"
  shows "ycsb_off j + a \<le> ycsb_off k \<or> ycsb_off k + b \<le> ycsb_off j"
  using assms by (cases "j < k") (auto simp: ycsb_off_def)

lemma cown_area_key:
  assumes "cown_area k m m'" and "i < ROWS_PER_TX"
  shows "ycsb_key m' j i = ycsb_key m j i"
proof -
  have "ycsb_off j + 4 * i + 4 \<le> ycsb_off k + 42 \<or> ycsb_off k + 122 \<le> ycsb_off j + 4 * i"
    using record_apart [of j k "4 * i + 4" 122] assms(2) by (cases "j = k") (auto simp: ycsb_layout)
  then show ?thesis
    using same_outside_loads(2) [OF assms(1), of "ycsb_off j + 4 * i"] by (simp add: ycsb_key_def ycsb_layout)
qed

lemma cown_area_ws:
  assumes "cown_area k m m'"
  shows "ycsb_ws m' j = ycsb_ws m j"
proof -
  have "ycsb_off j + 40 + 2 \<le> ycsb_off k + 42 \<or> ycsb_off k + 122 \<le> ycsb_off j + 40"
    using record_apart [of j k 42 122] by (cases "j = k") auto
  then show ?thesis
    using same_outside_loads(3) [OF assms, of "ycsb_off j + 40"] by (simp add: ycsb_ws_def ycsb_layout)
qed

lemma cown_area_ptrs:
  assumes "cown_area k m m'" and "j \<noteq> k" and "i < ROWS_PER_TX"
  shows "load_u64 (txm_cown_ptrs (ycsb_off j) i) m' = load_u64 (txm_cown_ptrs (ycsb_off j) i) m"
proof -
  have "ycsb_off j + 42 + 8 * i + 8 \<le> ycsb_off k + 42 \<or> ycsb_off k + 122 \<le> ycsb_off j + 42 + 8 * i"
    using record_apart [OF assms(2), of "50 + 8 * i" 122] assms(3) by (auto simp: ycsb_layout)
  then show ?thesis
    using same_outside_loads(1) [OF assms(1)] by (simp add: ycsb_layout)
qed

lemma cown_area_decode: "cown_area k m m' \<Longrightarrow> ycsb_decode V index j ts m' = ycsb_decode V index j ts m"
  by (auto simp: ycsb_decode_def cown_area_key cown_area_ws)

lemma cown_area_wf: "cown_area k m m' \<Longrightarrow> ycsb_wf V index n m \<Longrightarrow> ycsb_wf V index n m'"
  using cown_area_key [of k m m'] by (simp add: ycsb_wf_def same_outside_def)

lemma cown_area_prepared:
  assumes "cown_area k m m'" and "ycsb_prepared V index k m'"
  shows "ycsb_prepared V index j m \<Longrightarrow> ycsb_prepared V index j m'"
  using assms cown_area_key [OF assms(1)] cown_area_ptrs [OF assms(1)]
  by (cases "j = k") (auto simp: ycsb_prepared_def)

lemma ycsb_prepare_ok:
  assumes "ycsb_wf V index n m" and "k < n"
  shows "\<exists>m'. ycsb_prepare_cowns V index (ycsb_off k) m = Inr (128, m') \<and> cown_area k m m' \<and>
     ycsb_prepared V index k m'"
proof -
  let ?v = "\<lambda>i. get_base_addr V (row_at V index (ycsb_key m k i))"
  let ?f = "\<lambda>i m. rbind (load_u32 (txm_indices (ycsb_off k) i) m) (\<lambda>key.
          rbind (index_get_row (ucast key) index) (\<lambda>cown.
            case cown of None \<Rightarrow> Inl NullCown
            | Some c \<Rightarrow> store_u64 (txm_cown_ptrs (ycsb_off k) i) (get_base_addr V c) m))"
  have area: "cown_area k m m1" if "same_outside (ycsb_off k + 42) (ycsb_off k + 42 + 8 * 10) m m1" for m1
    using that by (simp add: add.commute)
  have "?f i m1 = store_u64 (ycsb_off k + 42 + 8 * i) (?v i) m1"
    if i: "i < 10" and "same_outside (ycsb_off k + 42) (ycsb_off k + 42 + 8 * 10) m m1" for i m1
  proof -
    have m1: "cown_area k m m1" "ycsb_wf V index n m1" "i < ROWS_PER_TX"
      using area [OF that(2)] cown_area_wf assms(1) i by (blast, blast, simp add: ROWS_PER_TX_def)
    obtain key where key: "load_u32 (txm_indices (ycsb_off k) i) m1 = Inr key" "ycsb_key m k i = ucast key"
      using ycsb_load_key [OF m1(2) assms(2) m1(3)] cown_area_key [OF m1(1,3)]
      by (auto simp: result_simps)
    then show ?thesis
      using ycsb_wf_row [OF assms m1(3)] by (simp add: ycsb_layout)
  qed
  moreover have "ycsb_off k + 42 + 8 * 10 \<le> length m"
    using assms by (simp add: ycsb_wf_def ycsb_off_def)
  ultimately obtain m' where m': "rfold ?f [0..<10] m = Inr m'" "cown_area k m m'"
      "\<forall>i<10. load_u64 (ycsb_off k + 42 + 8 * i) m' = Inr (?v i)"
    using fill_loop [of 10 "ycsb_off k + 42" m ?f ?v] area by blast
  then have "ycsb_prepared V index k m'"
    by (simp add: ycsb_prepared_def ycsb_layout cown_area_key)
  with m' show ?thesis
    by (simp add: ycsb_prepare_cowns_def sizeof_YCSBTransactionMarshalled_def ROWS_PER_TX_def)
qed

interpretation ycsb: txn_contract "YCSBTransaction V index" 128 4 n "ycsb_wf V index n"
    "ycsb_prepared V index" "ycsb_decode V index"
  for V :: "'c verona" and index :: "'c index" and n :: nat
proof
  fix m k
  assume "ycsb_wf V index n m" and "k < n"
  moreover from ycsb_prepare_ok [OF this] obtain m' where
    "ycsb_prepare_cowns V index (ycsb_off k) m = Inr (128, m')" "cown_area k m m'" "ycsb_prepared V index k m'"
    by blast
  ultimately show "\<exists>m'. prepare_cowns (YCSBTransaction V index) (4 + 128 * k) m = Inr (128, m') \<and>
      ycsb_wf V index n m' \<and> ycsb_prepared V index k m' \<and>
      (\<forall>j. ycsb_prepared V index j m \<longrightarrow> ycsb_prepared V index j m') \<and>
      (\<forall>j ts. ycsb_decode V index j ts m' = ycsb_decode V index j ts m)"
    using cown_area_wf cown_area_prepared cown_area_decode
    by (intro exI [of _ m']) (auto simp: YCSBTransaction_def ycsb_off_def)
next
  fix m k
  assume wf: "ycsb_wf V index n m" "k < n"
  have "\<exists>x. load_u64 (txm_cown_ptrs (ycsb_off k) i) m = Inr x" if "i \<in> set [0..<10]" for i
    using ycsb_wf_load [OF wf, of "42 + 8 * i" 8] that by (auto simp: load_u64_def ycsb_layout add.assoc)
  then obtain g where "\<And>i. i \<in> set [0..<10] \<Longrightarrow> load_u64 (txm_cown_ptrs (ycsb_off k) i) m = Inr (g i)"
    by metis
  then have "rmapM (\<lambda>i. load_u64 (txm_cown_ptrs (ycsb_off k) i) m) [0..<10] = Inr (map g [0..<10])"
    by (rule rmapM_ok)
  then show "\<exists>as. prefetch_cowns (YCSBTransaction V index) (4 + 128 * k) m = Inr (128, as)"
    by (simp add: YCSBTransaction_def ycsb_prefetch_cowns_def ycsb_off_def
        ROWS_PER_TX_def sizeof_YCSBTransactionMarshalled_def del: upt_rec_numeral)
next
  fix m k ts
  assume wf: "ycsb_wf V index n m" "k < n" and prep: "ycsb_prepared V index k m"
  have "rmapM (\<lambda>i. rmap (get_cown_ptr_from_addr V) (load_u64 (txm_cown_ptrs (ycsb_off k) i) m)) [0..<ROWS_PER_TX] =
      Inr (map (\<lambda>i. row_at V index (ycsb_key m k i)) [0..<ROWS_PER_TX])"
    using prep wf(1) by (intro rmapM_ok) (simp add: ycsb_prepared_def ycsb_wf_def)
  then show "parse_and_process (YCSBTransaction V index) (4 + 128 * k) ts m =
      Inr (128, Some (ycsb_decode V index k ts m))"
    using ycsb_load_ws [OF wf]
    by (simp add: YCSBTransaction_def ycsb_parse_and_process_def ycsb_decode_def ycsb_off_def
        sizeof_YCSBTransactionMarshalled_def)
qed

interpretation ycsb_log: log_contract "YCSBTransaction V index" 128 n "ycsb_wf V index n"
    "ycsb_prepared V index" "ycsb_decode V index"
  for V :: "'c verona" and index :: "'c index" and n :: nat
  by unfold_locales

section \<open>Bodies\<close>

lemma read_row_sum: "read_row payload acc = acc + sum_list (take ROW_SIZE payload)"
proof -
  have "fold (\<lambda>b s. s + b) bs a = a + sum_list bs" for bs :: "u8 list" and a
    by (induction bs arbitrary: a) (simp_all add: algebra_simps)
  then show ?thesis by (simp add: read_row_def)
qed

lemma TXN_frame: "c \<noteq> r \<Longrightarrow> snd (snd (TXN r s)) c = snd (snd s) c"
  by (auto simp: TXN_def split: prod.splits)

lemma TXN_local:
  assumes "fst s = fst s'" "fst (snd s) = fst (snd s')" and "\<And>c. c \<in> A \<Longrightarrow> snd (snd s) c = snd (snd s') c"
    and "r \<in> A"
  shows "fst (TXN r s) = fst (TXN r s') \<and> fst (snd (TXN r s)) = fst (snd (TXN r s')) \<and>
    (\<forall>c\<in>A. snd (snd (TXN r s)) c = snd (snd (TXN r s')) c)"
  using assms by (cases s; cases s') (auto simp: TXN_def)

lemma TXNs_frame: "c \<notin> set rs \<Longrightarrow> snd (snd (fold TXN rs s)) c = snd (snd s) c"
  by (induction rs arbitrary: s) (simp_all add: TXN_frame)

lemma TXNs_local:
  assumes "fst s = fst s'" "fst (snd s) = fst (snd s')" "\<And>c. c \<in> A \<Longrightarrow> snd (snd s) c = snd (snd s') c"
    "set rs \<subseteq> A" "c \<in> A"
  shows "snd (snd (fold TXN rs s)) c = snd (snd (fold TXN rs s')) c"
  using assms
proof (induction rs arbitrary: s s')
  case Nil
  then show ?case by simp
next
  case (Cons r rs)
  have "r \<in> A" using Cons.prems(4) by simp
  from TXN_local [OF Cons.prems(1-3) this] Cons.prems(4,5) show ?case
    by (auto intro!: Cons.IH)
qed

interpretation ycsb_bodies: cown_bodies ycsb_body "\<lambda>w. set (yw_rows w)"
proof
  fix c and b :: "'c ycsb_when" and st
  assume "c \<notin> set (yw_rows b)"
  then show "ycsb_body b st c = st c" by (simp add: ycsb_body_def TXNs_frame)
next
  fix b :: "'c ycsb_when" and st st' :: "'c \<Rightarrow> u8 list" and c
  assume "\<And>c. c \<in> set (yw_rows b) \<Longrightarrow> st c = st' c" and "c \<in> set (yw_rows b)"
  then show "ycsb_body b st c = ycsb_body b st' c"
    unfolding ycsb_body_def by (intro TXNs_local [where A = "set (yw_rows b)"]) simp_all
qed

text \<open>
  The reference semantics of a transaction on distinct rows.  A row whose bit is set receives the
  sum of the rows read before it, in its first hundred bytes; all other bytes stay.
\<close>

definition ycsb_sum :: "'c ycsb_when \<Rightarrow> ('c \<Rightarrow> u8 list) \<Rightarrow> nat \<Rightarrow> u8" where
  "ycsb_sum w st p =
     (\<Sum>i | i < p \<and> \<not> bit (yw_ws_cap w) i. sum_list (take ROW_SIZE (st (yw_rows w ! i))))"

definition ycsb_after :: "'c ycsb_when \<Rightarrow> ('c \<Rightarrow> u8 list) \<Rightarrow> nat \<Rightarrow> u8 list" where
  "ycsb_after w st p =
     (if bit (yw_ws_cap w) p then replicate WRITE_SIZE (ycsb_sum w st p) @ drop WRITE_SIZE (st (yw_rows w ! p))
      else st (yw_rows w ! p))"

lemma ycsb_sum_Suc:
  "ycsb_sum w st (Suc p) = ycsb_sum w st p +
     (if bit (yw_ws_cap w) p then 0 else sum_list (take ROW_SIZE (st (yw_rows w ! p))))"
proof -
  have "{i. i < Suc p \<and> \<not> bit (yw_ws_cap w) i} =
      (if bit (yw_ws_cap w) p then {i. i < p \<and> \<not> bit (yw_ws_cap w) i}
       else insert p {i. i < p \<and> \<not> bit (yw_ws_cap w) i})"
    by (auto simp: less_Suc_eq)
  then show ?thesis by (simp add: ycsb_sum_def add.commute)
qed

lemma TXNs_distinct:
  assumes "distinct (yw_rows w)" and "p \<le> length (yw_rows w)"
  shows "\<exists>st'. fold TXN (take p (yw_rows w)) (0, yw_ws_cap w, st) =
       (ycsb_sum w st p, drop_bit p (yw_ws_cap w), st') \<and>
     (\<forall>q<length (yw_rows w). st' (yw_rows w ! q) = (if q < p then ycsb_after w st q else st (yw_rows w ! q)))"
  using assms(2)
proof (induction p)
  case 0
  then show ?case by (simp add: ycsb_sum_def)
next
  case (Suc p)
  let ?r = "yw_rows w ! p" and ?ws = "yw_ws_cap w"
  from Suc obtain st' where st': "fold TXN (take p (yw_rows w)) (0, ?ws, st) =
       (ycsb_sum w st p, drop_bit p ?ws, st')"
     "\<forall>q<length (yw_rows w). st' (yw_rows w ! q) = (if q < p then ycsb_after w st q else st (yw_rows w ! q))"
    by auto
  have p: "st' ?r = st ?r" "take (Suc p) (yw_rows w) = take p (yw_rows w) @ [?r]"
    using st'(2) Suc.prems by (simp_all add: take_Suc_conv_app_nth)
  have bit: "drop_bit p ?ws AND 1 \<noteq> 0 \<longleftrightarrow> bit ?ws p"
    by (simp add: and_one_eq bit_iff_odd_drop_bit odd_iff_mod_2_eq_one)
  let ?st2 = "if bit ?ws p then st'(?r := memset_row (ycsb_sum w st p) (st ?r)) else st'"
  have step: "fold TXN (take (Suc p) (yw_rows w)) (0, ?ws, st) = (ycsb_sum w st (Suc p), drop_bit (Suc p) ?ws, ?st2)"
    using st'(1) p bit by (simp add: TXN_def ycsb_sum_Suc read_row_sum drop_bit_drop_bit)
  have "?st2 (yw_rows w ! q) = (if q < Suc p then ycsb_after w st q else st (yw_rows w ! q))"
    if "q < length (yw_rows w)" for q
    using st'(2) that Suc.prems assms(1)
    by (auto simp: nth_eq_iff_index_eq ycsb_after_def memset_row_def less_Suc_eq)
  with step show ?case by (intro exI [of _ ?st2]) simp
qed

section \<open>The rows of the store\<close>

lemma ycsb_load_steps:
  assumes "verona_ok V" and "rows \<le> DB_SIZE"
  shows "\<exists>prev index. rfold (ycsb_load_step stride V a) [0..<rows] (0, new_index) = Inr (prev, index) \<and>
     (0 < rows \<longrightarrow> prev = get_base_addr V (make_cown_custom V (a + stride * of_nat (rows - 1)))) \<and>
     unat (idx_cnt index) = rows \<and>
     (\<forall>i. idx_map index i = (if i < rows then Some (make_cown_custom V (a + stride * of_nat i)) else None))"
  using assms(2)
proof (induction rows)
  case 0
  show ?case by (simp add: new_index_def)
next
  case (Suc r)
  then obtain prev index where ih: "rfold (ycsb_load_step stride V a) [0..<r] (0, new_index) = Inr (prev, index)"
      "0 < r \<longrightarrow> prev = get_base_addr V (make_cown_custom V (a + stride * of_nat (r - 1)))"
      "unat (idx_cnt index) = r"
      "\<forall>i. idx_map index i = (if i < r then Some (make_cown_custom V (a + stride * of_nat i)) else None)"
    by auto
  let ?c = "make_cown_custom V (a + stride * of_nat r)"
  have "get_base_addr V ?c - prev = stride" if "0 < r"
  proof -
    have "of_nat r = (of_nat (r - 1) + 1 :: u64)" using that by (cases r) (simp_all add: add.commute)
    moreover have "get_base_addr V ?c - prev =
        (a + stride * of_nat r) - (a + stride * of_nat (r - 1))"
      using ih(2) that by (simp only: verona_ok_distance [OF assms(1)])
    ultimately show ?thesis by (simp add: algebra_simps)
  qed
  then have "ycsb_load_step stride V a r (prev, index) = Inr (get_base_addr V ?c,
      index\<lparr>idx_map := (idx_map index)(r := Some ?c), idx_cnt := idx_cnt index + 1\<rparr>)"
    using ih(3) Suc.prems by (auto simp: ycsb_load_step_def Let_def index_insert_row_def)
  moreover have "unat (idx_cnt index + 1) = Suc r"
    using ih(3) Suc.prems by (subst unat_Suc) (auto simp: DB_SIZE_def)
  ultimately show ?case using ih by (auto simp: rfold_append)
qed

lemma ycsb_load_row:
  assumes "verona_ok V" and "rows \<le> DB_SIZE"
  obtains index where "ycsb_load V a rows = Inr index" "index_inv index"
    "\<And>key. unat key < rows \<Longrightarrow> index_get_row key index = Inr (Some (make_cown_custom V (a + COWN_STRIDE * key)))"
proof -
  obtain prev index where ld: "rfold (ycsb_load_step COWN_STRIDE V a) [0..<rows] (0, new_index) = Inr (prev, index)"
      "unat (idx_cnt index) = rows"
      "\<forall>i. idx_map index i = (if i < rows then Some (make_cown_custom V (a + COWN_STRIDE * of_nat i)) else None)"
    using ycsb_load_steps [OF assms] by blast
  show ?thesis
    by (rule that [of index]) (use ld assms(2) in \<open>auto simp: ycsb_load_def index_inv_def index_get_row_def\<close>)
qed

section \<open>Properties\<close>

text \<open>
  C13. The effect of a transaction on ten distinct rows: a row whose bit of the write set is set gets
  the sum, modulo 256, of the rows read before it in its first hundred bytes; all its other bytes and
  every other row stay as they were.
\<close>

theorem ycsb_transaction_effect:
  assumes "distinct (yw_rows w)"
  shows "(\<forall>p<length (yw_rows w). ycsb_body w st (yw_rows w ! p) = ycsb_after w st p) \<and>
    (\<forall>c. c \<notin> set (yw_rows w) \<longrightarrow> ycsb_body w st c = st c)"
  using TXNs_distinct [OF assms order.refl, of st] TXNs_frame [of _ "yw_rows w" "(0, yw_ws_cap w, st)"]
  by (auto simp: ycsb_body_def)

theorem ycsb_transaction_effect_witness:
  "ycsb_body \<lparr>yw_rows = [1 :: nat, 2], yw_ws_cap = 2, yw_init_time = 0\<rparr> (\<lambda>_. replicate 900 3) 2 =
     replicate 100 (2700 :: u8) @ replicate 800 3"
proof -
  let ?w = "\<lparr>yw_rows = [1 :: nat, 2], yw_ws_cap = 2, yw_init_time = 0\<rparr>"
  let ?st = "\<lambda>_ :: nat. replicate 900 (3 :: u8)"
  have "ycsb_sum ?w ?st 0 = 0" by (simp add: ycsb_sum_def)
  then have "ycsb_sum ?w ?st 1 = 2700"
    using ycsb_sum_Suc [of ?w ?st 0] by (simp add: ROW_SIZE_def sum_list_replicate)
  then have "ycsb_after ?w ?st 1 = replicate 100 (2700 :: u8) @ replicate 800 3"
    by (simp add: ycsb_after_def WRITE_SIZE_def)
  moreover have "ycsb_body ?w ?st (yw_rows ?w ! 1) = ycsb_after ?w ?st 1"
    by (rule ycsb_transaction_effect [THEN conjunct1, rule_format]) simp_all
  ultimately show ?thesis by simp
qed

end
