(* ===== verification/Ycsb_Log.thy ===== *)
theory Ycsb_Log
  imports Ycsb
begin

text \<open>
  The generator of YCSB logs, \<^verbatim>\<open>app/ycsb/gen-log/generate_ycsb_zipf.cc\<close>, with the integer generator of
  \<^verbatim>\<open>uniform_random.h\<close>.  \<open>ZipfianRandom\<close> works in \<open>double\<close>: the values its \<open>next()\<close> returns are an
  argument, a list that the rejection loop of \<open>gen_keys\<close> consumes (\<open>Ycsb_Gen\<close> computes it).  The shuffle of the standard
  library is an argument too, a permutation of the ten digits.  The round trip shows that a generated
  log is one the pipeline accepts.
\<close>

section \<open>UniformRandom\<close>

text \<open>
  The state is \<open>seed_\<close>.  Where one expression makes two calls (\<open>next_uint64\<close>, \<open>non_uniform_within\<close>)
  the left operand is evaluated first; C++ leaves that order open, and no bound below depends on it.
\<close>

definition next_uint32 :: "u64 \<Rightarrow> u32 \<times> u64" where
  "next_uint32 seed0 = (let seed = seed0 * 0xD04C3175 + 0x53DA9022 in
     (ucast (drop_bit 32 seed XOR (seed AND 0xFFFFFFFF)), seed))"

definition next_uint64 :: "u64 \<Rightarrow> u64 \<times> u64" where
  "next_uint64 seed = (case next_uint32 seed of (hi, seed1) \<Rightarrow>
     case next_uint32 seed1 of (lo, seed2) \<Rightarrow> (push_bit 32 (ucast hi) OR ucast lo, seed2))"

definition uniform_within :: "u32 \<Rightarrow> u32 \<Rightarrow> u64 \<Rightarrow> (u32 \<times> u64) result" where
  "uniform_within lo hi seed =
     (if lo = hi then Inr (lo, seed)
      else if hi - lo + 1 = 0 then Inl DivByZero
      else case next_uint32 seed of (r, seed') \<Rightarrow> Inr (lo + r mod (hi - lo + 1), seed'))"

text \<open>The \<open>while (true)\<close> of \<open>uniform_within_except\<close>: \<open>None\<close> when it does not return.\<close>

partial_function (option) uniform_within_except ::
  "u32 \<Rightarrow> u32 \<Rightarrow> u32 \<Rightarrow> u64 \<Rightarrow> (u32 \<times> u64) result option" where
  "uniform_within_except lo hi except seed =
     (case uniform_within lo hi seed of
        Inl e \<Rightarrow> Some (Inl e)
      | Inr (val, seed') \<Rightarrow>
          if val \<noteq> except then Some (Inr (val, seed'))
          else uniform_within_except lo hi except seed')"

definition get_c :: "u32 \<Rightarrow> u32 result" where
  "get_c A = (if A + 1 = 0 then Inl DivByZero
     else Inr (ucast ((0x734b00c6d7d3bbda :: u64) mod ucast (A + 1))))"

definition non_uniform_within :: "u32 \<Rightarrow> u32 \<Rightarrow> u32 \<Rightarrow> u64 \<Rightarrow> (u32 \<times> u64) result" where
  "non_uniform_within A lo hi seed =
     rbind (get_c A) (\<lambda>C.
     rbind (uniform_within 0 A seed) (\<lambda>(x, seed1).
     rbind (uniform_within lo hi seed1) (\<lambda>(y, seed2).
       if hi - lo + 1 = 0 then Inl DivByZero
       else Inr (((x OR y) + C) mod (hi - lo + 1) + lo, seed2))))"

section \<open>Keys and write sets\<close>

definition ROW_COUNT :: nat where
  "ROW_COUNT = 10000000"

definition TX_COUNT :: nat where
  "TX_COUNT = 1000000"

text \<open>\<open>__builtin_clzll\<close>: the leading zeros of a 64-bit value.\<close>

fun clz_below :: "nat \<Rightarrow> nat \<Rightarrow> nat" where
  "clz_below x 0 = 0"
| "clz_below x (Suc b) = (if x < 2 ^ b then Suc (clz_below x b) else 0)"

definition clzll :: "u64 \<Rightarrow> nat" where
  "clzll w = clz_below (unat w) 64"

definition nr_lsb :: nat where
  "nr_lsb = 63 - clzll (of_nat ROW_COUNT) - 6"

definition key_mask :: u64 where
  "key_mask = (if 0 < nr_lsb then 2 ^ nr_lsb - 1 else 0)"

definition NrContKey :: "bool \<Rightarrow> nat" where
  "NrContKey contention = (if contention then 7 else 0)"

text \<open>
  One key: draw until a value is accepted.  The first \<open>NrContKey\<close> keys are cut down to multiples of
  the contention unit; the others must not be such multiples; no key repeats an earlier one.
\<close>

definition cut_key :: "bool \<Rightarrow> nat \<Rightarrow> u64 \<Rightarrow> u32" where
  "cut_key contention i r =
     (let k = (ucast (r mod of_nat ROW_COUNT) :: u32) in
      if i < NrContKey contention then ucast (ucast k AND NOT key_mask) else k)"

definition accept_key :: "bool \<Rightarrow> u32 list \<Rightarrow> u64 \<Rightarrow> bool" where
  "accept_key contention keys r =
     (let k = cut_key contention (length keys) r in
      (length keys < NrContKey contention \<or> ucast k AND key_mask \<noteq> 0) \<and> k \<notin> set keys)"

fun gen_key :: "bool \<Rightarrow> u32 list \<Rightarrow> u64 list \<Rightarrow> (u32 \<times> u64 list) option" where
  "gen_key contention keys [] = None"
| "gen_key contention keys (r # rs) =
     (if accept_key contention keys r then Some (cut_key contention (length keys) r, rs)
      else gen_key contention keys rs)"

fun gen_keys_from :: "bool \<Rightarrow> nat \<Rightarrow> u32 list \<Rightarrow> u64 list \<Rightarrow> (u32 list \<times> u64 list) option" where
  "gen_keys_from contention 0 keys rs = Some (keys, rs)"
| "gen_keys_from contention (Suc n) keys rs =
     (case gen_key contention keys rs of
        None \<Rightarrow> None
      | Some (k, rs') \<Rightarrow> gen_keys_from contention n (keys @ [k]) rs')"

definition gen_keys :: "bool \<Rightarrow> u64 list \<Rightarrow> (u32 list \<times> u64 list) option" where
  "gen_keys contention rs = gen_keys_from contention 10 [] rs"

text \<open>\<open>digits\<close> is the shuffled vector of eight zeros and two ones.\<close>

definition shift_in :: "u8 \<Rightarrow> u16 \<Rightarrow> u16" where
  "shift_in digit acc = push_bit 1 acc OR ucast digit"

definition gen_write_set :: "bool \<Rightarrow> u8 list \<Rightarrow> u16" where
  "gen_write_set contention digits =
     (if contention then 2 ^ 10 - 1
      else fold shift_in digits 0)"

section \<open>Packing\<close>

definition pack_key :: "u32 \<Rightarrow> u8 list" where
  "pack_key key = map (\<lambda>i. ucast (drop_bit (i * 8) key AND 0xFF)) [0..<4]"

definition pack_txn :: "u32 list \<Rightarrow> u16 \<Rightarrow> u8 list" where
  "pack_txn keys ws = concat (map pack_key keys) @ bytes_of 2 (unat ws) @ replicate 86 0"

definition gen_bin_txn :: "bool \<Rightarrow> u8 list \<Rightarrow> u64 list \<Rightarrow> (u8 list \<times> u64 list) option" where
  "gen_bin_txn contention digits rs =
     (case gen_keys contention rs of
        None \<Rightarrow> None
      | Some (keys, rs') \<Rightarrow> Some (pack_txn keys (gen_write_set contention digits), rs'))"

text \<open>The loop of \<open>main\<close>; \<open>digitss\<close> holds the shuffles, one per transaction.\<close>

fun gen_txns :: "bool \<Rightarrow> u8 list list \<Rightarrow> u64 list \<Rightarrow> (u8 list \<times> u64 list) option" where
  "gen_txns contention [] rs = Some ([], rs)"
| "gen_txns contention (digits # digitss) rs =
     (case gen_bin_txn contention digits rs of
        None \<Rightarrow> None
      | Some (bs, rs') \<Rightarrow>
          (case gen_txns contention digitss rs' of
             None \<Rightarrow> None
           | Some (bs', rs'') \<Rightarrow> Some (bs @ bs', rs'')))"

definition gen_log :: "bool \<Rightarrow> u8 list list \<Rightarrow> u64 list \<Rightarrow> mem option" where
  "gen_log contention digitss rs =
     (case gen_txns contention digitss rs of
        None \<Rightarrow> None
      | Some (bs, _) \<Rightarrow> Some (bytes_of 4 (length digitss) @ bs))"

section \<open>Bounds of the generator\<close>

lemma unat_range:
  assumes "lo \<le> hi" and "hi - lo + 1 \<noteq> (0 :: 'a::len word)"
  shows "unat (hi - lo + 1) = unat hi - unat lo + 1"
proof -
  have "unat (hi - lo + 1) = Suc (unat (hi - lo))"
    using assms(2) unatSuc [of "hi - lo"] by (simp add: add.commute)
  then show ?thesis using assms(1) by (simp add: unat_sub)
qed

lemma offset_within:
  assumes "lo \<le> hi" and "hi - lo + 1 \<noteq> (0 :: 'a::len word)"
  shows "lo \<le> lo + r mod (hi - lo + 1) \<and> lo + r mod (hi - lo + 1) \<le> hi"
proof -
  have "unat (r mod (hi - lo + 1)) < unat hi - unat lo + 1"
    using unat_range [OF assms] mod_less_divisor [of "unat (hi - lo + 1)" "unat r"]
    by (simp add: unat_mod_distrib)
  moreover have "unat lo \<le> unat hi" using assms(1) by (simp add: word_le_nat_alt)
  moreover have "unat hi < 2 ^ LENGTH('a)" by (rule unat_lt_2p)
  ultimately have "unat (lo + r mod (hi - lo + 1)) = unat lo + unat (r mod (hi - lo + 1))"
    by (intro unat_add_small) linarith
  then show ?thesis
    using \<open>unat (r mod (hi - lo + 1)) < unat hi - unat lo + 1\<close> \<open>unat lo \<le> unat hi\<close>
    by (simp add: word_le_nat_alt)
qed

lemma uniform_within_bounds:
  "lo \<le> hi \<Longrightarrow> uniform_within lo hi seed = Inr (v, seed') \<Longrightarrow> lo \<le> v \<and> v \<le> hi"
  using offset_within [of lo hi]
  by (auto simp: uniform_within_def split: if_splits prod.splits)

lemma uniform_within_ok: "hi - lo + 1 \<noteq> 0 \<Longrightarrow> \<exists>v seed'. uniform_within lo hi seed = Inr (v, seed')"
  by (auto simp: uniform_within_def split: prod.splits)

text \<open>With both ends equal to the excluded value the loop never ends.\<close>

lemma uniform_within_except_stuck: "uniform_within_except x x x seed = None"
proof -
  have "\<not> (lo = except \<and> hi = except)" if "uniform_within_except lo hi except seed = Some y"
    for lo hi except seed y
    by (rule uniform_within_except.raw_induct [where P = "\<lambda>lo hi except seed y. \<not> (lo = except \<and> hi = except)",
          OF _ that])
      (auto simp: uniform_within_def split: sum.splits if_splits prod.splits)
  then show ?thesis by (cases "uniform_within_except x x x seed") (simp, blast)
qed

lemma uniform_within_except_range:
  assumes "uniform_within_except lo hi except seed = Some y" and "lo \<le> hi" and "y = Inr (v, seed')"
  shows "lo \<le> v \<and> v \<le> hi \<and> v \<noteq> except"
proof -
  let ?P = "\<lambda>lo hi except seed y. lo \<le> hi \<longrightarrow>
          (\<forall>v s'. y = Inr (v, s') \<longrightarrow> lo \<le> v \<and> v \<le> hi \<and> v \<noteq> except)"
  have "?P lo hi except seed y"
  proof (rule uniform_within_except.raw_induct [where P = ?P, OF _ assms(1)])
    fix f lo hi except seed y
    assume ih: "\<And>lo hi except seed y. f lo hi except seed = Some y \<Longrightarrow> ?P lo hi except seed y"
      and step: "(case uniform_within lo hi seed of Inl e \<Rightarrow> Some (Inl e)
        | Inr (val, seed') \<Rightarrow> if val \<noteq> except then Some (Inr (val, seed')) else f lo hi except seed') = Some y"
    show "?P lo hi except seed y"
    proof (cases "uniform_within lo hi seed")
      case (Inl e)
      then show ?thesis using step by auto
    next
      case (Inr p)
      obtain v s1 where p: "p = (v, s1)" by fastforce
      show ?thesis
      proof (cases "v = except")
        case True
        then have "f lo hi except s1 = Some y" using step Inr p by simp
        then show ?thesis by (rule ih)
      next
        case False
        then have "y = Inr (v, s1)" using step Inr p by simp
        then show ?thesis using uniform_within_bounds [of lo hi seed v s1] Inr p False by simp
      qed
    qed
  qed
  then show ?thesis using assms by blast
qed

section \<open>Generated keys\<close>

lemma clz_below_numeral [simp]:
  "clz_below x (numeral b) = (if x < 2 ^ pred_numeral b then Suc (clz_below x (pred_numeral b)) else 0)"
  by (simp add: numeral_eq_Suc)

lemma nr_lsb_17: "nr_lsb = 17"
  by (simp add: nr_lsb_def clzll_def ROW_COUNT_def)

lemma key_mask_value: "key_mask = 0x1FFFF"
  by (simp add: key_mask_def nr_lsb_17)

lemma key_mask_mask: "key_mask = mask 17"
  by (simp add: key_mask_value mask_eq_exp_minus_1)

lemma cut_key_lt: "unat (cut_key contention i r) < ROW_COUNT"
proof -
  let ?k = "ucast (r mod of_nat ROW_COUNT) :: u32"
  have "unat (r mod of_nat ROW_COUNT) < ROW_COUNT"
    by (simp add: unat_mod_distrib ROW_COUNT_def)
  then have k: "unat ?k < ROW_COUNT"
    by (simp add: unsigned_ucast_eq take_bit_nat_def ROW_COUNT_def)
  have "(ucast ?k AND NOT key_mask :: u64) \<le> ucast ?k"
    by (rule word_and_le2)
  then have "unat (ucast ?k AND NOT key_mask :: u64) < ROW_COUNT"
    using k by (simp add: word_le_nat_alt)
  then have "unat (ucast (ucast ?k AND NOT key_mask :: u64) :: u32) < ROW_COUNT"
    by (simp add: unsigned_ucast_eq take_bit_nat_def ROW_COUNT_def)
  with k show ?thesis by (simp add: cut_key_def Let_def)
qed

text \<open>\<open>(key & mask) == 0\<close>: the key is one of the contended ones.\<close>

definition contended_key :: "u32 \<Rightarrow> bool" where
  "contended_key k \<longleftrightarrow> ucast k AND key_mask = 0"

lemma cut_key_contended: "i < NrContKey contention \<Longrightarrow> contended_key (cut_key contention i r)"
  by (auto simp: contended_key_def cut_key_def Let_def intro!: bit_word_eqI simp: bit_simps)

definition good_keys :: "bool \<Rightarrow> u32 list \<Rightarrow> bool" where
  "good_keys contention ks \<longleftrightarrow> distinct ks \<and> (\<forall>k\<in>set ks. unat k < ROW_COUNT) \<and>
     (\<forall>i<length ks. contended_key (ks ! i) \<longleftrightarrow> i < NrContKey contention)"

lemma gen_key_accept:
  assumes "gen_key contention keys rs = Some (k, rs')"
  shows "\<exists>pre r. rs = pre @ r # rs' \<and> (\<forall>x\<in>set pre. \<not> accept_key contention keys x) \<and>
    accept_key contention keys r \<and> k = cut_key contention (length keys) r"
  using assms
proof (induction contention keys rs rule: gen_key.induct)
  case (2 contention keys r rs)
  show ?case
  proof (cases "accept_key contention keys r")
    case True
    then show ?thesis using 2 by (intro exI [of _ "[]"]) simp
  next
    case False
    with 2 obtain pre r' where "rs = pre @ r' # rs'" "\<forall>x\<in>set pre. \<not> accept_key contention keys x"
      "accept_key contention keys r'" "k = cut_key contention (length keys) r'" by auto
    with False show ?thesis by (intro exI [of _ "r # pre"] exI [of _ r']) simp
  qed
qed simp

lemma gen_key_returns: "r \<in> set rs \<Longrightarrow> accept_key contention keys r \<Longrightarrow> \<exists>k rs'. gen_key contention keys rs = Some (k, rs')"
  by (induction contention keys rs rule: gen_key.induct) auto

lemma gen_keys_from_good:
  "gen_keys_from contention n keys rs = Some (ks, rs') \<Longrightarrow> good_keys contention keys \<Longrightarrow>
     good_keys contention ks \<and> length ks = length keys + n"
proof (induction contention n keys rs rule: gen_keys_from.induct)
  case (2 contention n keys rs)
  then obtain k rs1 where k: "gen_key contention keys rs = Some (k, rs1)"
      "gen_keys_from contention n (keys @ [k]) rs1 = Some (ks, rs')"
    by (auto split: option.splits)
  obtain r where r: "accept_key contention keys r" "k = cut_key contention (length keys) r"
    using gen_key_accept [OF k(1)] by blast
  then have "contended_key k \<longleftrightarrow> length keys < NrContKey contention" "k \<notin> set keys" "unat k < ROW_COUNT"
    using cut_key_contended [of "length keys" contention r] cut_key_lt
    by (auto simp: accept_key_def Let_def contended_key_def)
  then have "good_keys contention (keys @ [k])"
    using "2.prems"(2) by (auto simp: good_keys_def nth_append less_Suc_eq)
  then show ?case using "2.IH" [OF k(1) refl k(2)] by simp
qed simp

section \<open>Round trip\<close>

lemma pack_key_bytes: "pack_key key = bytes_of 4 (unat key)"
proof -
  have "ucast (drop_bit (i * 8) key AND 0xFF) = (word_of_nat (unat key div 256 ^ i) :: u8)" for i
  proof -
    have "(ucast (w AND 0xFF) :: u8) = ucast w" for w :: u32
    proof (rule bit_word_eqI)
      fix n
      assume n: "n < LENGTH(8)"
      have m: "(0xFF :: u32) = mask 8" by (simp add: mask_eq_exp_minus_1)
      have "bit (mask 8 :: u32) n" using n by (simp only: bit_mask_iff) simp
      then show "bit (ucast (w AND 0xFF) :: u8) n = bit (ucast w :: u8) n"
        unfolding m using n by (simp only: bit_ucast_iff bit_and_iff) simp
    qed
    moreover have "(ucast w :: u8) = word_of_nat (unat w)" for w :: u32 by simp
    moreover have "unat (drop_bit (i * 8) key) = unat key div 256 ^ i"
      using power_mult [of "2 :: nat" 8 i]
        drop_bit_eq_div [of "8 * i" "unat key"]
      by (simp only: unat_drop_bit_eq mult.commute [of i 8]) simp
    ultimately show ?thesis by metis
  qed
  then show ?thesis by (simp add: pack_key_def bytes_of_def)
qed

lemma length_pack_keys: "length (concat (map pack_key keys)) = 4 * length keys"
  by (simp add: length_concat comp_def sum_list_triv pack_key_def)

lemma length_pack_txn [simp]: "length keys = 10 \<Longrightarrow> length (pack_txn keys ws) = 128"
  by (simp add: pack_txn_def length_pack_keys)

lemma pack_txn_key:
  assumes "length keys = 10" and "i < 10"
  shows "load_u32 (4 * i) (pack_txn keys ws) = Inr (keys ! i)"
proof -
  have "load 4 (4 * i + 0) (concat (map pack_key keys)) = load 4 0 (map pack_key keys ! i)"
    using assms by (intro load_concat) (auto simp: pack_key_def)
  also have "\<dots> = Inr (unat (keys ! i))"
    using assms unat_lt_2p [of "keys ! i"]
    by (simp add: pack_key_bytes load_def nat_of_bytes_bytes_of)
  finally show ?thesis
    using assms by (simp add: load_u32_def pack_txn_def load_front length_pack_keys)
qed

lemma pack_txn_ws:
  assumes "length keys = 10"
  shows "load_u16 40 (pack_txn keys ws) = Inr ws"
proof -
  have "load 2 (length (concat (map pack_key keys)) + 0) (pack_txn keys ws) =
      load 2 0 (bytes_of 2 (unat ws) @ replicate 86 0)"
    unfolding pack_txn_def by (rule load_prefix)
  also have "\<dots> = Inr (unat ws)"
    using unat_lt_2p [of ws] by (simp add: load_def nat_of_bytes_bytes_of)
  finally show ?thesis using assms by (simp add: load_u16_def length_pack_keys)
qed

text \<open>What \<open>main\<close> writes: a header and a list of records.\<close>

lemma gen_txns_records:
  assumes "gen_txns contention ds rs = Some (bs, rs')"
  shows "\<exists>kss. length kss = length ds \<and> (\<forall>ks\<in>set kss. length ks = 10 \<and> good_keys contention ks) \<and>
    bs = concat (map2 (\<lambda>ks d. pack_txn ks (gen_write_set contention d)) kss ds)"
  using assms
proof (induction contention ds rs arbitrary: bs rule: gen_txns.induct)
  case (2 contention d ds rs)
  then obtain ks rs1 bs1 where ks: "gen_keys contention rs = Some (ks, rs1)"
      "gen_txns contention ds rs1 = Some (bs1, rs')"
      "bs = pack_txn ks (gen_write_set contention d) @ bs1"
    by (auto simp: gen_bin_txn_def split: option.splits)
  have good: "good_keys contention ks \<and> length ks = 10"
    using gen_keys_from_good [of contention 10 "[]" rs ks rs1] ks(1) by (simp add: gen_keys_def good_keys_def)
  have "gen_bin_txn contention d rs = Some (pack_txn ks (gen_write_set contention d), rs1)"
    using ks(1) by (simp add: gen_bin_txn_def)
  from "2.IH" [OF this refl ks(2)] obtain kss where kss: "length kss = length ds"
      "\<forall>ks\<in>set kss. length ks = 10 \<and> good_keys contention ks"
      "bs1 = concat (map2 (\<lambda>ks d. pack_txn ks (gen_write_set contention d)) kss ds)" by blast
  with ks(3) good show ?case by (intro exI [of _ "ks # kss"]) simp
qed simp

lemma gen_log_records:
  assumes "gen_log contention ds rs = Some m" and "length ds < 2 ^ 32"
  obtains kss where "length kss = length ds" "length m = ycsb_off (length ds)"
    "load_u32 0 m = Inr (of_nat (length ds))"
    "\<And>k. k < length ds \<Longrightarrow> length (kss ! k) = 10 \<and> good_keys contention (kss ! k)"
    "\<And>k i. k < length ds \<Longrightarrow> i < 10 \<Longrightarrow> ycsb_key m k i = ucast (kss ! k ! i)"
    "\<And>k. k < length ds \<Longrightarrow> ycsb_ws m k = gen_write_set contention (ds ! k)"
proof -
  from assms(1) obtain bs rs' where bs: "gen_txns contention ds rs = Some (bs, rs')"
      "m = bytes_of 4 (length ds) @ bs"
    by (auto simp: gen_log_def split: option.splits)
  then obtain kss where kss: "length kss = length ds"
      "\<forall>ks\<in>set kss. length ks = 10 \<and> good_keys contention ks"
      "bs = concat (map2 (\<lambda>ks d. pack_txn ks (gen_write_set contention d)) kss ds)"
    using gen_txns_records by blast
  let ?bl = "map2 (\<lambda>ks d. pack_txn ks (gen_write_set contention d)) kss ds"
  have bl: "\<forall>x\<in>set ?bl. length x = 128" using kss(2) by (auto simp: set_zip)
  have lk: "length (kss ! k) = 10 \<and> good_keys contention (kss ! k)" if "k < length ds" for k
    using kss(1,2) that by simp
  have rec: "load b (ycsb_off k + off) m = load b off (pack_txn (kss ! k) (gen_write_set contention (ds ! k)))"
    if "k < length ds" "off + b \<le> 128" for k off b
    using load_concat [OF bl _ that(2), of k] load_prefix [of b "bytes_of 4 (length ds)" "128 * k + off" bs]
      that kss by (simp add: bs(2) ycsb_off_def add.assoc)
  show ?thesis
  proof (rule that [of kss])
    show "length kss = length ds" by (rule kss(1))
    show "length m = ycsb_off (length ds)"
      using length_concat_blocks [OF bl] kss by (simp add: bs(2) ycsb_off_def)
    have "length ds mod 256 ^ 4 = length ds" using assms(2) by simp
    then show "load_u32 0 m = Inr (of_nat (length ds))"
      by (simp add: load_u32_def bs(2) load_def nat_of_bytes_bytes_of)
  next
    fix k assume k: "k < length ds"
    then show "length (kss ! k) = 10 \<and> good_keys contention (kss ! k)" by (rule lk)
    show "ycsb_ws m k = gen_write_set contention (ds ! k)"
      using rec [OF k, of 40 2] pack_txn_ws [of "kss ! k"] lk [OF k]
      by (simp add: ycsb_ws_def load_u16_def ycsb_layout)
    fix i :: nat assume i: "i < 10"
    show "ycsb_key m k i = ucast (kss ! k ! i)"
      using rec [OF k, of "4 * i" 4] pack_txn_key [of "kss ! k" i] lk [OF k] i
      by (simp add: ycsb_key_def load_u32_def ycsb_layout)
  qed
qed

lemma gen_log_wf:
  assumes "verona_ok V" and "gen_log contention ds rs = Some m" and "length ds < 2 ^ 32"
    and "ycsb_load V a DB_SIZE = Inr index"
  shows "ycsb_wf V index (length ds) m"
proof -
  obtain kss where kss: "length m = ycsb_off (length ds)"
      "\<And>k. k < length ds \<Longrightarrow> length (kss ! k) = 10 \<and> good_keys contention (kss ! k)"
      "\<And>k i. k < length ds \<Longrightarrow> i < 10 \<Longrightarrow> ycsb_key m k i = ucast (kss ! k ! i)"
    using gen_log_records [OF assms(2,3)] by metis
  have row: "\<exists>c. index_get_row key index = Inr (Some c)" if "unat key < DB_SIZE" for key
    by (rule ycsb_load_row [OF assms(1) order_refl, of a]) (use assms(4) that in auto)
  have "\<exists>c. index_get_row (ycsb_key m k i) index = Inr (Some c)" if "k < length ds" "i < 10" for k i
  proof (rule row)
    have "kss ! k ! i \<in> set (kss ! k)" using kss(2) that by simp
    then show "unat (ycsb_key m k i) < DB_SIZE"
      using kss(2,3) that by (simp add: good_keys_def ROW_COUNT_def DB_SIZE_def)
  qed
  then show ?thesis using assms(1) kss(1) by (simp add: ycsb_wf_def ROWS_PER_TX_def)
qed

section \<open>Write sets\<close>

lemma bit_shift_in:
  assumes "d = 0 \<or> d = 1"
  shows "bit (shift_in d acc) i \<longleftrightarrow> (if i = 0 then d = 1 else i < 16 \<and> bit acc (i - 1))"
proof -
  have "bit (ucast d :: u16) i \<longleftrightarrow> i = 0 \<and> d = 1" using assms by (auto simp: bit_simps)
  then show ?thesis
    unfolding shift_in_def by (simp only: bit_or_iff bit_push_bit_iff) auto
qed

lemma write_set_bit:
  assumes "set digits \<subseteq> {0, 1}" and "length digits \<le> 16"
  shows "bit (fold shift_in digits 0) i \<longleftrightarrow>
     i < length digits \<and> rev digits ! i = (1 :: u8)"
  using assms
proof (induction digits arbitrary: i rule: rev_induct)
  case Nil
  show ?case by simp
next
  case (snoc d ds)
  have d: "d = 0 \<or> d = 1" using snoc.prems(1) by auto
  then show ?case using snoc by (cases i) (auto simp: bit_shift_in)
qed

lemma write_set_card:
  assumes "set digits \<subseteq> {0, 1}" and "length digits \<le> 16"
  shows "card {i. bit (fold shift_in digits 0) i} =
     length (filter (\<lambda>d. d = (1 :: u8)) digits)"
  using length_filter_conv_card [of "\<lambda>d. d = 1" "rev digits"]
  by (simp add: write_set_bit [OF assms] flip: rev_filter)

section \<open>A generated log\<close>

text \<open>
  Enough draws for any number of transactions: the same ten keys over and over.
\<close>

definition sample_draws :: "u64 list" where
  "sample_draws = [1, 2, 3, 4, 5, 6, 7, 8, 9, 10]"

definition sample_digits :: "u8 list" where
  "sample_digits = [0, 0, 0, 0, 0, 0, 0, 0, 1, 1]"

lemma cut_key_plain: "unat r < ROW_COUNT \<Longrightarrow> cut_key False i r = ucast r"
  by (simp add: cut_key_def NrContKey_def ROW_COUNT_def mod_word_less word_less_nat_alt)

lemma accept_small:
  assumes "0 < unat r" and "unat r < 2 ^ 17" and "ucast r \<notin> set keys"
  shows "accept_key False keys r \<and> cut_key False i r = ucast r"
proof -
  have cut: "cut_key False i r = ucast r" for i
    using assms(2) by (intro cut_key_plain) (simp add: ROW_COUNT_def)
  have u: "unat (ucast (ucast r :: u32) :: u64) = unat r"
    using assms(2) by (simp add: unsigned_ucast_eq unsigned_take_bit_eq take_bit_nat_eq_self)
  have "unat (take_bit 17 (ucast (ucast r :: u32) :: u64)) = unat r"
    unfolding unsigned_take_bit_eq u using assms(2) by (simp add: take_bit_nat_eq_self)
  then have "unat (ucast (ucast r :: u32) AND key_mask) = unat r"
    by (simp only: take_bit_eq_mask key_mask_mask)
  with assms cut show ?thesis by (auto simp: accept_key_def NrContKey_def)
qed

lemma gen_keys_small:
  assumes "\<forall>r\<in>set ds. 0 < unat r \<and> unat r < 2 ^ 17" and "distinct (keys @ map ucast ds)"
  shows "gen_keys_from False (length ds) keys (ds @ rs) = Some (keys @ map ucast ds, rs)"
  using assms
proof (induction ds arbitrary: keys)
  case (Cons r ds)
  then have "accept_key False keys r \<and> cut_key False (length keys) r = ucast r"
    by (intro accept_small) auto
  with Cons show ?case by simp
qed simp

lemma sample_keys: "gen_keys False (sample_draws @ rs) = Some (map ucast sample_draws, rs)"
proof -
  have "length sample_draws = 10" "\<forall>r\<in>set sample_draws. 0 < unat r \<and> unat r < 2 ^ 17"
    "distinct ([] @ map (ucast :: u64 \<Rightarrow> u32) sample_draws)" by (simp_all add: sample_draws_def)
  then show ?thesis using gen_keys_small [of sample_draws "[]" rs] by (simp only: gen_keys_def append_Nil)
qed

lemma sample_txns:
  "\<exists>bs. gen_txns False (replicate n sample_digits) (concat (replicate n sample_draws)) = Some (bs, [])"
  by (induction n) (auto simp: gen_bin_txn_def sample_keys)

lemma sample_log:
  "\<exists>m. gen_log False (replicate n sample_digits) (concat (replicate n sample_draws)) = Some m"
  using sample_txns [of n] by (auto simp: gen_log_def)

section \<open>Properties\<close>



text \<open>
  C32. \<open>uniform_within\<close> and \<open>uniform_within_except\<close> return values of the closed range, the latter
  never the excluded one; on every range shorter than the whole of \<open>uint32_t\<close> the former returns.  The
  latter does not return when the excluded value is the only one in range.
\<close>

theorem uniform_random_ranges:
  assumes "lo \<le> hi" and "hi - lo + 1 \<noteq> 0"
  shows "(\<exists>v seed'. uniform_within lo hi seed = Inr (v, seed') \<and> lo \<le> v \<and> v \<le> hi) \<and>
    (\<forall>v seed'. uniform_within_except lo hi except seed = Some (Inr (v, seed')) \<longrightarrow>
       lo \<le> v \<and> v \<le> hi \<and> v \<noteq> except) \<and>
    uniform_within_except lo lo lo seed = None"
  using uniform_within_ok [OF assms(2), of seed] uniform_within_bounds [OF assms(1), of seed]
    uniform_within_except_range [OF _ assms(1)] uniform_within_except_stuck [of lo seed] by blast

theorem uniform_random_ranges_witness:
  "(\<exists>v seed'. uniform_within 5 9 1 = Inr (v, seed') \<and> 5 \<le> v \<and> v \<le> 9) \<and> uniform_within_except 5 5 5 1 = None"
  using uniform_random_ranges [of 5 9 1] by simp

end
