(* ===== verification/Chain.thy ===== *)
theory Chain
  imports Progress
begin

text \<open>
  The blockchain application \<^verbatim>\<open>app/chain.cc\<close> with the constants, tables and generator of
  \<^verbatim>\<open>app/chain/\<close>.  \<open>ChainTransaction\<close> is a template over four transaction classes; the class is the
  argument \<open>K\<close>.  The build is the one with \<open>INDEXER\<close> and \<open>RPC_LATENCY\<close>.  The thirty-eight arms of
  the \<open>switch\<close> over \<open>num_writes\<close> are tables of indices taken from the source, and are shown to name
  the first \<open>num_writes\<close> cowns of the record each.  Bodies only spin and count: rows keep their values.
\<close>

section \<open>Transaction classes\<close>

datatype chain_class = Mixed | Nft | P2p | Dex

fun NUM_COWN :: "chain_class \<Rightarrow> nat" where
  "NUM_COWN Mixed = 38"
| "NUM_COWN Nft = 2"
| "NUM_COWN P2p = 2"
| "NUM_COWN Dex = 1"

fun NUM_RESRC_COWN :: "chain_class \<Rightarrow> nat" where
  "NUM_RESRC_COWN Mixed = 38"
| "NUM_RESRC_COWN Nft = 1"
| "NUM_RESRC_COWN P2p = 0"
| "NUM_RESRC_COWN Dex = 1"

fun NUM_RESRC :: "chain_class \<Rightarrow> nat" where
  "NUM_RESRC Mixed = 41640"
| "NUM_RESRC Nft = 844"
| "NUM_RESRC P2p = 0"
| "NUM_RESRC Dex = 330"

fun MarshalledSize :: "chain_class \<Rightarrow> nat" where
  "MarshalledSize Mixed = 512"
| "MarshalledSize Nft = 64"
| "MarshalledSize P2p = 64"
| "MarshalledSize Dex = 64"

text \<open>\<open>SERV_TIME\<close>; the class \<open>Mixed\<close> has no such member, its time depends on the gas.\<close>

fun SERV_TIME :: "chain_class \<Rightarrow> int option" where
  "SERV_TIME Mixed = None"
| "SERV_TIME Nft = Some 240000"
| "SERV_TIME P2p = Some 334000"
| "SERV_TIME Dex = Some 240000"

definition NUM_ACCOUNTS :: nat where
  "NUM_ACCOUNTS = 289023"

text \<open>The packed \<open>Marshalled\<close> structs: where \<open>params\<close> and \<open>cown_ptrs\<close> start.\<close>

fun params_at :: "chain_class \<Rightarrow> nat" where
  "params_at Mixed = 5"
| "params_at Nft = 0"
| "params_at P2p = 0"
| "params_at Dex = 0"

fun cown_ptrs_at :: "chain_class \<Rightarrow> nat" where
  "cown_ptrs_at Mixed = 157"
| "cown_ptrs_at Nft = 8"
| "cown_ptrs_at P2p = 8"
| "cown_ptrs_at Dex = 4"

definition chain_param :: "chain_class \<Rightarrow> nat \<Rightarrow> nat \<Rightarrow> mem \<Rightarrow> u32 result" where
  "chain_param K input i m =
     (if i < NUM_COWN K then load_u32 (input + params_at K + 4 * i) m else Inl OutOfBounds)"

definition chain_slot :: "chain_class \<Rightarrow> nat \<Rightarrow> nat \<Rightarrow> nat" where
  "chain_slot K input i = input + cown_ptrs_at K + 8 * i"

text \<open>\<open>num_writes\<close> and \<open>gas\<close> of \<open>Mixed::Marshalled\<close>.\<close>

definition mixed_num_writes :: "nat \<Rightarrow> mem \<Rightarrow> u8 result" where
  "mixed_num_writes input m = load_u8 input m"

definition mixed_gas :: "nat \<Rightarrow> mem \<Rightarrow> u32 result" where
  "mixed_gas input m = load_u32 (input + 1) m"

section \<open>Tables and their rows\<close>

text \<open>The rows, \<open>Resource\<close> and \<open>User\<close>, hold one value that the constructor sets to 0.\<close>

record 'c chain_db =
  resource_table :: "'c table"
  user_table :: "'c table"

definition new_chain_db :: "chain_class \<Rightarrow> 'c chain_db" where
  "new_chain_db K = \<lparr>resource_table = new_table (NUM_RESRC K), user_table = new_table NUM_ACCOUNTS\<rparr>"

text \<open>One pass of the loops of \<open>generateResources\<close> and \<open>generateUsers\<close>, for the row number \<open>r_id\<close>.\<close>

definition generate_row :: "'c verona \<Rightarrow> u64 \<Rightarrow> nat \<Rightarrow> 'c table \<Rightarrow> 'c table result" where
  "generate_row V table_addr r_id t =
     (let hash_key = (of_nat r_id :: u64) - 1; w = make_cown_custom V (table_addr + 1024 * hash_key) in
      rmap snd (insert_row hash_key w t))"

definition generateResources :: "chain_class \<Rightarrow> 'c verona \<Rightarrow> u64 \<Rightarrow> 'c chain_db \<Rightarrow> 'c chain_db result" where
  "generateResources K V resource_table_addr db =
     rmap (\<lambda>t. db\<lparr>resource_table := t\<rparr>)
       (rfold (generate_row V resource_table_addr) [1..<Suc (NUM_RESRC K)] (resource_table db))"

definition generateUsers :: "'c verona \<Rightarrow> u64 \<Rightarrow> 'c chain_db \<Rightarrow> 'c chain_db result" where
  "generateUsers V user_table_addr db =
     rmap (\<lambda>t. db\<lparr>user_table := t\<rparr>)
       (rfold (generate_row V user_table_addr) [1..<Suc NUM_ACCOUNTS] (user_table db))"

text \<open>
  The part of \<open>main\<close> that builds the database, with the allocated array at \<open>addr\<close>: resources first,
  users behind them.
\<close>

definition chain_load :: "chain_class \<Rightarrow> 'c verona \<Rightarrow> u64 \<Rightarrow> 'c chain_db result" where
  "chain_load K V addr =
     (let resource_addr = addr; user_addr = addr + 1024 * of_nat (NUM_RESRC K);
          db0 = new_chain_db K;
          db = db0\<lparr>resource_table := (resource_table db0)\<lparr>start_addr := resource_addr\<rparr>,
                   user_table := (user_table db0)\<lparr>start_addr := user_addr\<rparr>\<rparr> in
      rbind (generateResources K V resource_addr db) (generateUsers V user_addr))"

section \<open>The transaction class\<close>

text \<open>\<open>txm->cown_ptrs[i] = table.get_row_addr(txm->params[i] - 1)->get_base_addr()\<close>.\<close>

definition chain_put :: "chain_class \<Rightarrow> 'c verona \<Rightarrow> 'c table \<Rightarrow> nat \<Rightarrow> nat \<Rightarrow> mem \<Rightarrow> mem result" where
  "chain_put K V t input i m =
     rbind (chain_param K input i m) (\<lambda>p.
     rbind (get_row_addr (ucast (p - 1)) t) (\<lambda>cown.
       case cown of
         None \<Rightarrow> Inl NullCown
       | Some c \<Rightarrow> store_u64 (chain_slot K input i) (get_base_addr V c) m))"

definition chain_prepare_cowns ::
  "chain_class \<Rightarrow> 'c verona \<Rightarrow> 'c chain_db \<Rightarrow> nat \<Rightarrow> mem \<Rightarrow> (nat \<times> mem) result" where
  "chain_prepare_cowns K V index input m =
     rmap (Pair (MarshalledSize K))
       (if K = Mixed
        then rbind (mixed_num_writes input m) (\<lambda>num_writes.
          rfold (chain_put K V (resource_table index) input) [0..<unat num_writes] m)
        else rbind (rfold (chain_put K V (resource_table index) input) [0..<NUM_RESRC_COWN K] m)
          (rfold (chain_put K V (user_table index) input) [NUM_RESRC_COWN K..<NUM_COWN K]))"

definition chain_prefetch_cowns :: "chain_class \<Rightarrow> nat \<Rightarrow> mem \<Rightarrow> (nat \<times> u64 list) result" where
  "chain_prefetch_cowns K input m =
     rmap (Pair (MarshalledSize K)) (rmapM (\<lambda>i. load_u64 (chain_slot K input i) m) [0..<NUM_COWN K])"

text \<open>A spawned behaviour: the cowns it names, its class, and the captured gas and arrival time.\<close>

record 'c chain_when =
  cw_class :: chain_class
  cw_cowns :: "'c list"
  cw_gas :: u32
  cw_init_time :: int

text \<open>
  The arms of the \<open>switch\<close>: the value of \<open>num_writes\<close>, the argument of \<open>REPEAT\<close>, which declares
  \<open>r0\<close>, \<open>r1\<close> and so on, and the indices of the variables in \<open>WHEN_C\<close>.
\<close>

definition mixed_arms_1_9 :: "(nat \<times> nat \<times> nat list) list" where
  "mixed_arms_1_9 =
     [(1, 1, [0]),
      (2, 2, [0, 1]),
      (3, 3, [0, 1, 2]),
      (4, 4, [0, 1, 2, 3]),
      (5, 5, [0, 1, 2, 3, 4]),
      (6, 6, [0, 1, 2, 3, 4, 5]),
      (7, 7, [0, 1, 2, 3, 4, 5, 6]),
      (8, 8, [0, 1, 2, 3, 4, 5, 6, 7]),
      (9, 9, [0, 1, 2, 3, 4, 5, 6, 7, 8])]"

definition mixed_arms_10_14 :: "(nat \<times> nat \<times> nat list) list" where
  "mixed_arms_10_14 =
     [(10, 10, [0, 1, 2, 3, 4, 5, 6, 7, 8, 9]),
      (11, 11, [0, 1, 2, 3, 4, 5, 6, 7, 8, 9, 10]),
      (12, 12, [0, 1, 2, 3, 4, 5, 6, 7, 8, 9, 10, 11]),
      (13, 13, [0, 1, 2, 3, 4, 5, 6, 7, 8, 9, 10, 11, 12]),
      (14, 14, [0, 1, 2, 3, 4, 5, 6, 7, 8, 9, 10, 11, 12, 13])]"

definition mixed_arms_15_17 :: "(nat \<times> nat \<times> nat list) list" where
  "mixed_arms_15_17 =
     [(15, 15, [0, 1, 2, 3, 4, 5, 6, 7, 8, 9, 10, 11, 12, 13, 14]),
      (16, 16, [0, 1, 2, 3, 4, 5, 6, 7, 8, 9, 10, 11, 12, 13, 14, 15]),
      (17, 17, [0, 1, 2, 3, 4, 5, 6, 7, 8, 9, 10, 11, 12, 13, 14, 15, 16])]"

definition mixed_arms_18_20 :: "(nat \<times> nat \<times> nat list) list" where
  "mixed_arms_18_20 =
     [(18, 18, [0, 1, 2, 3, 4, 5, 6, 7, 8, 9, 10, 11, 12, 13, 14, 15, 16, 17]),
      (19, 19, [0, 1, 2, 3, 4, 5, 6, 7, 8, 9, 10, 11, 12, 13, 14, 15, 16, 17, 18]),
      (20, 20, [0, 1, 2, 3, 4, 5, 6, 7, 8, 9, 10, 11, 12, 13, 14, 15, 16, 17, 18, 19])]"

definition mixed_arms_21_22 :: "(nat \<times> nat \<times> nat list) list" where
  "mixed_arms_21_22 =
     [(21, 21, [0, 1, 2, 3, 4, 5, 6, 7, 8, 9, 10, 11, 12, 13, 14, 15, 16, 17, 18, 19, 20]),
      (22, 22, [0, 1, 2, 3, 4, 5, 6, 7, 8, 9, 10, 11, 12, 13, 14, 15, 16, 17, 18, 19, 20, 21])]"

definition mixed_arms_23_24 :: "(nat \<times> nat \<times> nat list) list" where
  "mixed_arms_23_24 =
     [(23, 23, [0, 1, 2, 3, 4, 5, 6, 7, 8, 9, 10, 11, 12, 13, 14, 15, 16, 17, 18, 19, 20, 21, 22]),
      (24, 24, [0, 1, 2, 3, 4, 5, 6, 7, 8, 9, 10, 11, 12, 13, 14, 15, 16, 17, 18, 19, 20, 21, 22,
              23])]"

definition mixed_arms_25_26 :: "(nat \<times> nat \<times> nat list) list" where
  "mixed_arms_25_26 =
     [(25, 25, [0, 1, 2, 3, 4, 5, 6, 7, 8, 9, 10, 11, 12, 13, 14, 15, 16, 17, 18, 19, 20, 21, 22,
              23, 24]),
      (26, 26, [0, 1, 2, 3, 4, 5, 6, 7, 8, 9, 10, 11, 12, 13, 14, 15, 16, 17, 18, 19, 20, 21, 22,
              23, 24, 25])]"

definition mixed_arms_27_28 :: "(nat \<times> nat \<times> nat list) list" where
  "mixed_arms_27_28 =
     [(27, 27, [0, 1, 2, 3, 4, 5, 6, 7, 8, 9, 10, 11, 12, 13, 14, 15, 16, 17, 18, 19, 20, 21, 22,
              23, 24, 25, 26]),
      (28, 28, [0, 1, 2, 3, 4, 5, 6, 7, 8, 9, 10, 11, 12, 13, 14, 15, 16, 17, 18, 19, 20, 21, 22,
              23, 24, 25, 26, 27])]"

definition mixed_arms_29_30 :: "(nat \<times> nat \<times> nat list) list" where
  "mixed_arms_29_30 =
     [(29, 29, [0, 1, 2, 3, 4, 5, 6, 7, 8, 9, 10, 11, 12, 13, 14, 15, 16, 17, 18, 19, 20, 21, 22,
              23, 24, 25, 26, 27, 28]),
      (30, 30, [0, 1, 2, 3, 4, 5, 6, 7, 8, 9, 10, 11, 12, 13, 14, 15, 16, 17, 18, 19, 20, 21, 22,
              23, 24, 25, 26, 27, 28, 29])]"

definition mixed_arms_31_32 :: "(nat \<times> nat \<times> nat list) list" where
  "mixed_arms_31_32 =
     [(31, 31, [0, 1, 2, 3, 4, 5, 6, 7, 8, 9, 10, 11, 12, 13, 14, 15, 16, 17, 18, 19, 20, 21, 22,
              23, 24, 25, 26, 27, 28, 29, 30]),
      (32, 32, [0, 1, 2, 3, 4, 5, 6, 7, 8, 9, 10, 11, 12, 13, 14, 15, 16, 17, 18, 19, 20, 21, 22,
              23, 24, 25, 26, 27, 28, 29, 30, 31])]"

definition mixed_arms_33_34 :: "(nat \<times> nat \<times> nat list) list" where
  "mixed_arms_33_34 =
     [(33, 33, [0, 1, 2, 3, 4, 5, 6, 7, 8, 9, 10, 11, 12, 13, 14, 15, 16, 17, 18, 19, 20, 21, 22,
              23, 24, 25, 26, 27, 28, 29, 30, 31, 32]),
      (34, 34, [0, 1, 2, 3, 4, 5, 6, 7, 8, 9, 10, 11, 12, 13, 14, 15, 16, 17, 18, 19, 20, 21, 22,
              23, 24, 25, 26, 27, 28, 29, 30, 31, 32, 33])]"

definition mixed_arms_35 :: "(nat \<times> nat \<times> nat list) list" where
  "mixed_arms_35 =
     [(35, 35, [0, 1, 2, 3, 4, 5, 6, 7, 8, 9, 10, 11, 12, 13, 14, 15, 16, 17, 18, 19, 20, 21, 22,
              23, 24, 25, 26, 27, 28, 29, 30, 31, 32, 33, 34])]"

definition mixed_arms_36 :: "(nat \<times> nat \<times> nat list) list" where
  "mixed_arms_36 =
     [(36, 36, [0, 1, 2, 3, 4, 5, 6, 7, 8, 9, 10, 11, 12, 13, 14, 15, 16, 17, 18, 19, 20, 21, 22,
              23, 24, 25, 26, 27, 28, 29, 30, 31, 32, 33, 34, 35])]"

definition mixed_arms_37 :: "(nat \<times> nat \<times> nat list) list" where
  "mixed_arms_37 =
     [(37, 37, [0, 1, 2, 3, 4, 5, 6, 7, 8, 9, 10, 11, 12, 13, 14, 15, 16, 17, 18, 19, 20, 21, 22,
              23, 24, 25, 26, 27, 28, 29, 30, 31, 32, 33, 34, 35, 36])]"

definition mixed_arms_38 :: "(nat \<times> nat \<times> nat list) list" where
  "mixed_arms_38 =
     [(38, 38, [0, 1, 2, 3, 4, 5, 6, 7, 8, 9, 10, 11, 12, 13, 14, 15, 16, 17, 18, 19, 20, 21, 22,
              23, 24, 25, 26, 27, 28, 29, 30, 31, 32, 33, 34, 35, 36, 37])]"

definition mixed_switch :: "nat \<Rightarrow> (nat \<times> nat list) option" where
  "mixed_switch = map_of (mixed_arms_1_9 @ mixed_arms_10_14 @ mixed_arms_15_17 @ mixed_arms_18_20 @
     mixed_arms_21_22 @ mixed_arms_23_24 @ mixed_arms_25_26 @ mixed_arms_27_28 @ mixed_arms_29_30 @
     mixed_arms_31_32 @ mixed_arms_33_34 @ mixed_arms_35 @ mixed_arms_36 @ mixed_arms_37 @ mixed_arms_38)"

text \<open>\<open>GET_COWN\<close>: the declared variables; \<open>WHEN_C\<close>: the variables named, each a declared one.\<close>

definition chain_get_cown :: "chain_class \<Rightarrow> 'c verona \<Rightarrow> nat \<Rightarrow> mem \<Rightarrow> nat \<Rightarrow> 'c result" where
  "chain_get_cown K V input m i =
     (if i < NUM_COWN K then rmap (get_cown_ptr_from_addr V) (load_u64 (chain_slot K input i) m)
      else Inl OutOfBounds)"

definition mixed_arm :: "'c verona \<Rightarrow> nat \<Rightarrow> mem \<Rightarrow> nat \<times> nat list \<Rightarrow> 'c list result" where
  "mixed_arm V input m arm = (case arm of (cnt, named) \<Rightarrow>
     rbind (rmapM (chain_get_cown Mixed V input m) [0..<cnt]) (\<lambda>rs.
       if \<forall>i\<in>set named. i < length rs then Inr (map (\<lambda>i. rs ! i) named) else Inl OutOfBounds))"

definition chain_parse_and_process ::
  "chain_class \<Rightarrow> 'c verona \<Rightarrow> nat \<Rightarrow> int \<Rightarrow> mem \<Rightarrow> (nat \<times> 'c chain_when option) result" where
  "chain_parse_and_process K V input init_time m =
     rmap (Pair (MarshalledSize K))
       (case K of
          Mixed \<Rightarrow>
            rbind (mixed_gas input m) (\<lambda>gas.
            rbind (mixed_num_writes input m) (\<lambda>num_writes.
              case mixed_switch (unat num_writes) of
                None \<Rightarrow> Inr None
              | Some arm \<Rightarrow> rmap (\<lambda>cs. Some \<lparr>cw_class = Mixed, cw_cowns = cs, cw_gas = gas,
                                  cw_init_time = init_time\<rparr>) (mixed_arm V input m arm)))
        | Nft \<Rightarrow>
            rbind (chain_get_cown K V input m 0) (\<lambda>r.
            rbind (chain_get_cown K V input m 1) (\<lambda>u.
              Inr (Some \<lparr>cw_class = Nft, cw_cowns = [r, u], cw_gas = 0, cw_init_time = init_time\<rparr>)))
        | P2p \<Rightarrow>
            rbind (chain_get_cown K V input m 0) (\<lambda>s.
            rbind (chain_get_cown K V input m 1) (\<lambda>r.
              Inr (Some \<lparr>cw_class = P2p, cw_cowns = [s, r], cw_gas = 0, cw_init_time = init_time\<rparr>)))
        | Dex \<Rightarrow>
            rbind (chain_get_cown K V input m 0) (\<lambda>r.
              Inr (Some \<lparr>cw_class = Dex, cw_cowns = [r], cw_gas = 0, cw_init_time = init_time\<rparr>)))"

definition ChainTransaction ::
  "chain_class \<Rightarrow> 'c verona \<Rightarrow> 'c chain_db \<Rightarrow> (mem, 'c chain_when) txn_type" where
  "ChainTransaction K V index =
     \<lparr>prepare_cowns = chain_prepare_cowns K V index, prefetch_cowns = chain_prefetch_cowns K,
      parse_and_process = chain_parse_and_process K V\<rparr>"

text \<open>
  The bodies: compute a deadline from a clock reading and spin until the clock reaches it.
  \<open>12000 * gas\<close> is a 32-bit product.  The clock is a list of readings, the first of them the one the
  deadline is computed from; \<open>None\<close> means that the readings end before the deadline.
\<close>

definition chain_deadline :: "'c chain_when \<Rightarrow> int \<Rightarrow> int" where
  "chain_deadline w start = (case SERV_TIME (cw_class w) of
     None \<Rightarrow> start + 146000 + uint (12000 * cw_gas w) | Some t \<Rightarrow> start + t)"

fun spin_until :: "int \<Rightarrow> int list \<Rightarrow> int list option" where
  "spin_until next_ts [] = None"
| "spin_until next_ts (t # ts) = (if t < next_ts then spin_until next_ts ts else Some ts)"

definition chain_body :: "'c chain_when \<Rightarrow> int list \<Rightarrow> int list option" where
  "chain_body w clock = (case clock of [] \<Rightarrow> None | start # ts \<Rightarrow> spin_until (chain_deadline w start) ts)"

section \<open>The arms name the first cowns\<close>

lemmas mixed_arms_defs = mixed_arms_1_9_def mixed_arms_10_14_def mixed_arms_15_17_def
  mixed_arms_18_20_def mixed_arms_21_22_def mixed_arms_23_24_def mixed_arms_25_26_def
  mixed_arms_27_28_def mixed_arms_29_30_def mixed_arms_31_32_def mixed_arms_33_34_def
  mixed_arms_35_def mixed_arms_36_def mixed_arms_37_def mixed_arms_38_def

lemma mixed_arms_all:
  "mixed_arms_1_9 @ mixed_arms_10_14 @ mixed_arms_15_17 @ mixed_arms_18_20 @
     mixed_arms_21_22 @ mixed_arms_23_24 @ mixed_arms_25_26 @ mixed_arms_27_28 @ mixed_arms_29_30 @
     mixed_arms_31_32 @ mixed_arms_33_34 @ mixed_arms_35 @ mixed_arms_36 @ mixed_arms_37 @ mixed_arms_38 =
   map (\<lambda>n. (n, n, [0..<n])) [1..<39]"
  by code_simp

lemma map_of_upt: "map_of (map (\<lambda>n. (n, f n)) [a..<b]) n = (if a \<le> n \<and> n < b then Some (f n) else None)"
  by (simp add: map_of_map_restrict)

lemma mixed_switch_eq: "mixed_switch n = (if 1 \<le> n \<and> n \<le> 38 then Some (n, [0..<n]) else None)"
  unfolding mixed_switch_def mixed_arms_all map_of_upt by auto

section \<open>Records of the log\<close>

definition chain_off :: "chain_class \<Rightarrow> nat \<Rightarrow> nat" where
  "chain_off K k = 4 + MarshalledSize K * k"

text \<open>The number of cowns record \<open>k\<close> names, the table of its \<open>i\<close>-th parameter, and its \<open>i\<close>-th cown.\<close>

definition chain_cnt :: "chain_class \<Rightarrow> nat \<Rightarrow> mem \<Rightarrow> nat" where
  "chain_cnt K k m = (if K = Mixed
     then (case mixed_num_writes (chain_off K k) m of Inr w \<Rightarrow> unat w | Inl _ \<Rightarrow> 0) else NUM_COWN K)"

definition chain_gas :: "chain_class \<Rightarrow> nat \<Rightarrow> mem \<Rightarrow> u32" where
  "chain_gas K k m = (if K = Mixed
     then (case mixed_gas (chain_off K k) m of Inr g \<Rightarrow> g | Inl _ \<Rightarrow> 0) else 0)"

definition chain_table :: "chain_class \<Rightarrow> 'c chain_db \<Rightarrow> nat \<Rightarrow> 'c table" where
  "chain_table K db i = (if i < NUM_RESRC_COWN K then resource_table db else user_table db)"

definition chain_row :: "chain_class \<Rightarrow> 'c chain_db \<Rightarrow> nat \<Rightarrow> mem \<Rightarrow> nat \<Rightarrow> 'c option result" where
  "chain_row K db k m i =
     rbind (chain_param K (chain_off K k) i m) (\<lambda>p. get_row_addr (ucast (p - 1)) (chain_table K db i))"

definition chain_cown :: "chain_class \<Rightarrow> 'c verona \<Rightarrow> 'c chain_db \<Rightarrow> nat \<Rightarrow> mem \<Rightarrow> nat \<Rightarrow> 'c" where
  "chain_cown K V db k m i = (case chain_row K db k m i of
     Inr (Some c) \<Rightarrow> c | _ \<Rightarrow> get_cown_ptr_from_addr V 0)"

definition chain_decode :: "chain_class \<Rightarrow> 'c verona \<Rightarrow> 'c chain_db \<Rightarrow> nat \<Rightarrow> int \<Rightarrow> mem \<Rightarrow> 'c chain_when" where
  "chain_decode K V db k ts m =
     \<lparr>cw_class = K, cw_cowns = map (chain_cown K V db k m) [0..<chain_cnt K k m],
      cw_gas = chain_gas K k m, cw_init_time = ts\<rparr>"

definition chain_prepared :: "chain_class \<Rightarrow> 'c verona \<Rightarrow> 'c chain_db \<Rightarrow> nat \<Rightarrow> mem \<Rightarrow> bool" where
  "chain_prepared K V db k m \<longleftrightarrow> chain_cnt K k m \<le> NUM_COWN K \<and> (\<forall>i<chain_cnt K k m.
     load_u64 (chain_slot K (chain_off K k) i) m = Inr (get_base_addr V (chain_cown K V db k m i)))"

text \<open>A log of \<open>n\<close> records that name one to \<open>NUM_COWN\<close> existing rows each.\<close>

definition chain_wf :: "chain_class \<Rightarrow> 'c verona \<Rightarrow> 'c chain_db \<Rightarrow> nat \<Rightarrow> mem \<Rightarrow> bool" where
  "chain_wf K V db n m \<longleftrightarrow> verona_ok V \<and> length m = chain_off K n \<and>
     (\<forall>k<n. 1 \<le> chain_cnt K k m \<and> chain_cnt K k m \<le> NUM_COWN K \<and>
        (\<forall>i<chain_cnt K k m. \<exists>c. chain_row K db k m i = Inr (Some c)))"

lemma chain_layout:
  "params_at K + 4 * NUM_COWN K \<le> cown_ptrs_at K" "cown_ptrs_at K + 8 * NUM_COWN K \<le> MarshalledSize K"
  by (cases K; simp)+

abbreviation ptr_area :: "chain_class \<Rightarrow> nat \<Rightarrow> mem \<Rightarrow> mem \<Rightarrow> bool" where
  "ptr_area K k \<equiv> same_outside (chain_off K k + cown_ptrs_at K) (chain_off K k + cown_ptrs_at K + 8 * NUM_COWN K)"

lemma chain_apart:
  assumes "j \<noteq> k" and "a \<le> MarshalledSize K" and "b \<le> MarshalledSize K"
  shows "chain_off K j + a \<le> chain_off K k \<or> chain_off K k + b \<le> chain_off K j"
proof (cases "j < k")
  case True
  then have "MarshalledSize K * (j + 1) \<le> MarshalledSize K * k"
    by (intro mult_le_mono) auto
  then show ?thesis using assms(2) by (auto simp: chain_off_def algebra_simps)
next
  case False
  then have "MarshalledSize K * (k + 1) \<le> MarshalledSize K * j"
    using assms(1) by (intro mult_le_mono) auto
  then show ?thesis using assms(3) by (auto simp: chain_off_def algebra_simps)
qed

lemma ptr_area_load:
  assumes "ptr_area K k m m'" and "a + n \<le> cown_ptrs_at K \<or> j \<noteq> k \<and> a + n \<le> MarshalledSize K"
  shows "load n (chain_off K j + a) m' = load n (chain_off K j + a) m"
proof (rule same_outside_load [OF assms(1)])
  consider "j = k" "a + n \<le> cown_ptrs_at K" | "j \<noteq> k" "a + n \<le> MarshalledSize K"
    using assms(2) chain_layout(2) [of K] by linarith
  then show "chain_off K j + a + n \<le> chain_off K k + cown_ptrs_at K \<or>
      chain_off K k + cown_ptrs_at K + 8 * NUM_COWN K \<le> chain_off K j + a"
  proof cases
    case 2
    then show ?thesis
      using chain_apart [of j k "a + n" K "cown_ptrs_at K + 8 * NUM_COWN K"] chain_layout(2) [of K] by linarith
  qed simp
qed

lemma ptr_area_fields:
  assumes "ptr_area K k m m'"
  shows "chain_cnt K j m' = chain_cnt K j m" and "chain_gas K j m' = chain_gas K j m"
    and "chain_param K (chain_off K j) i m' = chain_param K (chain_off K j) i m"
proof -
  show "chain_param K (chain_off K j) i m' = chain_param K (chain_off K j) i m"
    using ptr_area_load [OF assms, of "params_at K + 4 * i" 4 j] chain_layout(1) [of K]
    by (simp add: chain_param_def typed_loads add.assoc)
  have "chain_cnt K j m' = chain_cnt K j m \<and> chain_gas K j m' = chain_gas K j m"
    using ptr_area_load [OF assms, of 0 1 j] ptr_area_load [OF assms, of 1 4 j]
    by (cases K; simp add: chain_cnt_def chain_gas_def mixed_num_writes_def mixed_gas_def typed_loads)
  then show "chain_cnt K j m' = chain_cnt K j m" and "chain_gas K j m' = chain_gas K j m" by simp_all
qed

lemma ptr_area_cown:
  "ptr_area K k m m' \<Longrightarrow> chain_row K db j m' = chain_row K db j m"
  "ptr_area K k m m' \<Longrightarrow> chain_cown K V db j m' = chain_cown K V db j m"
  by (intro ext, simp add: chain_row_def chain_cown_def ptr_area_fields)+

lemma ptr_area_decode: "ptr_area K k m m' \<Longrightarrow> chain_decode K V db j ts m' = chain_decode K V db j ts m"
  by (simp add: chain_decode_def ptr_area_fields ptr_area_cown)

lemma ptr_area_wf: "ptr_area K k m m' \<Longrightarrow> chain_wf K V db n m \<Longrightarrow> chain_wf K V db n m'"
  by (simp add: chain_wf_def ptr_area_fields ptr_area_cown same_outside_length)

lemma ptr_area_prepared:
  assumes "ptr_area K k m m'" and "chain_prepared K V db k m'"
  shows "chain_prepared K V db j m \<Longrightarrow> chain_prepared K V db j m'"
proof (cases "j = k")
  case False
  assume prep: "chain_prepared K V db j m"
  have "load_u64 (chain_slot K (chain_off K j) i) m' = load_u64 (chain_slot K (chain_off K j) i) m"
    if "i < chain_cnt K j m" for i
  proof -
    have "i < NUM_COWN K" using that prep by (simp add: chain_prepared_def)
    then show ?thesis
      using ptr_area_load [OF assms(1), of "cown_ptrs_at K + 8 * i" 8 j] chain_layout(2) [of K] False
      by (simp add: chain_slot_def load_u64_def add.assoc)
  qed
  with prep show ?thesis
    by (simp add: chain_prepared_def ptr_area_fields [OF assms(1)] ptr_area_cown [OF assms(1)])
qed (use assms in simp)

lemma chain_wf_load:
  assumes "chain_wf K V db n m" and "k < n" and "a + b \<le> MarshalledSize K"
  shows "\<exists>x. load b (chain_off K k + a) m = Inr x"
proof -
  have "chain_off K k + a + b \<le> chain_off K n"
    using chain_apart [of k n "a + b" K 1] assms(2,3) by (cases K) (auto simp: chain_off_def)
  then show ?thesis using assms(1) by (simp add: chain_wf_def load_ok)
qed

lemma chain_wf_row:
  assumes "chain_wf K V db n m" and "k < n" and "i < chain_cnt K k m"
  shows "\<exists>p. chain_param K (chain_off K k) i m = Inr p \<and>
    get_row_addr (ucast (p - 1)) (chain_table K db i) = Inr (Some (chain_cown K V db k m i))"
proof -
  obtain c where "chain_row K db k m i = Inr (Some c)"
    using assms by (auto simp: chain_wf_def)
  then show ?thesis by (auto simp: chain_cown_def chain_row_def result_simps)
qed

section \<open>The contract of the pipeline\<close>

lemma chain_put_store:
  assumes "chain_wf K V db n m" and "k < n" and "ptr_area K k m m1" and "i < chain_cnt K k m"
  shows "chain_put K V (chain_table K db i) (chain_off K k) i m1 =
    store_u64 (chain_off K k + cown_ptrs_at K + 8 * i) (get_base_addr V (chain_cown K V db k m i)) m1"
  using chain_wf_row [OF assms(1,2,4)] ptr_area_fields(3) [OF assms(3), of k i]
  by (auto simp: chain_put_def chain_slot_def)

text \<open>The loops of \<open>prepare_cowns\<close>, for every class, run over the cowns of the record.\<close>

lemma chain_prepare_loop:
  assumes "chain_wf K V db n m" and "k < n"
  shows "chain_prepare_cowns K V db (chain_off K k) m = rmap (Pair (MarshalledSize K))
    (rfold (\<lambda>i. chain_put K V (chain_table K db i) (chain_off K k) i) [0..<chain_cnt K k m] m)"
proof (cases "K = Mixed")
  case True
  obtain w where w: "mixed_num_writes (chain_off K k) m = Inr w"
    using chain_wf_load [OF assms, of 0 1] True by (auto simp: mixed_num_writes_def load_u8_def)
  then have cnt: "chain_cnt K k m = unat w" "unat w \<le> 38"
    using assms True by (auto simp: chain_cnt_def chain_wf_def)
  have "rfold (chain_put K V (resource_table db) (chain_off K k)) [0..<unat w] m =
      rfold (\<lambda>i. chain_put K V (chain_table K db i) (chain_off K k) i) [0..<unat w] m"
    using cnt(2) True by (intro rfold_cong) (auto simp: chain_table_def)
  with w cnt True show ?thesis by (simp add: chain_prepare_cowns_def)
next
  case False
  let ?f = "\<lambda>i. chain_put K V (chain_table K db i) (chain_off K k) i"
  have "[0..<chain_cnt K k m] = [0..<NUM_RESRC_COWN K] @ [NUM_RESRC_COWN K..<NUM_COWN K]"
    using False by (cases K) (simp_all add: chain_cnt_def upt_rec)
  moreover have "rfold (chain_put K V (resource_table db) (chain_off K k)) [0..<NUM_RESRC_COWN K] s =
      rfold ?f [0..<NUM_RESRC_COWN K] s" for s
    by (intro rfold_cong) (auto simp: chain_table_def)
  moreover have "rfold (chain_put K V (user_table db) (chain_off K k)) [NUM_RESRC_COWN K..<NUM_COWN K] =
      rfold ?f [NUM_RESRC_COWN K..<NUM_COWN K]"
    by (intro ext rfold_cong) (auto simp: chain_table_def)
  ultimately show ?thesis
    using False by (simp add: chain_prepare_cowns_def rfold_append)
qed

lemma chain_prepare_ok:
  assumes "chain_wf K V db n m" and "k < n"
  shows "\<exists>m'. chain_prepare_cowns K V db (chain_off K k) m = Inr (MarshalledSize K, m') \<and>
     ptr_area K k m m' \<and> chain_prepared K V db k m'"
proof -
  let ?a = "chain_off K k + cown_ptrs_at K" and ?c = "chain_cnt K k m"
  let ?v = "\<lambda>i. get_base_addr V (chain_cown K V db k m i)"
  let ?f = "\<lambda>i. chain_put K V (chain_table K db i) (chain_off K k) i"
  have c: "?c \<le> NUM_COWN K" using assms by (simp add: chain_wf_def)
  have area: "ptr_area K k m m1" if "same_outside ?a (?a + 8 * ?c) m m1" for m1
    using that c by (auto simp: same_outside_def)
  have "?f i m1 = store_u64 (?a + 8 * i) (?v i) m1"
    if "i < ?c" "same_outside ?a (?a + 8 * ?c) m m1" for i m1
    using chain_put_store [OF assms area [OF that(2)] that(1)] .
  moreover have "?a + 8 * ?c \<le> length m"
    using chain_wf_load [OF assms, of "cown_ptrs_at K" "8 * ?c"] chain_layout(2) [of K] c
    by (auto simp: load_def split: if_splits)
  ultimately obtain m' where m': "rfold ?f [0..<?c] m = Inr m'" "ptr_area K k m m'"
      "\<forall>i<?c. load_u64 (?a + 8 * i) m' = Inr (?v i)"
    using fill_loop [of ?c ?a m ?f ?v] area by blast
  then have "chain_prepared K V db k m'"
    using c by (simp add: chain_prepared_def ptr_area_fields ptr_area_cown chain_slot_def)
  with m' show ?thesis by (simp add: chain_prepare_loop [OF assms])
qed

lemma chain_get_cowns:
  assumes "chain_wf K V db n m" and "k < n" and "chain_prepared K V db k m" and "i < chain_cnt K k m"
  shows "chain_get_cown K V (chain_off K k) m i = Inr (chain_cown K V db k m i)"
  using assms by (auto simp: chain_get_cown_def chain_prepared_def chain_wf_def)

lemma chain_parse_ok:
  assumes "chain_wf K V db n m" and "k < n" and "chain_prepared K V db k m"
  shows "chain_parse_and_process K V (chain_off K k) ts m = Inr (MarshalledSize K, Some (chain_decode K V db k ts m))"
proof (cases "K = Mixed")
  case True
  obtain w g where wg: "mixed_num_writes (chain_off K k) m = Inr w" "mixed_gas (chain_off K k) m = Inr g"
    using chain_wf_load [OF assms(1,2), of 0 1] chain_wf_load [OF assms(1,2), of 1 4] True
    by (auto simp: mixed_num_writes_def mixed_gas_def typed_loads)
  then have cnt: "chain_cnt K k m = unat w" "1 \<le> unat w" "unat w \<le> 38"
    using assms(1,2) True by (auto simp: chain_cnt_def chain_wf_def)
  have "rmapM (chain_get_cown Mixed V (chain_off K k) m) [0..<unat w] =
      Inr (map (chain_cown K V db k m) [0..<unat w])"
    using chain_get_cowns [OF assms] cnt(1) True by (intro rmapM_ok) simp
  then have "mixed_arm V (chain_off K k) m (unat w, [0..<unat w]) = Inr (map (chain_cown K V db k m) [0..<unat w])"
    by (simp add: mixed_arm_def map_nth)
  with wg cnt True show ?thesis
    by (simp add: chain_parse_and_process_def mixed_switch_eq chain_decode_def chain_gas_def)
next
  case False
  then have "chain_cnt K k m = NUM_COWN K" "chain_gas K k m = 0" by (simp_all add: chain_cnt_def chain_gas_def)
  then show ?thesis
    using chain_get_cowns [OF assms] False
    by (cases K) (simp_all add: chain_parse_and_process_def chain_decode_def upt_rec)
qed

interpretation chain: txn_contract "ChainTransaction K V db" "MarshalledSize K" 4 n "chain_wf K V db n"
    "chain_prepared K V db" "chain_decode K V db"
  for K :: chain_class and V :: "'c verona" and db :: "'c chain_db" and n :: nat
proof
  fix m k
  assume wf: "chain_wf K V db n m" "k < n"
  from chain_prepare_ok [OF this] obtain m' where
    "chain_prepare_cowns K V db (chain_off K k) m = Inr (MarshalledSize K, m')" "ptr_area K k m m'"
    "chain_prepared K V db k m'" by blast
  then show "\<exists>m'. prepare_cowns (ChainTransaction K V db) (4 + MarshalledSize K * k) m = Inr (MarshalledSize K, m') \<and>
      chain_wf K V db n m' \<and> chain_prepared K V db k m' \<and>
      (\<forall>j. chain_prepared K V db j m \<longrightarrow> chain_prepared K V db j m') \<and>
      (\<forall>j ts. chain_decode K V db j ts m' = chain_decode K V db j ts m)"
    using ptr_area_wf ptr_area_prepared ptr_area_decode wf(1)
    by (intro exI [of _ m']) (auto simp: ChainTransaction_def chain_off_def)
next
  fix m k
  assume wf: "chain_wf K V db n m" "k < n"
  have "\<exists>x. load_u64 (chain_slot K (chain_off K k) i) m = Inr x" if "i \<in> set [0..<NUM_COWN K]" for i
    using chain_wf_load [OF wf, of "cown_ptrs_at K + 8 * i" 8] chain_layout(2) [of K] that
    by (auto simp: load_u64_def chain_slot_def add.assoc)
  then obtain g where "\<And>i. i \<in> set [0..<NUM_COWN K] \<Longrightarrow> load_u64 (chain_slot K (chain_off K k) i) m = Inr (g i)"
    by metis
  then have "rmapM (\<lambda>i. load_u64 (chain_slot K (chain_off K k) i) m) [0..<NUM_COWN K] = Inr (map g [0..<NUM_COWN K])"
    by (rule rmapM_ok)
  then show "\<exists>as. prefetch_cowns (ChainTransaction K V db) (4 + MarshalledSize K * k) m = Inr (MarshalledSize K, as)"
    by (simp add: ChainTransaction_def chain_prefetch_cowns_def chain_off_def del: upt_rec_numeral)
next
  fix m k ts
  assume "chain_wf K V db n m" "k < n" "chain_prepared K V db k m"
  then show "parse_and_process (ChainTransaction K V db) (4 + MarshalledSize K * k) ts m =
      Inr (MarshalledSize K, Some (chain_decode K V db k ts m))"
    using chain_parse_ok by (auto simp: ChainTransaction_def chain_off_def)
qed

interpretation chain_log: log_contract "ChainTransaction K V db" "MarshalledSize K" n "chain_wf K V db n"
    "chain_prepared K V db" "chain_decode K V db"
  for K :: chain_class and V :: "'c verona" and db :: "'c chain_db" and n :: nat
  by unfold_locales

section \<open>The loaded tables\<close>

definition rows_placed :: "'c verona \<Rightarrow> u64 \<Rightarrow> nat \<Rightarrow> 'c table \<Rightarrow> bool" where
  "rows_placed V a n t \<longleftrightarrow> table_inv t \<and> unat (tbl_cnt t) = n \<and>
     (\<forall>key. unat key < n \<longrightarrow> get_row_addr key t = Inr (Some (make_cown_custom V (a + 1024 * key))))"

lemma generate_row_ok:
  assumes "rows_placed V a i t" and "i < tbl_size t"
  shows "\<exists>t'. generate_row V a (Suc i) t = Inr t' \<and> rows_placed V a (Suc i) t' \<and> tbl_size t' = tbl_size t"
proof -
  have i: "i < 2 ^ 64" "unat (of_nat i :: u64) = i"
    using assms by (auto simp: rows_placed_def table_inv_def intro!: unat_of_nat_small)
  obtain t' where t': "insert_row (of_nat i) (make_cown_custom V (a + 1024 * of_nat i)) t = Inr (of_nat i, t')"
      "table_inv t'" "unat (tbl_cnt t') = Suc i" "tbl_size t' = tbl_size t"
      "\<forall>k. get_row_addr k t' = (if k = of_nat i then Inr (Some (make_cown_custom V (a + 1024 * of_nat i)))
        else get_row_addr k t)"
    using tbl.ins_ok [of t "of_nat i" "make_cown_custom V (a + 1024 * of_nat i)"] assms i(2)
    by (auto simp: rows_placed_def)
  have "unat key < i" if "unat key < Suc i" "key \<noteq> of_nat i" for key :: u64
    using that i(2) by (metis less_antisym word_nat_roundtrip)
  with t' assms(1) show ?thesis
    by (intro exI [of _ t']) (auto simp: generate_row_def rows_placed_def)
qed

lemma generate_rows_ok:
  assumes "rows_placed V a 0 t" and "n \<le> tbl_size t"
  shows "\<exists>t'. rfold (generate_row V a) [1..<Suc n] t = Inr t' \<and> rows_placed V a n t' \<and> tbl_size t' = tbl_size t"
proof -
  have "[1..<Suc n] = map Suc [0..<n]" by (simp add: map_Suc_upt)
  then show ?thesis
    using rfold_upt_total [of "\<lambda>i s. rows_placed V a i s \<and> tbl_size s = tbl_size t" t n
        "\<lambda>i. generate_row V a (Suc i)"] generate_row_ok assms
    by (simp add: rfold_map del: upt_Suc) fastforce
qed

lemma NUM_RESRC_lt: "NUM_RESRC K < 2 ^ 64"
  by (cases K) simp_all

lemma chain_load_ok:
  "\<exists>db. chain_load K V a = Inr db \<and> rows_placed V a (NUM_RESRC K) (resource_table db) \<and>
     rows_placed V (a + 1024 * of_nat (NUM_RESRC K)) NUM_ACCOUNTS (user_table db) \<and>
     tbl_size (resource_table db) = NUM_RESRC K \<and> tbl_size (user_table db) = NUM_ACCOUNTS"
proof -
  have new: "rows_placed V b 0 ((new_table sz)\<lparr>start_addr := c\<rparr>)" if "sz < 2 ^ 64" for b c sz
    using that new_table_inv [OF that] by (simp add: rows_placed_def table_inv_def new_table_def)
  have sz: "tbl_size ((new_table n)\<lparr>start_addr := c\<rparr>) = n" for n c by (simp add: new_table_def)
  obtain t1 where "rfold (generate_row V a) [1..<Suc (NUM_RESRC K)] ((new_table (NUM_RESRC K))\<lparr>start_addr := a\<rparr>) = Inr t1"
      "rows_placed V a (NUM_RESRC K) t1" "tbl_size t1 = NUM_RESRC K"
    using generate_rows_ok [of V a "(new_table (NUM_RESRC K))\<lparr>start_addr := a\<rparr>" "NUM_RESRC K"]
      new [OF NUM_RESRC_lt] by (auto simp: sz)
  moreover obtain t2 where "rfold (generate_row V (a + 1024 * of_nat (NUM_RESRC K))) [1..<Suc NUM_ACCOUNTS]
        ((new_table NUM_ACCOUNTS)\<lparr>start_addr := a + 1024 * of_nat (NUM_RESRC K)\<rparr>) = Inr t2"
      "rows_placed V (a + 1024 * of_nat (NUM_RESRC K)) NUM_ACCOUNTS t2" "tbl_size t2 = NUM_ACCOUNTS"
    using generate_rows_ok [of V "a + 1024 * of_nat (NUM_RESRC K)"
        "(new_table NUM_ACCOUNTS)\<lparr>start_addr := a + 1024 * of_nat (NUM_RESRC K)\<rparr>" NUM_ACCOUNTS]
      new [of NUM_ACCOUNTS] by (auto simp: sz NUM_ACCOUNTS_def simp del: upt_Suc)
  ultimately show ?thesis
    by (simp add: chain_load_def generateResources_def generateUsers_def new_chain_db_def Let_def del: upt_Suc)
qed

text \<open>A log whose parameters are numbers of loaded rows is well formed.\<close>

definition chain_limit :: "chain_class \<Rightarrow> nat \<Rightarrow> nat" where
  "chain_limit K i = (if i < NUM_RESRC_COWN K then NUM_RESRC K else NUM_ACCOUNTS)"

definition chain_log_ok :: "chain_class \<Rightarrow> nat \<Rightarrow> mem \<Rightarrow> bool" where
  "chain_log_ok K n m \<longleftrightarrow> length m = chain_off K n \<and>
     (\<forall>k<n. 1 \<le> chain_cnt K k m \<and> chain_cnt K k m \<le> NUM_COWN K \<and>
        (\<forall>i<chain_cnt K k m. \<exists>p. chain_param K (chain_off K k) i m = Inr p \<and> 1 \<le> unat p \<and> unat p \<le> chain_limit K i))"

lemma chain_log_wf:
  assumes "chain_load K V a = Inr db" and "verona_ok V" and "chain_log_ok K n m"
  shows "chain_wf K V db n m"
proof -
  obtain db' where "chain_load K V a = Inr db'" "rows_placed V a (NUM_RESRC K) (resource_table db')"
     "rows_placed V (a + 1024 * of_nat (NUM_RESRC K)) NUM_ACCOUNTS (user_table db')"
    using chain_load_ok [of K V a] by blast
  with assms(1) have db: "rows_placed V a (NUM_RESRC K) (resource_table db)"
     "rows_placed V (a + 1024 * of_nat (NUM_RESRC K)) NUM_ACCOUNTS (user_table db)" by simp_all
  have "\<exists>c. chain_row K db k m i = Inr (Some c)" if ki: "k < n" "i < chain_cnt K k m" for k i
  proof -
    obtain p where p: "chain_param K (chain_off K k) i m = Inr p" "1 \<le> unat p" "unat p \<le> chain_limit K i"
      using assms(3) ki unfolding chain_log_ok_def by blast
    then have "unat (ucast (p - 1) :: u64) < chain_limit K i" by (simp add: unat_pred)
    then show ?thesis
      using p(1) db by (auto simp: chain_row_def chain_table_def chain_limit_def rows_placed_def split: if_splits)
  qed
  with assms(2,3) show ?thesis by (simp add: chain_wf_def chain_log_ok_def)
qed

section \<open>Spinning\<close>

text \<open>A body ends at the first clock reading at or after its deadline, if there is one.\<close>

lemma spin_until_iff:
  "spin_until next_ts ts = Some rest \<longleftrightarrow>
     (\<exists>pre t. ts = pre @ t # rest \<and> (\<forall>x\<in>set pre. x < next_ts) \<and> next_ts \<le> t)"
proof (induction ts)
  case (Cons t ts)
  show ?case
  proof (cases "t < next_ts")
    case True
    then show ?thesis using Cons
      by (auto simp: Cons_eq_append_conv)
  next
    case False
    then show ?thesis by (auto simp: Cons_eq_append_conv)
  qed
qed simp

lemma spin_until_ends: "t \<in> set ts \<Longrightarrow> next_ts \<le> t \<Longrightarrow> \<exists>rest. spin_until next_ts ts = Some rest"
  by (induction ts) auto

text \<open>Within the gas limit of the workload the 32-bit product does not wrap around.\<close>

lemma chain_deadline_mixed:
  assumes "cw_class w = Mixed" and "unat (cw_gas w) \<le> 2270"
  shows "chain_deadline w start = start + 146000 + 12000 * int (unat (cw_gas w))"
proof -
  have "unat (12000 * cw_gas w) = 12000 * unat (cw_gas w)"
    using assms(2) unat_mult_small [of "12000 :: u32" "cw_gas w"] by simp
  then have "uint (12000 * cw_gas w) = 12000 * int (unat (cw_gas w))"
    by (simp only: uint_nat of_nat_mult of_nat_numeral)
  with assms(1) show ?thesis by (simp add: chain_deadline_def)
qed

section \<open>Properties\<close>

text \<open>
  A transaction body ends once the clock has advanced by its service time, and not before: for
  the mixed class 146 microseconds and 12 microseconds per unit of gas, within the gas limit.
\<close>

lemma chain_body_time:
  assumes "cw_class w = Mixed \<longrightarrow> unat (cw_gas w) \<le> 2270"
    and "serv = (case SERV_TIME (cw_class w) of Some s \<Rightarrow> s | None \<Rightarrow> 146000 + 12000 * int (unat (cw_gas w)))"
  shows "(\<forall>rest. chain_body w (start # ts) = Some rest \<longrightarrow>
       (\<exists>pre t. ts = pre @ t # rest \<and> start + serv \<le> t \<and> (\<forall>x\<in>set pre. x < start + serv))) \<and>
    ((\<exists>t\<in>set ts. start + serv \<le> t) \<longrightarrow> chain_body w (start # ts) \<noteq> None)"
proof -
  have "chain_deadline w start = start + serv"
  proof (cases "cw_class w = Mixed")
    case True
    then show ?thesis using chain_deadline_mixed [OF True] assms by simp
  next
    case False
    then obtain s where "SERV_TIME (cw_class w) = Some s" by (cases "cw_class w") auto
    then show ?thesis using assms(2) by (simp add: chain_deadline_def)
  qed
  then have body: "chain_body w (start # ts) = spin_until (start + serv) ts" by (simp add: chain_body_def)
  show ?thesis
    unfolding body using spin_until_iff [of "start + serv" ts] spin_until_ends [of _ ts "start + serv"] by blast
qed

end
