(* ===== verification/Args.thy ===== *)
theory Args
  imports Prelude
begin

text \<open>
  Command-line arguments: \<open>atoi\<close> of the C library as the programs use it, and the check at the start of
  the three applications' \<open>main\<close>.  \<open>argv\<close> is the list of arguments with the program's name first.
\<close>

section \<open>Numbers in decimal\<close>

definition char_code :: "char \<Rightarrow> nat" where
  "char_code c = of_char c"

definition is_digit :: "char \<Rightarrow> bool" where
  "is_digit c \<longleftrightarrow> 48 \<le> char_code c \<and> char_code c \<le> 57"

definition is_space :: "char \<Rightarrow> bool" where
  "is_space c \<longleftrightarrow> char_code c = 32 \<or> 9 \<le> char_code c \<and> char_code c \<le> 13"

definition dec_value :: "string \<Rightarrow> nat" where
  "dec_value ds = foldl (\<lambda>n c. 10 * n + (char_code c - 48)) 0 ds"

definition atoi :: "string \<Rightarrow> int result" where
  "atoi str =
     (let s1 = dropWhile is_space str;
          neg = (s1 \<noteq> [] \<and> hd s1 = CHR ''-'');
          s2 = (if s1 \<noteq> [] \<and> (hd s1 = CHR ''-'' \<or> hd s1 = CHR ''+'') then tl s1 else s1);
          n = int (dec_value (takeWhile is_digit s2));
          v = (if neg then - n else n) in
      if - (2 ^ 31) \<le> v \<and> v < 2 ^ 31 then Inr v else Inl Overflow)"

text \<open>Decimal digits of a number, most significant first.\<close>

fun decimal :: "nat \<Rightarrow> string" where
  "decimal n = (if n < 10 then [char_of (48 + n)] else decimal (n div 10) @ [char_of (48 + n mod 10)])"

declare decimal.simps [simp del]

lemma char_code_digit: "d < 10 \<Longrightarrow> char_code (char_of (48 + d)) = 48 + d"
  by (simp add: char_code_def)

lemma decimal_digits: "\<forall>c\<in>set (decimal n). is_digit c"
proof (induction n rule: decimal.induct)
  case (1 n)
  then show ?case by (cases "n < 10") (auto simp: decimal.simps [of n] is_digit_def char_code_digit)
qed

lemma decimal_not_empty: "decimal n \<noteq> []"
  by (simp add: decimal.simps [of n])

lemma dec_value_decimal: "dec_value (decimal n) = n"
proof (induction n rule: decimal.induct)
  case (1 n)
  then show ?case
    by (cases "n < 10") (simp_all add: decimal.simps [of n] dec_value_def char_code_digit)
qed

lemma digit_plain: "is_digit c \<Longrightarrow> \<not> is_space c \<and> c \<noteq> CHR ''-'' \<and> c \<noteq> CHR ''+''"
  by (auto simp: is_digit_def is_space_def char_code_def)

lemma atoi_decimal:
  assumes "n < 2 ^ 31"
  shows "atoi (decimal n) = Inr (int n)"
proof -
  obtain c cs where c: "decimal n = c # cs" using decimal_not_empty [of n] by (cases "decimal n") auto
  have d: "is_digit c" using decimal_digits [of n] c by simp
  have "takeWhile is_digit (decimal n) = decimal n" using decimal_digits [of n] by (simp add: takeWhile_eq_all_conv)
  then have v: "dec_value (takeWhile is_digit (c # cs)) = n" using dec_value_decimal [of n] c by simp
  have "dropWhile is_space (c # cs) = c # cs" using digit_plain [OF d] by simp
  then show ?thesis using digit_plain [OF d] v assms by (simp add: atoi_def Let_def c)
qed

section \<open>The core count\<close>

text \<open>
  The start of \<open>main\<close> in \<^verbatim>\<open>ycsb.cc\<close> and \<^verbatim>\<open>chain.cc\<close>: the usage message, the conversion of the core count to
  \<open>uint8_t\<close>, the assertion.  \<open>max_core\<close> is what \<open>hardware_concurrency\<close> returns.
\<close>

definition read_core_cnt :: "string list \<Rightarrow> u8 result" where
  "read_core_cnt argv =
     (if length argv \<noteq> 6 \<or> argv ! 1 \<noteq> ''-n'' then Inl BadArgument
      else rmap word_of_int (atoi (argv ! 2)))"

definition parse_core_cnt :: "string list \<Rightarrow> nat \<Rightarrow> u8 result" where
  "parse_core_cnt argv max_core =
     rbind (read_core_cnt argv) (\<lambda>core_cnt.
       if 1 < core_cnt \<and> core_cnt \<le> of_nat max_core then Inr core_cnt else Inl AssertFailed)"

lemma parse_core_cnt_ok:
  assumes "length argv = 6" and "argv ! 1 = ''-n''" and "argv ! 2 = decimal n"
    and "1 < n" and "n \<le> max_core" and "max_core < 256"
  shows "parse_core_cnt argv max_core = Inr (of_nat n)"
proof -
  have "unat (of_nat n :: u8) = n" "unat (of_nat max_core :: u8) = max_core"
    using assms by (simp_all add: unat_of_nat_small)
  then show ?thesis using assms atoi_decimal [of n]
    by (simp add: parse_core_cnt_def read_core_cnt_def word_less_nat_alt word_le_nat_alt)
qed

end
