(* ===== verification/Inter_Arrival.thy ===== *)
theory Inter_Arrival
  imports Complex_Main Stages Args
begin

text \<open>
  The distributions of inter-arrival times, \<^verbatim>\<open>misc/inter_arrival.hpp\<close> with \<^verbatim>\<open>misc/rand_gen.h\<close> and
  \<^verbatim>\<open>misc/cpp_rand.hpp\<close>: the generator a command-line string selects, its parameters, and one number
  drawn from it.  A \<open>double\<close> is a real number, and \<open>fl\<close> rounds the result of each operation; the
  operations whose result is not a number or infinite end in \<open>NotANumber\<close> where the value is converted
  to an integer.  The functions a generator points to are named by a datatype, \<open>None\<close> is a pointer the code does not set.
\<close>

section \<open>Generators\<close>

datatype gen_kind = GEN_OTHER | GEN_FIXED | GEN_EXP

datatype inv_cdf_fn = Fixed_inv_cdf | Exp_inv_cdf | Gpar_inv_cdf | Gev_inv_cdf | Bimodal_inv_cdf | Lognorm_inv_cdf

datatype set_avg_fn = Fixed_set_avg | Exp_set_avg | Gpar_set_avg | Gev_set_avg | Bimodal_set_avg | Lognorm_set_avg

datatype generate_fn = Rr_generate | Uni_generate | Lognorm_generate

text \<open>The parameters, three doubles: \<open>loc\<close>, \<open>scale\<close>, \<open>shape\<close>, or \<open>low\<close>, \<open>up\<close>, \<open>prob\<close>, or \<open>sigma\<close>, \<open>mu\<close>.\<close>

record rand_gen =
  rg_gen_type :: "gen_kind option"
  rg_set_avg :: "set_avg_fn option"
  rg_inv_cdf :: "inv_cdf_fn option"
  rg_generate :: "generate_fn option"
  rg_a :: real
  rg_b :: real
  rg_c :: real

section \<open>Parsing\<close>

text \<open>\<open>strtok\<close> with the delimiter \<open>:\<close> returns the nonempty pieces one after the other.\<close>

fun split_colon :: "string \<Rightarrow> string list" where
  "split_colon [] = [[]]"
| "split_colon (c # cs) = (if c = CHR '':'' then [] # split_colon cs
     else (case split_colon cs of [] \<Rightarrow> [[c]] | t # ts \<Rightarrow> (c # t) # ts))"

definition strtok_all :: "string \<Rightarrow> string list" where
  "strtok_all str = filter (\<lambda>t. t \<noteq> []) (split_colon str)"

text \<open>\<open>atof\<close>: spaces, a sign, digits with an optional point, an optional exponent.\<close>

definition signed :: "string \<Rightarrow> bool \<times> string" where
  "signed s = (if s \<noteq> [] \<and> (hd s = CHR ''-'' \<or> hd s = CHR ''+'') then (hd s = CHR ''-'', tl s) else (False, s))"

definition exponent :: "string \<Rightarrow> int" where
  "exponent s = (if s \<noteq> [] \<and> (hd s = CHR ''e'' \<or> hd s = CHR ''E'')
     then (case signed (tl s) of (neg, r) \<Rightarrow>
       let e = int (dec_value (takeWhile is_digit r)) in if neg then - e else e) else 0)"

definition atof :: "(real \<Rightarrow> real) \<Rightarrow> string \<Rightarrow> real" where
  "atof fl str = (case signed (dropWhile is_space str) of (neg, s) \<Rightarrow>
     let ip = takeWhile is_digit s; r1 = dropWhile is_digit s;
         fp = (if r1 \<noteq> [] \<and> hd r1 = CHR ''.'' then takeWhile is_digit (tl r1) else []);
         r2 = (if r1 \<noteq> [] \<and> hd r1 = CHR ''.'' then dropWhile is_digit (tl r1) else r1);
         m = real (dec_value (ip @ fp)) / 10 ^ length fp * (10 powr real_of_int (exponent r2)) in
     fl (if neg then - m else m))"

definition token :: "string \<Rightarrow> nat \<Rightarrow> string option" where
  "token type k = (if k < length (strtok_all type) then Some (strtok_all type ! k) else None)"

text \<open>\<open>atof(tok)\<close> with \<open>tok\<close> possibly null.\<close>

definition param :: "(real \<Rightarrow> real) \<Rightarrow> string \<Rightarrow> nat \<Rightarrow> real result" where
  "param fl type k = (case token type k of None \<Rightarrow> Inl NullPointer | Some tok \<Rightarrow> Inr (atof fl tok))"

definition parse_param_1 :: "(real \<Rightarrow> real) \<Rightarrow> string \<Rightarrow> real" where
  "parse_param_1 fl type = (case token type 1 of None \<Rightarrow> 0 | Some tok \<Rightarrow> atof fl tok)"

definition parse_param_2 :: "(real \<Rightarrow> real) \<Rightarrow> string \<Rightarrow> (real \<times> real) result" where
  "parse_param_2 fl type = rbind (param fl type 1) (\<lambda>a. rmap (Pair a) (param fl type 2))"

definition parse_param_3 :: "(real \<Rightarrow> real) \<Rightarrow> string \<Rightarrow> (real \<times> real \<times> real) result" where
  "parse_param_3 fl type = rbind (param fl type 1) (\<lambda>a. rbind (param fl type 2) (\<lambda>b.
     rmap (\<lambda>c. (a, b, c)) (param fl type 3)))"

section \<open>Initialisation\<close>

text \<open>\<open>1.0 / avg\<close>; 0 stands for the infinite rate of an average of 0.\<close>

definition exp_rate :: "(real \<Rightarrow> real) \<Rightarrow> real \<Rightarrow> real" where
  "exp_rate fl avg = (if avg = 0 then 0 else fl (1 / avg))"

definition fixed_set_avg :: "rand_gen \<Rightarrow> real \<Rightarrow> rand_gen" where
  "fixed_set_avg gen avg = gen\<lparr>rg_a := avg\<rparr>"

definition exp_set_avg :: "(real \<Rightarrow> real) \<Rightarrow> rand_gen \<Rightarrow> real \<Rightarrow> rand_gen" where
  "exp_set_avg fl gen avg = gen\<lparr>rg_a := exp_rate fl avg\<rparr>"

definition gpar_set_avg :: "(real \<Rightarrow> real) \<Rightarrow> rand_gen \<Rightarrow> real \<Rightarrow> rand_gen" where
  "gpar_set_avg fl gen avg = gen\<lparr>rg_b := fl (fl (avg - rg_a gen) * fl (1 - rg_c gen))\<rparr>"

text \<open>The other four are \<open>assert(0)\<close>.\<close>

definition gev_set_avg :: "rand_gen \<Rightarrow> real \<Rightarrow> rand_gen result" where
  "gev_set_avg gen avg = Inl AssertFailed"

definition bimodal_set_avg :: "rand_gen \<Rightarrow> real \<Rightarrow> rand_gen result" where
  "bimodal_set_avg gen avg = Inl AssertFailed"

definition lognorm_set_avg :: "rand_gen \<Rightarrow> real \<Rightarrow> rand_gen result" where
  "lognorm_set_avg gen avg = Inl AssertFailed"

definition gamma_set_avg :: "rand_gen \<Rightarrow> real \<Rightarrow> rand_gen result" where
  "gamma_set_avg gen avg = Inl AssertFailed"

definition fixed_init :: "real \<Rightarrow> rand_gen \<Rightarrow> rand_gen" where
  "fixed_init p gen = fixed_set_avg (gen\<lparr>rg_set_avg := Some Fixed_set_avg, rg_inv_cdf := Some Fixed_inv_cdf,
     rg_generate := None, rg_gen_type := Some GEN_FIXED\<rparr>) p"

definition rr_init :: "real \<Rightarrow> rand_gen \<Rightarrow> rand_gen" where
  "rr_init p gen = gen\<lparr>rg_generate := Some Rr_generate, rg_a := p\<rparr>"

definition uni_init :: "real \<Rightarrow> rand_gen \<Rightarrow> rand_gen" where
  "uni_init p gen = gen\<lparr>rg_generate := Some Uni_generate, rg_a := p\<rparr>"

definition exp_init :: "(real \<Rightarrow> real) \<Rightarrow> real \<Rightarrow> rand_gen \<Rightarrow> rand_gen" where
  "exp_init fl p gen = exp_set_avg fl (gen\<lparr>rg_set_avg := Some Exp_set_avg, rg_inv_cdf := Some Exp_inv_cdf,
     rg_generate := None, rg_gen_type := Some GEN_EXP\<rparr>) p"

definition gpar_init :: "real \<times> real \<times> real \<Rightarrow> rand_gen \<Rightarrow> rand_gen" where
  "gpar_init p gen = (case p of (a, b, c) \<Rightarrow>
     gen\<lparr>rg_a := a, rg_b := b, rg_c := c, rg_set_avg := Some Gpar_set_avg, rg_inv_cdf := Some Gpar_inv_cdf,
         rg_generate := None, rg_gen_type := Some GEN_OTHER\<rparr>)"

definition gev_init :: "real \<times> real \<times> real \<Rightarrow> rand_gen \<Rightarrow> rand_gen" where
  "gev_init p gen = (case p of (a, b, c) \<Rightarrow>
     gen\<lparr>rg_a := a, rg_b := b, rg_c := c, rg_set_avg := Some Gev_set_avg, rg_inv_cdf := Some Gev_inv_cdf,
         rg_generate := None, rg_gen_type := Some GEN_OTHER\<rparr>)"

definition bimodal_init :: "real \<times> real \<times> real \<Rightarrow> rand_gen \<Rightarrow> rand_gen" where
  "bimodal_init p gen = (case p of (a, b, c) \<Rightarrow>
     gen\<lparr>rg_a := a, rg_b := b, rg_c := c, rg_set_avg := Some Bimodal_set_avg, rg_inv_cdf := Some Bimodal_inv_cdf,
         rg_generate := None, rg_gen_type := Some GEN_OTHER\<rparr>)"

definition lognormal_init :: "real \<times> real \<Rightarrow> rand_gen \<Rightarrow> rand_gen" where
  "lognormal_init p gen = gen\<lparr>rg_b := fst p, rg_a := snd p, rg_generate := Some Lognorm_generate,
     rg_set_avg := Some Lognorm_set_avg, rg_inv_cdf := Some Lognorm_inv_cdf, rg_gen_type := Some GEN_OTHER\<rparr>"

text \<open>\<open>gamma_init\<close> begins with \<open>assert(0)\<close>.\<close>

definition gamma_init :: "real \<times> real \<Rightarrow> rand_gen \<Rightarrow> rand_gen result" where
  "gamma_init p gen = Inl AssertFailed"

text \<open>\<open>strncmp(gen_type, name, strlen(name)) == 0\<close>.\<close>

definition starts :: "string \<Rightarrow> string \<Rightarrow> bool" where
  "starts name str \<longleftrightarrow> take (length name) str = name"

text \<open>
  \<open>lancet_init_rand\<close>, with \<open>gen0\<close> the uninitialised memory; \<open>None\<close> is the null pointer returned for
  an unknown name.
\<close>

definition lancet_init_rand :: "(real \<Rightarrow> real) \<Rightarrow> rand_gen \<Rightarrow> string \<Rightarrow> rand_gen option result" where
  "lancet_init_rand fl gen0 gen_type =
     (if starts ''fixed'' gen_type then Inr (Some (fixed_init (parse_param_1 fl gen_type) gen0))
      else if starts ''rr'' gen_type then Inr (Some (rr_init (parse_param_1 fl gen_type) gen0))
      else if starts ''uni'' gen_type then Inr (Some (uni_init (parse_param_1 fl gen_type) gen0))
      else if starts ''exp'' gen_type then Inr (Some (exp_init fl (parse_param_1 fl gen_type) gen0))
      else if starts ''pareto'' gen_type
      then rmap (\<lambda>p. Some (gpar_init p gen0)) (parse_param_3 fl gen_type)
      else if starts ''gev'' gen_type
      then rmap (\<lambda>p. Some (gev_init p gen0)) (parse_param_3 fl gen_type)
      else if gen_type = ''fb_key''
      then rmap (\<lambda>p. Some (gev_init p gen0)) (parse_param_3 fl ''gev:30.7984:8.20449:0.078688'')
      else if gen_type = ''fb_ia''
      then rmap (\<lambda>p. Some (gpar_init p gen0)) (parse_param_3 fl ''gpar:0:16.0292:0.154971'')
      else if gen_type = ''fb_val''
      then rmap (\<lambda>p. Some (gpar_init p gen0)) (parse_param_3 fl ''gpar:15.0:214.476:0.348238'')
      else if starts ''bimodal'' gen_type
      then rmap (\<lambda>p. Some (bimodal_init p gen0)) (parse_param_3 fl gen_type)
      else if starts ''lognorm'' gen_type
      then rmap (\<lambda>p. Some (lognormal_init p gen0)) (parse_param_2 fl gen_type)
      else if starts ''gamma'' gen_type then rbind (parse_param_2 fl gen_type) (\<lambda>p. rmap Some (gamma_init p gen0))
      else Inr None)"

text \<open>Setting the average: \<open>set_avg_ext\<close>, and the functions behind \<open>set_avg\<close>.\<close>

definition do_set_avg :: "(real \<Rightarrow> real) \<Rightarrow> set_avg_fn \<Rightarrow> real \<Rightarrow> rand_gen \<Rightarrow> rand_gen result" where
  "do_set_avg fl f avg gen = (case f of
     Fixed_set_avg \<Rightarrow> Inr (fixed_set_avg gen avg)
   | Exp_set_avg \<Rightarrow> Inr (exp_set_avg fl gen avg)
   | Gpar_set_avg \<Rightarrow> Inr (gpar_set_avg fl gen avg)
   | Gev_set_avg \<Rightarrow> gev_set_avg gen avg
   | Bimodal_set_avg \<Rightarrow> bimodal_set_avg gen avg
   | Lognorm_set_avg \<Rightarrow> lognorm_set_avg gen avg)"

definition set_avg_ext :: "(real \<Rightarrow> real) \<Rightarrow> real \<Rightarrow> rand_gen \<Rightarrow> rand_gen result" where
  "set_avg_ext fl avg gen = (case rg_gen_type gen of
     Some GEN_FIXED \<Rightarrow> do_set_avg fl Fixed_set_avg avg gen
   | Some GEN_EXP \<Rightarrow> do_set_avg fl Exp_set_avg avg gen
   | _ \<Rightarrow> Inl AssertFailed)"

section \<open>Drawing\<close>

text \<open>The values drawn from the libraries: \<open>drand48()\<close>, \<open>rand()\<close> and a normal variate; and \<open>prev_rr\<close>.\<close>

record draw_env =
  de_drand48 :: real
  de_rand :: nat
  de_normal :: real

text \<open>A double converted to \<open>uint64_t\<close>, for nonnegative values.\<close>

definition to_u64 :: "real \<Rightarrow> nat" where
  "to_u64 x = nat \<lfloor>x\<rfloor>"

text \<open>\<open>pow\<close> of a base that may be negative: not a number unless the exponent is an integer.\<close>

definition pow_any :: "real \<Rightarrow> real \<Rightarrow> real result" where
  "pow_any x e = (if 0 < x then Inr (x powr e)
     else if x \<noteq> 0 \<and> e = real_of_int \<lfloor>e\<rfloor> then Inr (x powi \<lfloor>e\<rfloor>) else Inl NotANumber)"

text \<open>\<open>loc + scale * (p - 1) / shape\<close> of the two three-parameter families.\<close>

definition lss :: "(real \<Rightarrow> real) \<Rightarrow> rand_gen \<Rightarrow> real \<Rightarrow> real result" where
  "lss fl gen p = (if rg_c gen = 0 then Inl NotANumber
     else Inr (fl (rg_a gen + fl (fl (rg_b gen * fl (p - 1)) / rg_c gen))))"

definition fixed_inv_cdf :: "rand_gen \<Rightarrow> real \<Rightarrow> real" where
  "fixed_inv_cdf gen y = rg_a gen"

definition exp_inv_cdf :: "(real \<Rightarrow> real) \<Rightarrow> rand_gen \<Rightarrow> real \<Rightarrow> real result" where
  "exp_inv_cdf fl gen y = (if y \<le> 0 then Inl NotANumber
     else if rg_a gen = 0 then Inr 0 else Inr (fl (- fl (ln y) / rg_a gen)))"

definition gpar_inv_cdf :: "(real \<Rightarrow> real) \<Rightarrow> rand_gen \<Rightarrow> real \<Rightarrow> real result" where
  "gpar_inv_cdf fl gen y = rbind (pow_any (fl (1 - y)) (- rg_c gen)) (\<lambda>p. lss fl gen (fl p))"

definition gev_inv_cdf :: "(real \<Rightarrow> real) \<Rightarrow> rand_gen \<Rightarrow> real \<Rightarrow> real result" where
  "gev_inv_cdf fl gen y = rbind (pow_any (- fl (exp y)) (- rg_c gen)) (\<lambda>p. lss fl gen (fl p))"

definition bimodal_inv_cdf :: "rand_gen \<Rightarrow> real \<Rightarrow> real" where
  "bimodal_inv_cdf gen y = (if y \<le> rg_c gen then rg_a gen else rg_b gen)"

definition lognorm_inv_cdf :: "rand_gen \<Rightarrow> real \<Rightarrow> real result" where
  "lognorm_inv_cdf gen y = Inl AssertFailed"

definition gamma_inv_cdf :: "rand_gen \<Rightarrow> real \<Rightarrow> real result" where
  "gamma_inv_cdf gen y = Inl AssertFailed"

definition do_inv_cdf :: "(real \<Rightarrow> real) \<Rightarrow> inv_cdf_fn \<Rightarrow> rand_gen \<Rightarrow> real \<Rightarrow> real result" where
  "do_inv_cdf fl f gen y = (case f of
     Fixed_inv_cdf \<Rightarrow> Inr (fixed_inv_cdf gen y)
   | Exp_inv_cdf \<Rightarrow> exp_inv_cdf fl gen y
   | Gpar_inv_cdf \<Rightarrow> gpar_inv_cdf fl gen y
   | Gev_inv_cdf \<Rightarrow> gev_inv_cdf fl gen y
   | Bimodal_inv_cdf \<Rightarrow> Inr (bimodal_inv_cdf gen y)
   | Lognorm_inv_cdf \<Rightarrow> lognorm_inv_cdf gen y)"

definition rr_generate :: "rand_gen \<Rightarrow> u64 \<Rightarrow> (real \<times> u64) result" where
  "rr_generate gen prev_rr = (if to_u64 (rg_a gen) = 0 then Inl DivByZero
     else Inr (real (unat prev_rr mod to_u64 (rg_a gen)), prev_rr + 1))"

definition uni_generate :: "rand_gen \<Rightarrow> nat \<Rightarrow> real result" where
  "uni_generate gen rand = (if to_u64 (rg_a gen) = 0 then Inl DivByZero else Inr (real (rand mod to_u64 (rg_a gen))))"

definition lognorm_generate :: "(real \<Rightarrow> real) \<Rightarrow> rand_gen \<Rightarrow> real \<Rightarrow> real" where
  "lognorm_generate fl gen y = fl (exp (fl (rg_b gen + fl (y * rg_a gen))))"

text \<open>
  The generators of \<^verbatim>\<open>misc/cpp_rand.hpp\<close>: two untyped pointers, to a distribution and to an engine.  The number the
  standard library draws is an argument.
\<close>

datatype cpp_object = Mt19937 | NormalDistribution | GammaDistribution real real

record cpp_gen =
  cg_d :: cpp_object
  cg_gen :: cpp_object

definition new_normal_gen :: cpp_gen where
  "new_normal_gen = \<lparr>cg_d = NormalDistribution, cg_gen = Mt19937\<rparr>"

definition get_normal_rand :: "cpp_gen \<Rightarrow> real \<Rightarrow> real result" where
  "get_normal_rand ng drawn_value =
     (if cg_d ng = NormalDistribution \<and> cg_gen ng = Mt19937 then Inr drawn_value else Inl BadCast)"

definition new_gamma_gen :: "real \<Rightarrow> real \<Rightarrow> cpp_gen" where
  "new_gamma_gen alpha beta = \<lparr>cg_d = GammaDistribution alpha beta, cg_gen = Mt19937\<rparr>"

definition get_gamma_rand :: "cpp_gen \<Rightarrow> real \<Rightarrow> real result" where
  "get_gamma_rand gg drawn_value =
     (case cg_gen gg of
        GammaDistribution alpha beta \<Rightarrow> if cg_gen gg = Mt19937 then Inr drawn_value else Inl BadCast
      | _ \<Rightarrow> Inl BadCast)"

text \<open>\<open>gamma_generate\<close> truncates to an \<open>int\<close>, of a value that fits one.\<close>

definition gamma_generate :: "cpp_gen \<Rightarrow> real \<Rightarrow> real result" where
  "gamma_generate gg drawn_value =
     rmap (\<lambda>x. if 0 \<le> x then of_int \<lfloor>x\<rfloor> else of_int \<lceil>x\<rceil>) (get_gamma_rand gg drawn_value)"

lemma normal_gen_draws: "get_normal_rand new_normal_gen y = Inr y"
  by (simp add: get_normal_rand_def new_normal_gen_def)

text \<open>The engine is taken for the distribution: no gamma generator can draw.\<close>

lemma gamma_gen_broken: "gamma_generate (new_gamma_gen alpha beta) y = Inl BadCast"
  by (simp add: gamma_generate_def get_gamma_rand_def new_gamma_gen_def)

definition do_generate :: "(real \<Rightarrow> real) \<Rightarrow> generate_fn \<Rightarrow> rand_gen \<Rightarrow> draw_env \<Rightarrow> u64 \<Rightarrow> (real \<times> u64) result" where
  "do_generate fl f gen e prev_rr = (case f of
     Rr_generate \<Rightarrow> rr_generate gen prev_rr
   | Uni_generate \<Rightarrow> rmap (\<lambda>x. (x, prev_rr)) (uni_generate gen (de_rand e))
   | Lognorm_generate \<Rightarrow>
       rmap (\<lambda>y. (lognorm_generate fl gen y, prev_rr)) (get_normal_rand new_normal_gen (de_normal e)))"

definition rg_draw :: "(real \<Rightarrow> real) \<Rightarrow> rand_gen \<Rightarrow> draw_env \<Rightarrow> u64 \<Rightarrow> (real \<times> u64) result" where
  "rg_draw fl gen e prev_rr = (case rg_generate gen of
     Some f \<Rightarrow> do_generate fl f gen e prev_rr
   | None \<Rightarrow> (case rg_inv_cdf gen of
       None \<Rightarrow> Inl NullPointer
     | Some f \<Rightarrow> rmap (\<lambda>x. (x, prev_rr)) (do_inv_cdf fl f gen (de_drand48 e))))"

text \<open>\<open>lround\<close>: to the nearest integer, halves away from zero.\<close>

definition lround :: "real \<Rightarrow> int" where
  "lround x = (if 0 \<le> x then \<lfloor>x + 1 / 2\<rfloor> else \<lceil>x - 1 / 2\<rceil>)"

definition gen_inter_arrival :: "(real \<Rightarrow> real) \<Rightarrow> rand_gen option \<Rightarrow> draw_env \<Rightarrow> u64 \<Rightarrow> (int \<times> u64) result" where
  "gen_inter_arrival fl gen_ptr e prev_rr = (case gen_ptr of
     None \<Rightarrow> Inl NullPointer
   | Some gen \<Rightarrow> rmap (\<lambda>(x, rr). (lround x, rr)) (rg_draw fl gen e prev_rr))"

text \<open>\<open>time_ns\<close>: seconds and nanoseconds added up as doubles, of nonnegative clock readings.\<close>

definition time_ns :: "(real \<Rightarrow> real) \<Rightarrow> int \<Rightarrow> int \<Rightarrow> int" where
  "time_ns fl tv_sec tv_nsec = \<lfloor>fl (fl (of_int tv_nsec) + fl (fl (of_int tv_sec) * 10 ^ 9))\<rfloor>"

text \<open>The sum is exact as long as doubles hold all integers up to it, which is a hundred and four days.\<close>

lemma time_ns_exact:
  assumes "\<And>k :: int. 0 \<le> k \<Longrightarrow> k \<le> 2 ^ 53 \<Longrightarrow> fl (of_int k) = of_int k"
    and "0 \<le> tv_sec" and "0 \<le> tv_nsec" and "tv_sec * 10 ^ 9 + tv_nsec \<le> 2 ^ 53"
  shows "time_ns fl tv_sec tv_nsec = tv_sec * 10 ^ 9 + tv_nsec"
proof -
  have parts: "fl (of_int tv_nsec) = of_int tv_nsec" "fl (of_int tv_sec) = of_int tv_sec"
    "fl (of_int (tv_sec * 10 ^ 9)) = of_int (tv_sec * 10 ^ 9)"
    "fl (of_int (tv_nsec + tv_sec * 10 ^ 9)) = of_int (tv_nsec + tv_sec * 10 ^ 9)"
    using assms(2-4) assms(1) [of tv_nsec] assms(1) [of tv_sec] assms(1) [of "tv_sec * 10 ^ 9"]
      assms(1) [of "tv_nsec + tv_sec * 10 ^ 9"] by simp_all
  then have "fl (fl (of_int tv_nsec) + fl (fl (of_int tv_sec) * 10 ^ 9)) = of_int (tv_nsec + tv_sec * 10 ^ 9)"
    by simp
  then show ?thesis unfolding time_ns_def by (simp only: floor_of_int add.commute)
qed

section \<open>The request generator with its distribution\<close>

text \<open>
  One pass of \<open>RPCHandler::run\<close> with the gap drawn from the generator: a number is drawn only in a
  pass that announces a request.  The state is that of \<open>rpc_iter\<close> and \<open>prev_rr\<close>; \<open>None\<close> is the end of the loop.
\<close>

type_synonym rpc_state = "rpc_handler \<times> (nat \<Rightarrow> int) \<times> u64 \<times> u64"

definition rpc_gen_iter ::
  "(real \<Rightarrow> real) \<Rightarrow> rand_gen option \<Rightarrow> int \<times> int \<times> draw_env \<Rightarrow> rpc_state option \<Rightarrow> rpc_state option result" where
  "rpc_gen_iter fl d p so = (case so of None \<Rightarrow> Inr None | Some (h, tarr, cnt, rr) \<Rightarrow>
     (case p of (t, now, e) \<Rightarrow>
        if t < rpc_next_ts h then Inr so
        else if int (rpc_i h) \<ge> int (unat RPC_LOG_SIZE) then Inr None
        else rbind (gen_inter_arrival fl d e rr) (\<lambda>(gap, rr').
          Inr (map_option (\<lambda>(h', tarr', cnt'). (h', tarr', cnt', rr')) (rpc_iter t now gap h tarr cnt)))))"

section \<open>Parsing a fixed gap\<close>

lemma split_colon_plain: "CHR '':'' \<notin> set xs \<Longrightarrow> split_colon xs = [xs]"
  by (induction xs) auto

lemma split_colon_at: "CHR '':'' \<notin> set xs \<Longrightarrow> split_colon (xs @ CHR '':'' # ys) = xs # split_colon ys"
  by (induction xs) auto

lemma decimal_no_colon: "CHR '':'' \<notin> set (decimal n)"
  using decimal_digits [of n] by (auto simp: is_digit_def char_code_def)

lemma token_second:
  assumes "CHR '':'' \<notin> set name" and "name \<noteq> []"
  shows "token (name @ CHR '':'' # decimal n) 1 = Some (decimal n)"
  using assms by (simp add: token_def strtok_all_def split_colon_at split_colon_plain decimal_no_colon decimal_not_empty)

lemma atof_decimal: "atof fl (decimal n) = fl (real n)"
proof -
  obtain c cs where c: "decimal n = c # cs" using decimal_not_empty [of n] by (cases "decimal n") auto
  have d: "is_digit c" using decimal_digits [of n] c by simp
  have sp: "dropWhile is_space (decimal n) = decimal n" "signed (decimal n) = (False, decimal n)"
    using digit_plain [OF d] by (simp_all add: c signed_def)
  have tk: "takeWhile is_digit (decimal n) = decimal n" "dropWhile is_digit (decimal n) = []"
    using decimal_digits [of n] by (simp_all add: takeWhile_eq_all_conv dropWhile_eq_Nil_conv)
  show ?thesis unfolding atof_def sp by (simp add: tk Let_def exponent_def dec_value_decimal)
qed

lemma lround_int: "lround (real_of_int k) = k"
  by (simp add: lround_def) linarith

lemma lround_nat: "lround (real k) = int k"
  using lround_int [of "int k"] by simp

lemma fixed_gap:
  assumes "fl (real n) = real n"
  shows "\<exists>gen. lancet_init_rand fl gen0 (''fixed:'' @ decimal n) = Inr (Some gen) \<and>
    (\<forall>e rr. gen_inter_arrival fl (Some gen) e rr = Inr (int n, rr))"
proof -
  have "token (''fixed:'' @ decimal n) 1 = Some (decimal n)" using token_second [of "''fixed''" n] by simp
  then have "parse_param_1 fl (''fixed:'' @ decimal n) = real n" by (simp add: parse_param_1_def atof_decimal assms)
  moreover have "starts ''fixed'' (''fixed:'' @ decimal n)" by (simp add: starts_def)
  ultimately show ?thesis
    by (simp add: lancet_init_rand_def gen_inter_arrival_def rg_draw_def fixed_init_def fixed_set_avg_def do_inv_cdf_def fixed_inv_cdf_def lround_nat)
qed

definition on_schedule :: "int \<Rightarrow> nat \<Rightarrow> (int \<times> int \<times> draw_env) set \<Rightarrow> rpc_state option \<Rightarrow> bool" where
  "on_schedule start gap ps so = (case so of None \<Rightarrow> True | Some (h, tarr, cnt, rr) \<Rightarrow>
     rpc_next_ts h = start + int gap * int (rpc_i h) \<and> cnt = of_nat (rpc_i h) \<and>
     (\<forall>k<rpc_i h. \<exists>(t, now, e)\<in>ps. start + int gap * int k \<le> t \<and> tarr k = now))"

lemma rpc_gen_iter_schedule:
  assumes g: "\<forall>e rr. gen_inter_arrival fl d e rr = Inr (int gap, rr)" and s: "on_schedule start gap ps so" and p: "p \<in> ps"
  shows "\<exists>so'. rpc_gen_iter fl d p so = Inr so' \<and> on_schedule start gap ps so'"
proof (cases so)
  case None
  then show ?thesis by (simp add: rpc_gen_iter_def on_schedule_def)
next
  case (Some s0)
  obtain h tarr cnt rr where s0: "s0 = (h, tarr, cnt, rr)" by (cases s0)
  obtain t now e where p': "p = (t, now, e)" by (cases p)
  let ?ann = "(h\<lparr>rpc_next_ts := rpc_next_ts h + int gap, rpc_i := Suc (rpc_i h)\<rparr>, tarr(rpc_i h := now), cnt + 1, rr)"
  have st: "rpc_next_ts h = start + int gap * int (rpc_i h)" "cnt = of_nat (rpc_i h)"
      "\<And>k. k < rpc_i h \<Longrightarrow> \<exists>(t, now, e)\<in>ps. start + int gap * int k \<le> t \<and> tarr k = now"
    using s by (auto simp: Some s0 on_schedule_def)
  have "on_schedule start gap ps (Some ?ann)" if t: "\<not> t < rpc_next_ts h"
  proof -
    have new: "\<exists>(t, now', e)\<in>ps. start + int gap * int (rpc_i h) \<le> t \<and> now = now'"
      using p t st(1) by (intro bexI [of _ p]) (simp_all add: p')
    have "\<exists>(t, now', e)\<in>ps. start + int gap * int k \<le> t \<and> (tarr(rpc_i h := now)) k = now'" if "k < Suc (rpc_i h)" for k
      using new st(3) [of k] that by (cases "k = rpc_i h") simp_all
    then show ?thesis using st(1,2) by (simp add: on_schedule_def algebra_simps)
  qed
  then show ?thesis
    using s g unfolding Some s0 p' rpc_gen_iter_def by (auto simp: rpc_iter_def on_schedule_def)
qed

lemma rpc_gen_run_schedule:
  assumes "\<forall>e rr. gen_inter_arrival fl d e rr = Inr (int gap, rr)"
  shows "\<exists>so. rfold (rpc_gen_iter fl d) ps (Some (\<lparr>rpc_next_ts = start, rpc_i = 0\<rparr>, tarr, 0, rr)) = Inr so \<and>
    on_schedule start gap (set ps) so"
  by (rule rfold_total) (use rpc_gen_iter_schedule [OF assms] in \<open>auto simp: on_schedule_def\<close>)

section \<open>Properties\<close>


definition sample_gen :: rand_gen where
  "sample_gen = \<lparr>rg_gen_type = None, rg_set_avg = None, rg_inv_cdf = None, rg_generate = None, rg_a = 0, rg_b = 0, rg_c = 0\<rparr>"

definition sample_env :: draw_env where
  "sample_env = \<lparr>de_drand48 = 1 / 2, de_rand = 7, de_normal = 0\<rparr>"


text \<open>
  C39. Generators the parser accepts but that cannot be used: round robin and uniform numbers
  without a maximum divide by zero; the families with two or three parameters dereference a null
  token when one is missing; an unknown name gives a null generator that the request generator
  dereferences; and the generalised extreme value family, which computes a power of \<open>-exp(y)\<close>, yields no
  number at all for a shape that is not an integer.
\<close>

theorem unusable_generators:
  "(\<forall>name\<in>{''rr'', ''uniform''}. \<exists>gen. lancet_init_rand fl gen0 name = Inr (Some gen) \<and>
      gen_inter_arrival fl (Some gen) e rr = Inl DivByZero) \<and>
   (\<forall>name\<in>{''pareto'', ''gev'', ''bimodal'', ''lognorm''}. lancet_init_rand fl gen0 name = Inl NullPointer) \<and>
   lancet_init_rand fl gen0 ''poisson'' = Inr None \<and> gen_inter_arrival fl None e rr = Inl NullPointer \<and>
   (rg_generate gen = None \<and> rg_inv_cdf gen = Some Gev_inv_cdf \<and> rg_c gen \<notin> \<int> \<and> 0 < fl (exp (de_drand48 e)) \<longrightarrow>
      gen_inter_arrival fl (Some gen) e rr = Inl NotANumber)"
proof -
  have "- rg_c gen \<noteq> real_of_int \<lfloor>- rg_c gen\<rfloor>" if "rg_c gen \<notin> \<int>"
    using that by (metis Ints_of_int minus_in_Ints_iff)
  then have "rg_generate gen = None \<and> rg_inv_cdf gen = Some Gev_inv_cdf \<and> rg_c gen \<notin> \<int> \<and> 0 < fl (exp (de_drand48 e)) \<longrightarrow>
      gen_inter_arrival fl (Some gen) e rr = Inl NotANumber"
    by (auto simp: gen_inter_arrival_def rg_draw_def do_inv_cdf_def gev_inv_cdf_def pow_any_def)
  moreover have "lancet_init_rand fl gen0 ''rr'' = Inr (Some (rr_init 0 gen0))"
      "lancet_init_rand fl gen0 ''uniform'' = Inr (Some (uni_init 0 gen0))"
    by (simp_all add: lancet_init_rand_def starts_def parse_param_1_def token_def strtok_all_def)
  moreover have "\<forall>name\<in>{''pareto'', ''gev'', ''bimodal'', ''lognorm''}. lancet_init_rand fl gen0 name = Inl NullPointer"
    by (simp add: lancet_init_rand_def starts_def parse_param_3_def parse_param_2_def param_def token_def strtok_all_def)
  moreover have "lancet_init_rand fl gen0 ''poisson'' = Inr None" by (simp add: lancet_init_rand_def starts_def)
  ultimately show ?thesis
    by (simp add: gen_inter_arrival_def rg_draw_def rr_init_def uni_init_def do_generate_def rr_generate_def uni_generate_def to_u64_def)
qed

lemma half_not_int: "(1 / 2 :: real) \<notin> \<int>"
proof
  assume "(1 / 2 :: real) \<in> \<int>"
  then obtain k where "(1 / 2 :: real) = of_int k" by (auto elim: Ints_cases)
  then have "2 * k = 1" by linarith
  then show False by presburger
qed

theorem unusable_generators_witness:
  "gen_inter_arrival (\<lambda>x. x) (Some (sample_gen\<lparr>rg_inv_cdf := Some Gev_inv_cdf, rg_c := 1 / 2\<rparr>)) sample_env 0 = Inl NotANumber \<and>
   lancet_init_rand (\<lambda>x. x) sample_gen ''bimodal'' = Inl NullPointer"
  using unusable_generators [of "\<lambda>x. x" sample_gen sample_env 0 "sample_gen\<lparr>rg_inv_cdf := Some Gev_inv_cdf, rg_c := 1 / 2\<rparr>"]
    half_not_int by (simp add: sample_gen_def)

end
