(* ===== verification/Hpage.thy ===== *)
theory Hpage
  imports Memory
begin

text \<open>
  Memory in huge pages, \<^verbatim>\<open>doradd/hugepage.hpp\<close>: sizes rounded to pages, zeroing page by page, the check
  of every page against the kernel's page tables, and the copy of a file.  The allocator and the two
  files of the kernel are arguments.
\<close>

definition HPAGE_SIZE :: nat where
  "HPAGE_SIZE = 2 ^ 21"

definition PAGE_SIZE :: u64 where
  "PAGE_SIZE = 2 ^ 12"

definition PAGEMAP_PRESENT :: "u64 \<Rightarrow> bool" where
  "PAGEMAP_PRESENT ent \<longleftrightarrow> (ent AND push_bit 63 1) \<noteq> 0"

definition PAGEMAP_PFN :: "u64 \<Rightarrow> u64" where
  "PAGEMAP_PFN ent = ent AND (push_bit 55 1 - 1)"

text \<open>
  What the program sees of the system: \<open>aligned_alloc\<close> gives an address, 0 when it fails, and the old
  contents of the memory there; the entries of \<^verbatim>\<open>/proc/self/pagemap\<close> and \<^verbatim>\<open>/proc/kpageflags\<close> by their
  index, \<open>None\<close> when the read fails.
\<close>

record hpage_env =
  he_alloc :: "nat \<Rightarrow> u64"
  he_old :: "nat \<Rightarrow> u8"
  he_pagemap :: "u64 \<Rightarrow> u64 option"
  he_kpageflags :: "u64 \<Rightarrow> u64 option"

text \<open>\<open>KPF_THP\<close> is bit 22.\<close>

definition check_huge_page :: "hpage_env \<Rightarrow> u64 \<Rightarrow> unit result" where
  "check_huge_page H ptr = (case he_pagemap H (ptr div PAGE_SIZE) of
     None \<Rightarrow> Inl ExitFailure
   | Some ent \<Rightarrow>
       if \<not> PAGEMAP_PRESENT ent then Inl ExitFailure
       else if PAGEMAP_PFN ent = 0 then Inl ExitFailure
       else (case he_kpageflags H (PAGEMAP_PFN ent) of
           None \<Rightarrow> Inl ExitFailure
         | Some flags \<Rightarrow> if flags AND push_bit 22 1 = 0 then Inl ExitFailure else Inr ()))"

definition hpage_nr :: "nat \<Rightarrow> nat" where
  "hpage_nr sz = sz div HPAGE_SIZE + 1"

definition alloc_sz :: "nat \<Rightarrow> nat" where
  "alloc_sz sz = hpage_nr sz * HPAGE_SIZE"

definition memset_zero :: "nat \<Rightarrow> nat \<Rightarrow> mem \<Rightarrow> mem" where
  "memset_zero off n m = take off m @ replicate n 0 @ drop (off + n) m"

definition zero_page :: "hpage_env \<Rightarrow> u64 \<Rightarrow> nat \<Rightarrow> mem \<Rightarrow> mem result" where
  "zero_page H buf i m =
     rmap (\<lambda>_. memset_zero (i * HPAGE_SIZE) HPAGE_SIZE m) (check_huge_page H (buf + of_nat (i * HPAGE_SIZE)))"

text \<open>A failed allocation is only reported; the first write to it is what fails.\<close>

definition aligned_alloc_hpage :: "hpage_env \<Rightarrow> nat \<Rightarrow> (u64 \<times> mem) result" where
  "aligned_alloc_hpage H sz =
     (let buf = he_alloc H (alloc_sz sz) in
      if buf = 0 then Inl NullPointer
      else rmap (Pair buf) (rfold (zero_page H buf) [0..<hpage_nr sz] (map (he_old H) [0..<alloc_sz sz])))"

definition aligned_alloc_hpage_lazy :: "hpage_env \<Rightarrow> nat \<Rightarrow> u64 \<times> mem" where
  "aligned_alloc_hpage_lazy H sz = (he_alloc H (alloc_sz sz), map (he_old H) [0..<alloc_sz sz])"

text \<open>
  The copy of a mapped file: whole huge pages, then \<open>memcpy(buf, src, strlen(src))\<close>, where \<open>strlen\<close> stops
  at the first zero byte; the mapping is followed by zero bytes up to the end of its last page.
\<close>

definition strlen :: "mem \<Rightarrow> nat" where
  "strlen src = length (takeWhile (\<lambda>b. b \<noteq> 0) src)"

definition memcpy_at :: "nat \<Rightarrow> mem \<Rightarrow> mem \<Rightarrow> mem" where
  "memcpy_at off src m = take off m @ src @ drop (off + length src) m"

definition aligned_alloc_hpage_fd :: "hpage_env \<Rightarrow> mem \<Rightarrow> (u64 \<times> mem) result" where
  "aligned_alloc_hpage_fd H src =
     (let src_sz = length src; n = hpage_nr src_sz; buf = he_alloc H (alloc_sz src_sz);
          m0 = map (he_old H) [0..<alloc_sz src_sz];
          m1 = fold (\<lambda>i. memcpy_at (i * HPAGE_SIZE) (take HPAGE_SIZE (drop (i * HPAGE_SIZE) src))) [0..<n - 1] m0;
          rest = drop ((n - 1) * HPAGE_SIZE) src in
      if buf = 0 then Inl NullPointer
      else Inr (buf, memcpy_at ((n - 1) * HPAGE_SIZE) (take (strlen rest) rest) m1))"

section \<open>Sizes and zeroed memory\<close>

lemma alloc_sz_bounds: "sz < alloc_sz sz" "alloc_sz sz \<le> sz + HPAGE_SIZE" "HPAGE_SIZE dvd alloc_sz sz"
proof -
  have "sz mod HPAGE_SIZE < HPAGE_SIZE" by (simp add: HPAGE_SIZE_def)
  then show "sz < alloc_sz sz" "alloc_sz sz \<le> sz + HPAGE_SIZE"
    using div_mult_mod_eq [of sz HPAGE_SIZE] unfolding alloc_sz_def hpage_nr_def add_mult_distrib by linarith+
qed (simp add: alloc_sz_def)

definition pages_huge :: "hpage_env \<Rightarrow> u64 \<Rightarrow> nat \<Rightarrow> bool" where
  "pages_huge H buf n \<longleftrightarrow> (\<forall>i<n. check_huge_page H (buf + of_nat (i * HPAGE_SIZE)) = Inr ())"

lemma memset_zero_front:
  assumes "take (i * b) m = replicate (i * b) 0" and "Suc i * b \<le> length m"
  shows "take (Suc i * b) (memset_zero (i * b) b m) = replicate (Suc i * b) 0" "length (memset_zero (i * b) b m) = length m"
proof -
  have "min (length m) (i * b) = i * b" using assms(2) by simp
  then show "take (Suc i * b) (memset_zero (i * b) b m) = replicate (Suc i * b) 0"
    using assms by (simp add: memset_zero_def replicate_add [symmetric] add.commute)
  show "length (memset_zero (i * b) b m) = length m" using assms(2) by (simp add: memset_zero_def)
qed

lemma aligned_alloc_hpage_ok:
  assumes "he_alloc H (alloc_sz sz) = buf" and "buf \<noteq> 0" and "pages_huge H buf (hpage_nr sz)"
  shows "aligned_alloc_hpage H sz = Inr (buf, replicate (alloc_sz sz) 0)"
proof -
  have "\<exists>m. rfold (zero_page H buf) [0..<hpage_nr sz] (map (he_old H) [0..<alloc_sz sz]) = Inr m \<and>
      (length m = alloc_sz sz \<and> take (hpage_nr sz * HPAGE_SIZE) m = replicate (hpage_nr sz * HPAGE_SIZE) 0)"
  proof (rule rfold_upt_total)
    fix i and m :: mem
    assume i: "i < hpage_nr sz" and m: "length m = alloc_sz sz \<and> take (i * HPAGE_SIZE) m = replicate (i * HPAGE_SIZE) 0"
    have "Suc i * HPAGE_SIZE \<le> hpage_nr sz * HPAGE_SIZE" using i by (intro mult_le_mono1) simp
    then have "Suc i * HPAGE_SIZE \<le> length m" using m by (simp add: alloc_sz_def)
    then show "\<exists>s'. zero_page H buf i m = Inr s' \<and>
        (length s' = alloc_sz sz \<and> take (Suc i * HPAGE_SIZE) s' = replicate (Suc i * HPAGE_SIZE) 0)"
      using assms(3) i m memset_zero_front [of i HPAGE_SIZE m] by (simp add: zero_page_def pages_huge_def)
  qed simp
  then obtain m where "rfold (zero_page H buf) [0..<hpage_nr sz] (map (he_old H) [0..<alloc_sz sz]) = Inr m"
    and "m = replicate (alloc_sz sz) 0" by (auto simp: alloc_sz_def)
  then show ?thesis using assms(1,2) by (simp add: aligned_alloc_hpage_def)
qed

lemma aligned_alloc_hpage_length:
  assumes "aligned_alloc_hpage H sz = Inr (buf, m)"
  shows "length m = alloc_sz sz"
proof -
  have r: "rfold (zero_page H buf) [0..<hpage_nr sz] (map (he_old H) [0..<alloc_sz sz]) = Inr m"
    using assms by (auto simp: aligned_alloc_hpage_def Let_def result_simps split: if_splits)
  show ?thesis
  proof (rule rfold_upt_inv [OF r, where P = "\<lambda>_ m. length m = alloc_sz sz"])
    fix i and m m' :: mem
    assume i: "i < hpage_nr sz" and len: "length m = alloc_sz sz" and z: "zero_page H buf i m = Inr m'"
    have "Suc i * HPAGE_SIZE \<le> hpage_nr sz * HPAGE_SIZE" using i by (intro mult_le_mono1) simp
    then have "i * HPAGE_SIZE + HPAGE_SIZE \<le> length m" using len by (simp add: alloc_sz_def)
    then show "length m' = alloc_sz sz" using z len by (auto simp: zero_page_def result_simps memset_zero_def)
  qed simp
qed

text \<open>A file shorter than a huge page is copied up to its first zero byte only.\<close>

lemma short_file_truncated:
  assumes "length src < HPAGE_SIZE" and "he_alloc H (alloc_sz (length src)) = buf" and "buf \<noteq> 0" and "k < length src"
    and "src ! k = 0"
  shows "\<exists>m. aligned_alloc_hpage_fd H src = Inr (buf, m) \<and> (\<forall>j. k \<le> j \<and> j < length src \<longrightarrow> m ! j = he_old H j)"
proof -
  have n: "hpage_nr (length src) = 1" using assms(1) by (simp add: hpage_nr_def)
  let ?s = "take (strlen src) src" and ?m = "map (he_old H) [0..<alloc_sz (length src)]"
  have le: "strlen src \<le> k"
  proof (rule ccontr)
    assume "\<not> strlen src \<le> k"
    then have "k < length (takeWhile (\<lambda>b. b \<noteq> 0) src)" by (simp add: strlen_def)
    then show False using assms(5) nth_mem [of k "takeWhile (\<lambda>b. b \<noteq> 0) src"] takeWhile_nth [of k "\<lambda>b. b \<noteq> 0" src]
      by (metis (full_types) set_takeWhileD)
  qed
  have "memcpy_at 0 ?s ?m ! j = he_old H j" if j: "k \<le> j" "j < length src" for j
    using le j alloc_sz_bounds(1) [of "length src"] assms(4) by (simp add: memcpy_at_def nth_append)
  then show ?thesis using n assms(2,3) by (simp add: aligned_alloc_hpage_fd_def)
qed

end
