(* ===== verification/Programs.thy ===== *)
theory Programs
  imports Ycsb_Log Tpcc Chain Inter_Arrival Hpage
begin

text \<open>
  The three programs, \<open>main\<close> of \<^verbatim>\<open>app/ycsb.cc\<close>, \<^verbatim>\<open>app/tpcc.cc\<close> and \<^verbatim>\<open>app/chain.cc\<close>, from the command line to
  the started pipeline: the core count, memory for the rows in huge pages, the rows themselves, the
  request generator and the mapped log of \<open>build_pipelines\<close>.  An early exit is an error value.
\<close>

section \<open>The start of the pipeline\<close>

text \<open>
  What the programs see of the system: files by name, memory, the number of cores, the rounding of
  doubles and the contents of memory from \<open>malloc\<close>.
\<close>

record system =
  sy_files :: "string \<Rightarrow> mem option"
  sy_hpage :: hpage_env
  sy_cores :: nat
  sy_round :: "real \<Rightarrow> real"
  sy_gen0 :: rand_gen

text \<open>Values of variables the program leaves uninitialised, the two new rings and the clock.\<close>

record 'q initial =
  in_batch :: int
  in_registered :: bool
  in_exec_sum :: u64
  in_last_print :: int
  in_ring_idx_pref :: 'q
  in_ring_pref_disp :: 'q
  in_start :: int

definition map_log :: "system \<Rightarrow> string \<Rightarrow> mem result" where
  "map_log Y log_name = (case sy_files Y log_name of None \<Rightarrow> Inl ExitFailure | Some ret \<Rightarrow> Inr ret)"

definition sizeof_ts_type :: nat where
  "sizeof_ts_type = 8"

text \<open>
  \<open>build_pipelines\<close> with its arguments: the array of arrival times, the request generator, the log, the
  stages.  The result is the distribution of the request generator and the state the threads start from.
\<close>

definition start_pipelines ::
  "system \<Rightarrow> 'q initial \<Rightarrow> u8 \<Rightarrow> string \<Rightarrow> string \<Rightarrow> (rand_gen option \<times> ('q, mem, 'b) pipeline) result" where
  "start_pipelines Y I worker_cnt log_name gen_type =
     rbind (aligned_alloc_hpage (sy_hpage Y) (unat RPC_LOG_SIZE * sizeof_ts_type)) (\<lambda>log_arr.
     rbind (lancet_init_rand (sy_round Y) (sy_gen0 Y) gen_type) (\<lambda>gen.
     rbind (map_log Y log_name) (\<lambda>ret.
       rmap (Pair gen) (build_pipelines ret worker_cnt (in_batch I) (in_registered I) (in_exec_sum I) (in_last_print I)
         (in_ring_idx_pref I) (in_ring_pref_disp I) (in_start I)))))"

section \<open>The programs\<close>

definition ycsb_main ::
  "system \<Rightarrow> 'q initial \<Rightarrow> 'c verona \<Rightarrow> string list \<Rightarrow>
   ('c index \<times> rand_gen option \<times> ('q, mem, 'c ycsb_when) pipeline) result" where
  "ycsb_main Y I V argv =
     rbind (parse_core_cnt argv (sy_cores Y)) (\<lambda>core_cnt.
     rbind (aligned_alloc_hpage (sy_hpage Y) (unat COWN_STRIDE * DB_SIZE)) (\<lambda>(cown_arr_addr, _).
     rbind (ycsb_load V cown_arr_addr DB_SIZE) (\<lambda>index.
       rmap (Pair index) (start_pipelines Y I (core_cnt - 1) (argv ! 3) (argv ! 5)))))"

text \<open>The size of the one array of all tables (\<open>SINGLE_TABLE\<close>), and where each table begins in it.\<close>

definition single_table_sz :: u64 where
  "single_table_sz = 1024 * (TSIZE_WAREHOUSE + TSIZE_DISTRICT + 2 * TSIZE_CUSTOMER + TSIZE_STOCK + TSIZE_ITEM +
     TSIZE_HISTORY + TSIZE_ORDER + TSIZE_ORDER_LINE + TSIZE_NEW_ORDER)"

definition single_table_addrs :: "u64 \<Rightarrow> table_addrs \<times> u64" where
  "single_table_addrs warehouse =
     (let district = warehouse + 1024 * TSIZE_WAREHOUSE;
          customer = district + 1024 * TSIZE_DISTRICT;
          stock = customer + 2 * 1024 * TSIZE_CUSTOMER;
          item = stock + 1024 * TSIZE_STOCK;
          history = item + 1024 * TSIZE_ITEM;
          order = history + 1024 * TSIZE_HISTORY;
          order_line = order + 1024 * TSIZE_ORDER;
          new_order = order_line + 1024 * TSIZE_ORDER_LINE
      in (\<lparr>warehouse_table_addr = warehouse, district_table_addr = district, customer_table_addr = customer,
           history_table_addr = history, order_table_addr = order, order_line_table_addr = order_line,
           item_table_addr = item, stock_table_addr = stock\<rparr>, new_order))"

definition tpcc_main ::
  "system \<Rightarrow> 'q initial \<Rightarrow> 'c verona \<Rightarrow> rand_env \<Rightarrow> string list \<Rightarrow>
   ('c database \<times> rand_gen option \<times> ('q, mem, 'c tpcc_when) pipeline) result" where
  "tpcc_main Y I V e argv =
     rbind (read_core_cnt argv) (\<lambda>core_cnt.
     rbind (aligned_alloc_hpage (sy_hpage Y) (unat single_table_sz)) (\<lambda>(tpcc_arr_addr_warehouse, _).
     rbind (tpcc_load V e (fst (single_table_addrs tpcc_arr_addr_warehouse))) (\<lambda>(db, r).
       rmap (Pair db) (start_pipelines Y I (core_cnt - 1) (argv ! 3) (argv ! 5)))))"

definition chain_main ::
  "chain_class \<Rightarrow> system \<Rightarrow> 'q initial \<Rightarrow> 'c verona \<Rightarrow> string list \<Rightarrow>
   ('c chain_db \<times> rand_gen option \<times> ('q, mem, 'c chain_when) pipeline) result" where
  "chain_main K Y I V argv =
     rbind (parse_core_cnt argv (sy_cores Y)) (\<lambda>core_cnt.
     rbind (aligned_alloc_hpage (sy_hpage Y) (1024 * (NUM_RESRC K + NUM_ACCOUNTS))) (\<lambda>(chain_arr_addr_resource, _).
     rbind (chain_load K V chain_arr_addr_resource) (\<lambda>db.
       rmap (Pair db) (start_pipelines Y I (core_cnt - 1) (argv ! 3) (argv ! 5)))))"

section \<open>Starting\<close>

text \<open>The command line \<open>-n n file -i gen\<close>; memory of a given size in huge pages; a log to be mapped.\<close>

definition argv_ok :: "nat \<Rightarrow> string list \<Rightarrow> bool" where
  "argv_ok n argv \<longleftrightarrow> length argv = 6 \<and> argv ! 1 = ''-n'' \<and> argv ! 2 = decimal n"

definition alloc_ok :: "system \<Rightarrow> nat \<Rightarrow> bool" where
  "alloc_ok Y sz \<longleftrightarrow> he_alloc (sy_hpage Y) (alloc_sz sz) \<noteq> 0 \<and>
     pages_huge (sy_hpage Y) (he_alloc (sy_hpage Y) (alloc_sz sz)) (hpage_nr sz)"

definition starts_with :: "system \<Rightarrow> string list \<Rightarrow> mem \<Rightarrow> rand_gen \<Rightarrow> bool" where
  "starts_with Y argv m gen \<longleftrightarrow> alloc_ok Y (unat RPC_LOG_SIZE * sizeof_ts_type) \<and> sy_files Y (argv ! 3) = Some m \<and>
     lancet_init_rand (sy_round Y) (sy_gen0 Y) (argv ! 5) = Inr (Some gen)"

abbreviation stages :: "'q initial \<Rightarrow> mem \<Rightarrow> u8 \<Rightarrow> ('q, mem, 'b) pipeline result" where
  "stages I m wc \<equiv> build_pipelines m wc (in_batch I) (in_registered I) (in_exec_sum I) (in_last_print I)
     (in_ring_idx_pref I) (in_ring_pref_disp I) (in_start I)"

lemma alloc_hpage:
  "alloc_ok Y sz \<Longrightarrow> aligned_alloc_hpage (sy_hpage Y) sz =
     Inr (he_alloc (sy_hpage Y) (alloc_sz sz), replicate (alloc_sz sz) 0)"
  by (rule aligned_alloc_hpage_ok) (auto simp: alloc_ok_def)

lemma core_cnt_ok:
  "argv_ok n argv \<Longrightarrow> n < 256 \<Longrightarrow> read_core_cnt argv = Inr (of_nat n)"
  "argv_ok n argv \<Longrightarrow> 1 < n \<Longrightarrow> n \<le> k \<Longrightarrow> k < 256 \<Longrightarrow> parse_core_cnt argv k = Inr (of_nat n)"
  using parse_core_cnt_ok [of argv n k] by (auto simp: argv_ok_def read_core_cnt_def atoi_decimal)

lemma start_pipelines_ok:
  assumes "starts_with Y argv m gen" and "stages I m wc = Inr s0"
  shows "start_pipelines Y I wc (argv ! 3) (argv ! 5) = Inr (Some gen, s0)"
  using assms by (simp add: start_pipelines_def starts_with_def alloc_hpage map_log_def)

section \<open>The layout of the TPC-C tables\<close>

text \<open>Of every table its start, the distance of its rows and their number, in the order of the array.\<close>

definition tpcc_areas :: "u64 \<Rightarrow> (u64 \<times> nat \<times> nat) list" where
  "tpcc_areas base = (case single_table_addrs base of (a, new_order) \<Rightarrow>
     [(warehouse_table_addr a, 1024, unat TSIZE_WAREHOUSE), (district_table_addr a, 1024, unat TSIZE_DISTRICT),
      (customer_table_addr a, 2048, unat TSIZE_CUSTOMER), (stock_table_addr a, 1024, unat TSIZE_STOCK),
      (item_table_addr a, 1024, unat TSIZE_ITEM), (history_table_addr a, 1024, unat TSIZE_HISTORY),
      (order_table_addr a, 1024, unat TSIZE_ORDER), (order_line_table_addr a, 1024, unat TSIZE_ORDER_LINE),
      (new_order, 1024, unat TSIZE_NEW_ORDER)])"

definition area_rows :: "u64 \<times> nat \<times> nat \<Rightarrow> nat" where
  "area_rows A = snd (snd A)"

definition area_row :: "u64 \<times> nat \<times> nat \<Rightarrow> nat \<Rightarrow> nat" where
  "area_row A i = unat (fst A) + fst (snd A) * i"

text \<open>Areas that follow each other from address \<open>b\<close> on, and where they end.\<close>

fun chained :: "nat \<Rightarrow> (u64 \<times> nat \<times> nat) list \<Rightarrow> nat \<Rightarrow> bool" where
  "chained b [] e \<longleftrightarrow> b = e"
| "chained b ((s, d, n) # As) e \<longleftrightarrow> unat s = b \<and> 1024 \<le> d \<and> chained (b + d * n) As e"

lemma chained_bounds: "chained b As e \<Longrightarrow> b \<le> e"
  by (induction b As e rule: chained.induct) auto

lemma chained_row:
  assumes "chained b As e" and "A \<in> set As" and "i < area_rows A"
  shows "b \<le> area_row A i \<and> area_row A i + 1024 \<le> e"
  using assms
proof (induction b As e rule: chained.induct)
  case (2 b s d n As e)
  have "d * Suc i \<le> d * n" if "i < n" using that by (intro mult_le_mono2) simp
  with 2 chained_bounds [of "b + d * n" As e] show ?case by (fastforce simp: area_row_def area_rows_def)
qed simp

lemma chained_apart:
  assumes "chained b As e" and "t \<le> u" and "u < length As" and "t < u \<or> i < j"
    and "i < area_rows (As ! t)" and "j < area_rows (As ! u)"
  shows "area_row (As ! t) i + 1024 \<le> area_row (As ! u) j"
  using assms
proof (induction b As e arbitrary: t u rule: chained.induct)
  case (2 b s d n As e)
  have i: "d * Suc i \<le> d * k" if "i < k" for k using that by (intro mult_le_mono2) simp
  show ?case
  proof (cases t)
    case 0
    then have "area_row (((s, d, n) # As) ! t) i + 1024 \<le> b + d * Suc i" using 2 by (simp add: area_row_def)
    moreover have "b + d * Suc i \<le> area_row (((s, d, n) # As) ! u) j"
    proof (cases u)
      case 0
      then show ?thesis using 2 \<open>t = 0\<close> i [of j] by (simp add: area_row_def)
    next
      case (Suc u')
      then have "b + d * n \<le> area_row (As ! u') j" using 2 chained_row [of "b + d * n" As e "As ! u'" j] by simp
      then show ?thesis using 2 Suc \<open>t = 0\<close> i [of n] by (simp add: area_rows_def)
    qed
    ultimately show ?thesis by linarith
  next
    case (Suc t')
    then show ?thesis using 2 by (cases u) auto
  qed
qed simp

lemma single_table_sz_unat: "unat single_table_sz = 66891787264"
  by (simp add: single_table_sz_def tpcc_tsizes tpcc_consts)

lemma unat_offset: "unat (base :: u64) + k < 2 ^ 64 \<Longrightarrow> unat (base + of_nat k) = unat base + k"
  by (subst unat_add_small) (simp_all add: unat_of_nat_small)

lemma tpcc_areas_chained:
  assumes "unat base + unat single_table_sz < 2 ^ 64"
  shows "chained (unat base) (tpcc_areas base) (unat base + unat single_table_sz)"
proof -
  have off: "unat (base + numeral k) = unat base + numeral k" if "numeral k \<le> (66891787264 :: nat)" for k
  proof -
    have "unat base + numeral k < 2 ^ 64" using that assms unfolding single_table_sz_unat by linarith
    then show ?thesis using unat_offset [of base "numeral k"] by simp
  qed
  show ?thesis
    by (simp add: tpcc_areas_def single_table_addrs_def Let_def tpcc_tsizes tpcc_consts off single_table_sz_unat add.assoc)
qed

section \<open>A sample system\<close>

text \<open>Memory from 2 MB on, all in huge pages; one log, whatever its name; four of eight cores.\<close>

definition sample_hpage :: hpage_env where
  "sample_hpage = \<lparr>he_alloc = \<lambda>_. 0x200000, he_old = \<lambda>_. 0,
     he_pagemap = \<lambda>_. Some 0x8000000000000001, he_kpageflags = \<lambda>_. Some 0x400000\<rparr>"

definition sample_system :: "mem \<Rightarrow> system" where
  "sample_system m = \<lparr>sy_files = \<lambda>_. Some m, sy_hpage = sample_hpage, sy_cores = 8, sy_round = \<lambda>x. x, sy_gen0 = sample_gen\<rparr>"

definition sample_argv :: "string list" where
  "sample_argv = [''program'', ''-n'', decimal 4, ''log'', ''-i'', ''fixed:'' @ decimal 100]"

definition sample_initial :: "int list initial" where
  "sample_initial = \<lparr>in_batch = 0, in_registered = False, in_exec_sum = 0, in_last_print = 0,
     in_ring_idx_pref = [], in_ring_pref_disp = [], in_start = 0\<rparr>"

lemma sample_alloc: "alloc_ok (sample_system m) sz"
proof -
  have "PAGEMAP_PRESENT 0x8000000000000001" "PAGEMAP_PFN 0x8000000000000001 = 1" "(0x400000 :: u64) AND push_bit 22 1 \<noteq> 0"
    by (simp_all add: PAGEMAP_PRESENT_def PAGEMAP_PFN_def push_bit_eq_mult)
  then show ?thesis by (simp add: alloc_ok_def pages_huge_def check_huge_page_def sample_system_def sample_hpage_def)
qed

lemma sample_starts: obtains gen where "starts_with (sample_system m) sample_argv m gen"
proof -
  obtain gen where "lancet_init_rand (\<lambda>x. x) sample_gen (''fixed:'' @ decimal 100) = Inr (Some gen)"
    using fixed_gap [of "\<lambda>x. x" 100 sample_gen] by auto
  then have "starts_with (sample_system m) sample_argv m gen"
    using sample_alloc [of m] by (simp add: starts_with_def sample_argv_def sample_system_def)
  then show ?thesis by (rule that)
qed

lemma sample_argv_ok: "argv_ok 4 sample_argv"
  by (simp add: argv_ok_def sample_argv_def)

section \<open>Properties\<close>



text \<open>
  C16. The blockchain program starts: with valid arguments, enough cores, huge pages, an existing log and a
  known generator, \<open>main\<close> returns both tables filled and the pipeline over the log with \<open>n - 1\<close> workers.  It
  does not start the pipeline with a wrong number of arguments, fewer than two cores or a missing log.
\<close>

theorem chain_program_starts:
  fixes I :: "'q initial" and V :: "'c verona"
  assumes "argv_ok n argv" and "1 < n" and "n \<le> sy_cores Y" and "sy_cores Y < 256"
    and "alloc_ok Y (1024 * (NUM_RESRC K + NUM_ACCOUNTS))" and "starts_with Y argv m gen" and "log_count m = Inr k"
    and "he_alloc (sy_hpage Y) (alloc_sz (1024 * (NUM_RESRC K + NUM_ACCOUNTS))) = base"
  shows "(\<exists>db s0. chain_main K Y I V argv = Inr (db, Some gen, s0) \<and> stages I m (of_nat n - 1) = Inr s0 \<and>
      rows_placed V base (NUM_RESRC K) (resource_table db) \<and>
      rows_placed V (base + 1024 * of_nat (NUM_RESRC K)) NUM_ACCOUNTS (user_table db)) \<and>
    (\<forall>argv'. length argv' \<noteq> 6 \<longrightarrow> chain_main K Y I V argv' = Inl BadArgument) \<and>
    (\<forall>c<2. chain_main K Y I V (argv[2 := decimal c]) = Inl AssertFailed) \<and>
    chain_main K (Y\<lparr>sy_files := \<lambda>_. None\<rparr>) I V argv = Inl ExitFailure"
proof -
  obtain s0 :: "('q, mem, 'c chain_when) pipeline" where s0: "stages I m (of_nat n - 1) = Inr s0"
    by (rule log_count_image [OF assms(7)])
  obtain db where db: "chain_load K V base = Inr db" "rows_placed V base (NUM_RESRC K) (resource_table db)"
      "rows_placed V (base + 1024 * of_nat (NUM_RESRC K)) NUM_ACCOUNTS (user_table db)"
    using chain_load_ok by blast
  note steps = chain_main_def core_cnt_ok(2) [OF assms(1-4)] alloc_hpage [OF assms(5), unfolded assms(8)] db(1)
  have "chain_main K Y I V argv = Inr (db, Some gen, s0)"
    by (simp add: steps start_pipelines_ok [OF assms(6) s0] del: distrib_left_numeral)
  moreover have "chain_main K Y I V argv' = Inl BadArgument" if "length argv' \<noteq> 6" for argv'
    using that by (simp add: chain_main_def parse_core_cnt_def read_core_cnt_def)
  moreover have "\<forall>c<2. chain_main K Y I V (argv[2 := decimal c]) = Inl AssertFailed"
    using assms(1) by (auto simp: chain_main_def parse_core_cnt_def read_core_cnt_def argv_ok_def atoi_decimal less_2_cases_iff)
  moreover have "chain_main K (Y\<lparr>sy_files := \<lambda>_. None\<rparr>) I V argv = Inl ExitFailure"
    using assms(6) by (simp add: steps start_pipelines_def starts_with_def alloc_hpage map_log_def del: distrib_left_numeral)
  ultimately show ?thesis using s0 db(2,3) by blast
qed

theorem chain_program_starts_witness:
  "\<exists>db gen s0. chain_main Nft (sample_system (bytes_of 4 8)) sample_initial flat_verona sample_argv = Inr (db, gen, s0) \<and>
     rows_placed flat_verona 0x200000 (NUM_RESRC Nft) (resource_table db) \<and>
     chain_main Nft (sample_system (bytes_of 4 8)) sample_initial flat_verona [''program''] = Inl BadArgument"
proof -
  obtain gen where gen: "starts_with (sample_system (bytes_of 4 8)) sample_argv (bytes_of 4 8) gen" by (rule sample_starts)
  have cnt: "log_count (bytes_of 4 8) = Inr 8" by (simp add: log_count_def load_u32_def load_def nat_of_bytes_bytes_of)
  have cores: "4 \<le> sy_cores (sample_system (bytes_of 4 8))" "sy_cores (sample_system (bytes_of 4 8)) < 256"
    by (simp_all add: sample_system_def)
  have buf: "he_alloc (sy_hpage (sample_system (bytes_of 4 8))) k = 0x200000" for k
    by (simp add: sample_system_def sample_hpage_def)
  note c = chain_program_starts [OF sample_argv_ok _ cores sample_alloc gen cnt buf, of Nft sample_initial flat_verona]
  have "chain_main Nft (sample_system (bytes_of 4 8)) sample_initial flat_verona [''program''] = Inl BadArgument"
    by (rule c [THEN conjunct2, THEN conjunct1, rule_format]) simp_all
  with c [THEN conjunct1] show ?thesis by auto
qed

end
