(* ===== verification/Ycsb_Tier.thy ===== *)
theory Ycsb_Tier
  imports Ycsb
begin

text \<open>
  The \<open>STORAGE_TIER\<close> build of \<^verbatim>\<open>app/ycsb.cc\<close>: a row is a pointer into a separate array of payloads,
  and the cowns are 64 bytes apart.  The state of the rows is the pointer of every cown and the bytes
  of memory.  The development shows that this build refines the default one: seen through the
  pointers, the payloads change exactly as the rows of the default build do.
\<close>

section \<open>Rows behind pointers\<close>

definition TIER_COWN_STRIDE :: u64 where
  "TIER_COWN_STRIDE = 64"

text \<open>\<open>YCSBRow::payload\<close> of every cown, and the bytes at the addresses.\<close>

type_synonym 'c tier_rows = "'c \<Rightarrow> u64"

type_synonym heap = "u64 \<Rightarrow> u8"

definition tier_read :: "u64 \<Rightarrow> heap \<Rightarrow> u8 \<Rightarrow> u8" where
  "tier_read payload h acc = fold (\<lambda>j s. s + h (payload + of_nat j)) [0..<ROW_SIZE] acc"

definition tier_memset :: "u64 \<Rightarrow> u8 \<Rightarrow> nat \<Rightarrow> heap \<Rightarrow> heap" where
  "tier_memset dest v n h = fold (\<lambda>j h. h(dest + of_nat j := v)) [0..<n] h"

definition tier_TXN :: "'c tier_rows \<Rightarrow> 'c \<Rightarrow> u8 \<times> u16 \<times> heap \<Rightarrow> u8 \<times> u16 \<times> heap" where
  "tier_TXN payload acq_row s = (case s of (acc, write_set_l, h) \<Rightarrow>
     if write_set_l AND 1 \<noteq> 0
     then (acc, drop_bit 1 write_set_l, tier_memset (payload acq_row) acc WRITE_SIZE h)
     else (tier_read (payload acq_row) h acc, drop_bit 1 write_set_l, h))"

definition tier_body :: "'c tier_rows \<Rightarrow> 'c ycsb_when \<Rightarrow> heap \<Rightarrow> heap" where
  "tier_body payload w h = snd (snd (fold (tier_TXN payload) (yw_rows w) (0, yw_ws_cap w, h)))"

section \<open>Creating the rows\<close>

definition tier_load_step ::
  "'c verona \<Rightarrow> u64 \<Rightarrow> u64 \<Rightarrow> nat \<Rightarrow> (u64 \<times> 'c index) \<times> 'c tier_rows \<Rightarrow> ((u64 \<times> 'c index) \<times> 'c tier_rows) result" where
  "tier_load_step V cown_arr_addr payload_arr_addr i s = (case s of (t, payload) \<Rightarrow>
     let payload_ptr = payload_arr_addr + of_nat ROW_SIZE * of_nat i;
         cown_r = make_cown_custom V (cown_arr_addr + TIER_COWN_STRIDE * of_nat i)
     in rmap (\<lambda>t'. (t', payload(cown_r := payload_ptr))) (ycsb_load_step TIER_COWN_STRIDE V cown_arr_addr i t))"

definition tier_load :: "'c verona \<Rightarrow> u64 \<Rightarrow> u64 \<Rightarrow> nat \<Rightarrow> ('c index \<times> 'c tier_rows) result" where
  "tier_load V cown_arr_addr payload_arr_addr rows =
     rmap (\<lambda>((_, index), payload). (index, payload))
       (rfold (tier_load_step V cown_arr_addr payload_arr_addr) [0..<rows] ((0, new_index), \<lambda>_. 0))"

section \<open>The simulation\<close>

text \<open>The row of a cown as the default build has it.\<close>

definition payload_of :: "'c tier_rows \<Rightarrow> heap \<Rightarrow> 'c \<Rightarrow> u8 list" where
  "payload_of payload h c = map (\<lambda>j. h (payload c + of_nat j)) [0..<ROW_SIZE]"

definition apart :: "'c tier_rows \<Rightarrow> 'c set \<Rightarrow> bool" where
  "apart payload S \<longleftrightarrow> (\<forall>c\<in>S. \<forall>d\<in>S. \<forall>i<ROW_SIZE. \<forall>j<ROW_SIZE.
     payload c + of_nat i = payload d + of_nat j \<longrightarrow> c = d \<and> i = j)"

lemma apartD:
  "apart payload S \<Longrightarrow> c \<in> S \<Longrightarrow> d \<in> S \<Longrightarrow> i < ROW_SIZE \<Longrightarrow> j < ROW_SIZE \<Longrightarrow>
     payload c + of_nat i = payload d + of_nat j \<Longrightarrow> c = d \<and> i = j"
  by (simp add: apart_def)

lemma tier_memset_eq: "tier_memset p v n h x = (if \<exists>j<n. x = p + of_nat j then v else h x)"
  by (induction n) (auto simp: tier_memset_def less_Suc_eq)

lemma fold_map_add: "fold (\<lambda>j s. s + f j) xs (acc :: u8) = fold (\<lambda>b s. s + b) (map f xs) acc"
  by (induction xs arbitrary: acc) simp_all

lemma tier_read_row: "tier_read (payload c) h acc = read_row (payload_of payload h c) acc"
  unfolding tier_read_def read_row_def payload_of_def
  by (subst fold_map_add) simp

lemma tier_memset_row:
  assumes "apart payload S" and "c \<in> S" and "d \<in> S"
  shows "payload_of payload (tier_memset (payload c) v WRITE_SIZE h) d =
    (if d = c then memset_row v (payload_of payload h c) else payload_of payload h d)"
proof -
  have hit: "(\<exists>j<WRITE_SIZE. payload d + of_nat i = payload c + of_nat j) \<longleftrightarrow> d = c \<and> i < WRITE_SIZE" if "i < ROW_SIZE" for i
  proof -
    have "d = c \<and> i = j" if "j < WRITE_SIZE" "payload d + of_nat i = payload c + of_nat j" for j
      using apartD [OF assms(1,3,2) \<open>i < ROW_SIZE\<close> _ that(2)] that(1) by (simp add: WRITE_SIZE_def ROW_SIZE_def)
    then show ?thesis by auto
  qed
  have "payload_of payload (tier_memset (payload c) v WRITE_SIZE h) d =
      map (\<lambda>i. if d = c \<and> i < WRITE_SIZE then v else h (payload d + of_nat i)) [0..<ROW_SIZE]"
    unfolding payload_of_def tier_memset_eq by (rule map_cong) (auto simp: hit)
  also have "\<dots> = (if d = c then memset_row v (payload_of payload h c) else payload_of payload h d)"
    by (rule nth_equalityI) (auto simp: payload_of_def memset_row_def nth_append WRITE_SIZE_def ROW_SIZE_def)
  finally show ?thesis .
qed

text \<open>The two builds side by side on rows \<open>S\<close>: the same running sum and write set, the same rows.\<close>

definition tier_sim :: "'c tier_rows \<Rightarrow> 'c set \<Rightarrow> u8 \<times> u16 \<times> heap \<Rightarrow> u8 \<times> u16 \<times> ('c \<Rightarrow> u8 list) \<Rightarrow> bool" where
  "tier_sim payload S s t \<longleftrightarrow> fst s = fst t \<and> fst (snd s) = fst (snd t) \<and>
     (\<forall>c\<in>S. payload_of payload (snd (snd s)) c = snd (snd t) c)"

lemma tier_TXN_sim:
  assumes "apart payload S" and "c \<in> S" and "tier_sim payload S s t"
  shows "tier_sim payload S (tier_TXN payload c s) (TXN c t)"
  using assms(2,3) by (cases s; cases t) (simp add: tier_sim_def tier_TXN_def TXN_def tier_memset_row [OF assms(1,2)] tier_read_row)

lemma tier_TXNs_sim:
  assumes "apart payload S"
  shows "set cs \<subseteq> S \<Longrightarrow> tier_sim payload S s t \<Longrightarrow> tier_sim payload S (fold (tier_TXN payload) cs s) (fold TXN cs t)"
  by (induction cs arbitrary: s t) (simp_all add: tier_TXN_sim [OF assms])

lemma tier_bodies_sim:
  assumes "apart payload S"
  shows "\<forall>w\<in>set ws. set (yw_rows w) \<subseteq> S \<Longrightarrow> \<forall>c\<in>S. payload_of payload h c = st c \<Longrightarrow>
     \<forall>c\<in>S. payload_of payload (fold (tier_body payload) ws h) c = fold ycsb_body ws st c"
proof (induction ws arbitrary: h st)
  case (Cons w ws)
  then have "tier_sim payload S (fold (tier_TXN payload) (yw_rows w) (0, yw_ws_cap w, h))
      (fold TXN (yw_rows w) (0, yw_ws_cap w, st))"
    by (intro tier_TXNs_sim [OF assms]) (simp_all add: tier_sim_def)
  with Cons show ?case by (simp add: tier_body_def ycsb_body_def tier_sim_def)
qed simp

text \<open>Memory outside the payloads of \<open>S\<close> stays as it is.\<close>

lemma tier_TXNs_frame:
  assumes "\<forall>c\<in>set cs. \<forall>j<WRITE_SIZE. x \<noteq> payload c + of_nat j"
  shows "snd (snd (fold (tier_TXN payload) cs s)) x = snd (snd s) x"
  using assms by (induction cs arbitrary: s) (auto simp: tier_TXN_def tier_memset_eq split: prod.splits)

lemma tier_bodies_frame:
  assumes "\<forall>w\<in>set ws. \<forall>c\<in>set (yw_rows w). \<forall>j<WRITE_SIZE. x \<noteq> payload c + of_nat j"
  shows "fold (tier_body payload) ws h x = h x"
  using assms by (induction ws arbitrary: h) (simp_all add: tier_body_def tier_TXNs_frame)

section \<open>The rows of the store\<close>

lemma tier_load_steps:
  "rfold (ycsb_load_step TIER_COWN_STRIDE V a) [0..<rows] (0, new_index) = Inr t \<Longrightarrow>
   rfold (tier_load_step V a p) [0..<rows] ((0, new_index), \<lambda>_. 0) =
     Inr (t, fold (\<lambda>i f. f(make_cown_custom V (a + TIER_COWN_STRIDE * of_nat i) := p + of_nat ROW_SIZE * of_nat i))
       [0..<rows] (\<lambda>_. 0))"
  by (induction rows arbitrary: t) (auto simp: rfold_append result_simps tier_load_step_def Let_def)

lemma fold_fun_upd_inj:
  "inj_on k (set xs) \<Longrightarrow> i \<in> set xs \<Longrightarrow> fold (\<lambda>i f. f(k i := g i)) xs f0 (k i) = g i"
  by (induction xs rule: rev_induct) (auto simp: inj_on_def)

text \<open>The cown of row \<open>i\<close>; small numbers stay apart as words.\<close>

definition tier_cown :: "'c verona \<Rightarrow> u64 \<Rightarrow> nat \<Rightarrow> 'c" where
  "tier_cown V a i = make_cown_custom V (a + TIER_COWN_STRIDE * of_nat i)"

lemma of_nat_u64_eq: "i < 2 ^ 64 \<Longrightarrow> j < 2 ^ 64 \<Longrightarrow> (of_nat i :: u64) = of_nat j \<longleftrightarrow> i = j"
  by (simp add: word_of_nat_eq_iff take_bit_nat_eq_self)

lemma tier_cown_inj:
  assumes "verona_ok V" and "i \<le> DB_SIZE" and "j \<le> DB_SIZE" and "tier_cown V a i = tier_cown V a j"
  shows "i = j"
proof -
  have "(of_nat (64 * i) :: u64) = of_nat (64 * j)"
    using verona_ok_inj [OF assms(1) assms(4) [unfolded tier_cown_def]] by (simp add: TIER_COWN_STRIDE_def)
  then show ?thesis using assms(2,3) by (subst (asm) of_nat_u64_eq) (simp_all add: DB_SIZE_def)
qed

lemma slot_unique:
  assumes "i < (10000000 :: nat)" and "j < 10000000" and "x < ROW_SIZE" and "y < ROW_SIZE"
    and "p + of_nat ROW_SIZE * of_nat i + of_nat x = (p :: u64) + of_nat ROW_SIZE * of_nat j + of_nat y"
  shows "i = j \<and> x = y"
proof -
  have "(of_nat (900 * i + x) :: u64) = of_nat (900 * j + y)" using assms(5) by (simp add: ROW_SIZE_def add.assoc)
  then have eq: "900 * i + x = 900 * j + y"
    using assms(1-4) by (subst (asm) of_nat_u64_eq) (simp_all add: ROW_SIZE_def)
  then have "i = j" using arg_cong [OF eq, of "\<lambda>z. z div 900"] assms(3,4) by (simp add: ROW_SIZE_def)
  with eq show ?thesis by simp
qed

lemma two_below_three: "unat (2 :: u64) < 3"
  by simp

lemma tier_load_ok:
  assumes "verona_ok V" and "rows \<le> DB_SIZE"
  obtains index payload where "tier_load V a p rows = Inr (index, payload)" "index_inv index"
    "\<And>i. idx_map index i = (if i < rows then Some (tier_cown V a i) else None)"
    "\<And>i. i < rows \<Longrightarrow> payload (tier_cown V a i) = p + of_nat ROW_SIZE * of_nat i"
    "apart payload (tier_cown V a ` {..<rows})"
proof -
  let ?payload = "fold (\<lambda>i f. f(tier_cown V a i := p + of_nat ROW_SIZE * of_nat i)) [0..<rows] (\<lambda>_. 0)"
  obtain prev index where ld: "rfold (ycsb_load_step TIER_COWN_STRIDE V a) [0..<rows] (0, new_index) = Inr (prev, index)"
      "unat (idx_cnt index) = rows" "\<forall>i. idx_map index i = (if i < rows then Some (tier_cown V a i) else None)"
    using ycsb_load_steps [OF assms, of TIER_COWN_STRIDE a] unfolding tier_cown_def by blast
  have load: "tier_load V a p rows = Inr (index, ?payload)"
    using tier_load_steps [OF ld(1), of p] by (simp add: tier_load_def tier_cown_def)
  have "inj_on (tier_cown V a) (set [0..<rows])"
    using tier_cown_inj [OF assms(1)] assms(2) by (auto simp: inj_on_def)
  from fold_fun_upd_inj [OF this]
  have ptr: "?payload (tier_cown V a i) = p + of_nat ROW_SIZE * of_nat i" if "i < rows" for i
    using that by simp
  have "apart ?payload (tier_cown V a ` {..<rows})"
  proof (unfold apart_def, clarify)
    fix i j x y
    assume s: "i < rows" "j < rows" "x < ROW_SIZE" "y < ROW_SIZE"
      and eq: "?payload (tier_cown V a i) + of_nat x = ?payload (tier_cown V a j) + of_nat y"
    with assms(2) show "tier_cown V a i = tier_cown V a j \<and> x = y"
      using slot_unique [of i j x y p] unfolding ptr [OF s(1)] ptr [OF s(2)] by (auto simp: DB_SIZE_def)
  qed
  with that [OF load] ld(2,3) ptr assms(2) show ?thesis by (auto simp: index_inv_def)
qed

lemma tier_store_bodies:
  assumes "apart payload (tier_cown V a ` {..<rows})"
    and "\<And>i. i < rows \<Longrightarrow> payload (tier_cown V a i) = p + of_nat ROW_SIZE * of_nat i"
    and "\<forall>w\<in>set ws. set (yw_rows w) \<subseteq> tier_cown V a ` {..<rows}"
  shows "(\<forall>c\<in>tier_cown V a ` {..<rows}.
      payload_of payload (fold (tier_body payload) ws h) c = fold ycsb_body ws (payload_of payload h) c) \<and>
    (\<forall>x. (\<forall>i<900 * rows. x \<noteq> p + of_nat i) \<longrightarrow> fold (tier_body payload) ws h x = h x)"
proof (intro conjI allI impI)
  show "\<forall>c\<in>tier_cown V a ` {..<rows}.
      payload_of payload (fold (tier_body payload) ws h) c = fold ycsb_body ws (payload_of payload h) c"
    by (rule tier_bodies_sim [OF assms(1,3)]) simp
next
  fix x
  assume x: "\<forall>i<900 * rows. x \<noteq> p + of_nat i"
  show "fold (tier_body payload) ws h x = h x"
  proof (rule tier_bodies_frame, intro ballI allI impI)
    fix w c j
    assume "w \<in> set ws" "c \<in> set (yw_rows w)" "j < WRITE_SIZE"
    then obtain i where "c = tier_cown V a i" "i < rows" "j < 100" using assms(3) by (auto simp: WRITE_SIZE_def)
    then show "x \<noteq> payload c + of_nat j"
      using assms(2) x [rule_format, of "900 * i + j"] by (simp add: ROW_SIZE_def add.assoc)
  qed
qed

section \<open>Properties\<close>

text \<open>
  C14. The \<open>STORAGE_TIER\<close> build refines the default build.  Its row loop returns: every key finds the
  cown at its place, 64 bytes apart, whose pointer leads to its own 900 bytes of the payload array.
  Any sequence of transactions on these rows, run on the memory behind the pointers, leaves every
  payload as the default build leaves the row, and no byte outside the payload array changes.
\<close>

theorem storage_tier_refines:
  assumes "verona_ok V" and "rows \<le> DB_SIZE"
  shows "\<exists>index payload. tier_load V a p rows = Inr (index, payload) \<and> index_inv index \<and>
    (\<forall>key. unat key < rows \<longrightarrow> index_get_row key index = Inr (Some (make_cown_custom V (a + 64 * key))) \<and>
       payload (make_cown_custom V (a + 64 * key)) = p + 900 * key) \<and>
    (\<forall>ws h. (\<forall>w\<in>set ws. \<forall>c\<in>set (yw_rows w). \<exists>key. unat key < rows \<and> index_get_row key index = Inr (Some c)) \<longrightarrow>
       (\<forall>key c. unat key < rows \<longrightarrow> index_get_row key index = Inr (Some c) \<longrightarrow>
          payload_of payload (fold (tier_body payload) ws h) c = fold ycsb_body ws (payload_of payload h) c) \<and>
       (\<forall>x. (\<forall>i<900 * rows. x \<noteq> p + of_nat i) \<longrightarrow> fold (tier_body payload) ws h x = h x))"
proof -
  obtain index payload where l: "tier_load V a p rows = Inr (index, payload)" "index_inv index"
    "\<And>i. idx_map index i = (if i < rows then Some (tier_cown V a i) else None)"
    "\<And>i. i < rows \<Longrightarrow> payload (tier_cown V a i) = p + of_nat ROW_SIZE * of_nat i"
    "apart payload (tier_cown V a ` {..<rows})"
    using tier_load_ok [OF assms, of a p] by blast
  let ?S = "tier_cown V a ` {..<rows}"
  have get: "index_get_row key index = Inr (Some (tier_cown V a (unat key)))" if "unat key < rows" for key
    using that l(3) assms(2) by (simp add: index_get_row_def)
  have place: "tier_cown V a (unat key) = make_cown_custom V (a + 64 * key)" for key
    by (simp add: tier_cown_def TIER_COWN_STRIDE_def)
  have ptr: "payload (tier_cown V a (unat key)) = p + 900 * key" if "unat key < rows" for key
    using l(4) [OF that] by (simp add: ROW_SIZE_def)
  show ?thesis
  proof (intro exI conjI allI impI)
    fix ws :: "'a ycsb_when list" and h
    assume "\<forall>w\<in>set ws. \<forall>c\<in>set (yw_rows w). \<exists>key. unat key < rows \<and> index_get_row key index = Inr (Some c)"
    then have "\<forall>w\<in>set ws. set (yw_rows w) \<subseteq> ?S" using get by fastforce
    note b = tier_store_bodies [OF l(5,4) this, of h]
    show "payload_of payload (fold (tier_body payload) ws h) c = fold ycsb_body ws (payload_of payload h) c"
      if "unat key < rows" "index_get_row key index = Inr (Some c)" for key c
      using b [THEN conjunct1] that get [OF that(1)] by auto
    show "fold (tier_body payload) ws h x = h x" if "\<forall>i<900 * rows. x \<noteq> p + of_nat i" for x
      using b that by simp
  qed (use l(1,2) get place ptr in auto)
qed

theorem storage_tier_refines_witness:
  "\<exists>index payload. tier_load flat_verona 0 5000 3 = Inr (index, payload) \<and> payload 128 = 6800 \<and>
     payload_of payload (fold (tier_body payload) [\<lparr>yw_rows = [0, 128], yw_ws_cap = 2, yw_init_time = 0\<rparr>] (\<lambda>_. 1)) 128 =
     ycsb_body \<lparr>yw_rows = [0, 128], yw_ws_cap = 2, yw_init_time = 0\<rparr> (payload_of payload (\<lambda>_. 1)) 128"
proof -
  let ?w = "\<lparr>yw_rows = [0, 128 :: u64], yw_ws_cap = 2, yw_init_time = 0\<rparr>"
  obtain index payload where t: "tier_load flat_verona 0 5000 3 = Inr (index, payload)"
    "\<forall>key :: u64. unat key < 3 \<longrightarrow> index_get_row key index = Inr (Some (0 + 64 * key)) \<and> payload (0 + 64 * key) = 5000 + 900 * key"
    "\<forall>ws h. (\<forall>w\<in>set ws. \<forall>c\<in>set (yw_rows w). \<exists>key. unat key < 3 \<and> index_get_row key index = Inr (Some c)) \<longrightarrow>
       (\<forall>key c. unat key < 3 \<longrightarrow> index_get_row key index = Inr (Some c) \<longrightarrow>
          payload_of payload (fold (tier_body payload) ws h) c = fold ycsb_body ws (payload_of payload h) c)"
    using storage_tier_refines [of flat_verona 3 0 5000] by (auto simp: DB_SIZE_def)
  have k: "index_get_row 0 index = Inr (Some 0)" "index_get_row 2 index = Inr (Some 128)" "payload 128 = 6800"
    using t(2) [rule_format, of 0] t(2) [rule_format, of 2] by simp_all
  have "\<forall>w\<in>set [?w]. \<forall>c\<in>set (yw_rows w). \<exists>key. unat key < 3 \<and> index_get_row key index = Inr (Some c)"
    using k(1,2) by (auto intro: exI [of _ "0 :: u64"] exI [of _ "2 :: u64"])
  with t(3) k have "payload_of payload (fold (tier_body payload) [?w] (\<lambda>_. 1)) 128 = fold ycsb_body [?w] (payload_of payload (\<lambda>_. 1)) 128"
    by (meson two_below_three)
  with t(1) k(3) show ?thesis by auto
qed

end
