(* ===== verification/Zipfian.thy ===== *)
theory Zipfian
  imports Ycsb_Log Inter_Arrival
begin

text \<open>
  The zipfian generator \<^verbatim>\<open>ycsb/gen-log/zipfian_random.h\<close>.  A \<open>double\<close> is a real number and \<open>fl\<close> rounds
  the result of every operation.  A division by zero while the constants are computed, and a power or
  a conversion that yields no number, end in \<open>NotANumber\<close>.
\<close>

section \<open>The generator\<close>

record zipfian_random =
  zr_max :: u64
  zr_theta :: real
  zr_zetan :: real
  zr_alpha :: real
  zr_eta :: real
  zr_seed :: u64

definition zeta :: "(real \<Rightarrow> real) \<Rightarrow> real \<Rightarrow> nat \<Rightarrow> real" where
  "zeta fl theta n = fold (\<lambda>i acc. fl (acc + fl (1 / fl (real (i + 1) powr theta)))) [0..<n] 0"

definition fdiv :: "(real \<Rightarrow> real) \<Rightarrow> real \<Rightarrow> real \<Rightarrow> real result" where
  "fdiv fl x y = (if y = 0 then Inl NotANumber else Inr (fl (x / y)))"

definition zipf_init :: "(real \<Rightarrow> real) \<Rightarrow> u64 \<Rightarrow> real \<Rightarrow> u64 \<Rightarrow> zipfian_random result" where
  "zipf_init fl items theta urnd_seed =
     (let zetan = zeta fl theta (unat items); one_minus = fl (1 - theta) in
      rbind (fdiv fl 1 one_minus) (\<lambda>alpha.
      rbind (fdiv fl 2 (real (unat items))) (\<lambda>two_n.
      rbind (fdiv fl (zeta fl theta 2) zetan) (\<lambda>ratio.
      rmap (\<lambda>eta. \<lparr>zr_max = items - 1, zr_theta = theta, zr_zetan = zetan, zr_alpha = alpha, zr_eta = eta, zr_seed = urnd_seed\<rparr>)
        (fdiv fl (fl (1 - fl (two_n powr one_minus))) (fl (1 - ratio)))))))"

text \<open>\<open>std::pow\<close> with a positive exponent, and the conversion to \<open>uint64_t\<close>.\<close>

definition zipf_pow :: "(real \<Rightarrow> real) \<Rightarrow> real \<Rightarrow> real \<Rightarrow> real result" where
  "zipf_pow fl x e = (if x = 0 then Inr 0 else rmap fl (pow_any x e))"

definition to_uint64 :: "real \<Rightarrow> u64 result" where
  "to_uint64 x = (if x \<le> - 1 then Inl NotANumber else Inr (of_nat (nat \<lfloor>x\<rfloor>)))"

definition zipf_base :: "(real \<Rightarrow> real) \<Rightarrow> zipfian_random \<Rightarrow> real \<Rightarrow> real" where
  "zipf_base fl z u = fl (fl (fl (zr_eta z * u) - zr_eta z) + 1)"

definition zipf_next :: "(real \<Rightarrow> real) \<Rightarrow> zipfian_random \<Rightarrow> (u64 \<times> zipfian_random) result" where
  "zipf_next fl z =
     rbind (uniform_within 0 (ucast (zr_max z)) (zr_seed z)) (\<lambda>(r, seed).
     rbind (fdiv fl (real (unat r)) (fl (real (unat (zr_max z))))) (\<lambda>u.
       let uz = fl (u * zr_zetan z); z' = z\<lparr>zr_seed := seed\<rparr> in
       if uz < 1 then Inr (0, z')
       else if uz < fl (1 + fl ((1 / 2) powr zr_theta z)) then Inr (1, z')
       else rbind (zipf_pow fl (zipf_base fl z u) (zr_alpha z)) (\<lambda>p.
         rmap (\<lambda>ret. (ret, z')) (to_uint64 (fl (fl (real (unat (zr_max z))) * p))))))"

section \<open>Rounding\<close>

text \<open>Rounding to the nearest double is monotone, keeps doubles and keeps integers up to \<open>2 ^ 53\<close>.\<close>

definition rounding_ok :: "(real \<Rightarrow> real) \<Rightarrow> bool" where
  "rounding_ok fl \<longleftrightarrow> (\<forall>x y. x \<le> y \<longrightarrow> fl x \<le> fl y) \<and> (\<forall>x. fl (fl x) = fl x) \<and> (\<forall>k\<le>2 ^ 53. fl (real k) = real k)"

lemma rounding_id: "rounding_ok (\<lambda>x. x)"
  by (simp add: rounding_ok_def)

lemma fl_mono: "rounding_ok fl \<Longrightarrow> x \<le> y \<Longrightarrow> fl x \<le> fl y"
  by (simp add: rounding_ok_def)

lemma fl_nat: "rounding_ok fl \<Longrightarrow> k \<le> 2 ^ 53 \<Longrightarrow> fl (real k) = real k"
  by (simp add: rounding_ok_def)

lemma fl_idem: "rounding_ok fl \<Longrightarrow> fl (fl x) = fl x"
  by (simp add: rounding_ok_def)

lemma fl_01: assumes "rounding_ok fl" shows "fl 0 = 0" "fl 1 = 1"
  using fl_nat [OF assms, of 0] fl_nat [OF assms, of 1] by simp_all

lemma fl_nonneg: "rounding_ok fl \<Longrightarrow> 0 \<le> x \<Longrightarrow> 0 \<le> fl x"
  using fl_mono [of fl 0 x] fl_01(1) [of fl] by simp

lemma fl_nonpos: "rounding_ok fl \<Longrightarrow> x \<le> 0 \<Longrightarrow> fl x \<le> 0"
  using fl_mono [of fl x 0] fl_01(1) [of fl] by simp

lemma fl_le_1: "rounding_ok fl \<Longrightarrow> x \<le> 1 \<Longrightarrow> fl x \<le> 1"
  using fl_mono [of fl x 1] fl_01(2) [of fl] by simp

lemmas fl_bounds = fl_nonneg fl_nonpos fl_le_1

text \<open>The sum only grows.\<close>

lemma zeta_Suc: "zeta fl theta (Suc n) = fl (zeta fl theta n + fl (1 / fl (real (n + 1) powr theta)))"
  by (simp add: zeta_def)

lemma zeta_rounded:
  assumes "rounding_ok fl"
  shows "fl (zeta fl theta n) = zeta fl theta n"
proof (cases n)
  case 0
  then show ?thesis by (simp add: zeta_def fl_01 [OF assms])
next
  case (Suc k)
  show ?thesis unfolding Suc zeta_Suc by (rule fl_idem [OF assms])
qed

lemma zeta_step:
  assumes "rounding_ok fl"
  shows "zeta fl theta n \<le> zeta fl theta (Suc n)"
proof -
  have "0 \<le> 1 / fl (real (n + 1) powr theta)" using fl_nonneg [OF assms, of "real (n + 1) powr theta"] by simp
  then have "zeta fl theta n \<le> zeta fl theta n + fl (1 / fl (real (n + 1) powr theta))"
    using fl_nonneg [OF assms] by simp
  from fl_mono [OF assms this] show ?thesis unfolding zeta_Suc zeta_rounded [OF assms] .
qed

lemma zeta_mono: "rounding_ok fl \<Longrightarrow> m \<le> n \<Longrightarrow> zeta fl theta m \<le> zeta fl theta n"
  using lift_Suc_mono_le [of "zeta fl theta" m n] zeta_step [of fl theta] by blast

lemma zeta_nonneg: "rounding_ok fl \<Longrightarrow> 0 \<le> zeta fl theta n"
  using zeta_mono [of fl 0 n theta] by (simp add: zeta_def)

section \<open>Bounds\<close>

lemma zipf_init_facts:
  assumes fl: "rounding_ok fl" and "2 < unat items" and "0 \<le> theta" and "theta < 1"
    and z: "zipf_init fl items theta seed = Inr z"
  shows "zr_max z = items - 1 \<and> zr_theta z = theta \<and> zr_zetan z = zeta fl theta (unat items) \<and>
    0 \<le> zr_eta z \<and> fl (zr_eta z) = zr_eta z \<and> 0 \<le> zr_alpha z"
proof -
  obtain n where n: "n = unat items" by blast
  let ?e = "fl (1 - theta)"
  let ?num = "fl (1 - fl (fl (2 / real n) powr ?e))" and ?r = "fl (zeta fl theta 2 / zeta fl theta n)"
  have n2: "2 < n" using assms(2) n by simp
  have z': "zr_max z = items - 1" "zr_theta z = theta" "zr_zetan z = zeta fl theta n"
      "zr_alpha z = fl (1 / ?e)" "zr_eta z = fl (?num / fl (1 - ?r))"
    using z unfolding zipf_init_def n [symmetric] by (auto simp: Let_def fdiv_def result_simps split: if_splits)
  have e: "0 \<le> ?e" using fl_nonneg [OF fl] assms(4) by simp
  have "0 \<le> fl (2 / real n)" "fl (2 / real n) \<le> 1"
    using fl_nonneg [OF fl, of "2 / real n"] fl_le_1 [OF fl, of "2 / real n"] n2 by simp_all
  then have "fl (2 / real n) powr ?e \<le> 1" using e powr_mono2 [of ?e "fl (2 / real n)" 1] by simp
  then have num: "0 \<le> ?num" using fl_nonneg [OF fl, of "1 - fl (fl (2 / real n) powr ?e)"] fl_le_1 [OF fl] by simp
  have "zeta fl theta 2 \<le> zeta fl theta n" using zeta_mono [OF fl] n2 by simp
  then have "zeta fl theta 2 / zeta fl theta n \<le> 1" using zeta_nonneg [OF fl, of theta n] zeta_nonneg [OF fl, of theta 2]
    by (cases "zeta fl theta n = 0") (simp_all add: divide_le_eq_1)
  then have "0 \<le> fl (1 - ?r)" using fl_nonneg [OF fl, of "1 - ?r"] fl_le_1 [OF fl] by simp
  then have eta: "0 \<le> zr_eta z" unfolding z' using num fl_nonneg [OF fl, of "?num / fl (1 - ?r)"] by simp
  have alpha: "0 \<le> zr_alpha z" unfolding z' using e fl_nonneg [OF fl, of "1 / ?e"] by simp
  have idem: "fl (zr_eta z) = zr_eta z" unfolding z' by (rule fl_idem [OF fl])
  show ?thesis using z'(1-3) eta alpha idem unfolding n by blast
qed

lemma zipf_base_le:
  assumes fl: "rounding_ok fl" and "0 \<le> zr_eta z" and "fl (zr_eta z) = zr_eta z" and "u \<le> 1"
  shows "zipf_base fl z u \<le> 1"
proof -
  have "zr_eta z * u \<le> zr_eta z * 1" using assms(2,4) by (intro mult_left_mono)
  then have "zr_eta z * u \<le> zr_eta z" by simp
  then have "fl (zr_eta z * u) \<le> zr_eta z" using fl_mono [OF fl, of "zr_eta z * u" "zr_eta z"] assms(3) by simp
  then have "fl (fl (zr_eta z * u) - zr_eta z) \<le> 0" using fl_nonpos [OF fl] by simp
  then show ?thesis using fl_le_1 [OF fl] by (simp add: zipf_base_def)
qed

lemma zipf_pow_range:
  assumes fl: "rounding_ok fl" and "0 \<le> x" and "x \<le> 1" and "0 \<le> e"
  shows "\<exists>p. zipf_pow fl x e = Inr p \<and> 0 \<le> p \<and> p \<le> 1"
proof (cases "x = 0")
  case False
  then have "x powr e \<le> 1" using assms powr_mono2 [of e x 1] by simp
  then show ?thesis using False assms(2) fl_nonneg [OF fl, of "x powr e"] fl_le_1 [OF fl] by (simp add: zipf_pow_def pow_any_def)
qed (simp add: zipf_pow_def)

lemma to_uint64_le:
  assumes fl: "rounding_ok fl" and "M < 2 ^ 32" and "0 \<le> p" and "p \<le> 1"
  shows "\<exists>v. to_uint64 (fl (real M * p)) = Inr v \<and> unat v \<le> M"
proof -
  let ?x = "fl (real M * p)"
  have x: "0 \<le> ?x" using fl_nonneg [OF fl] assms(3) by simp
  have "real M * p \<le> real M" using assms(3,4) mult_left_mono [of p 1 "real M"] by simp
  then have "?x \<le> real M" using fl_mono [OF fl, of "real M * p" "real M"] fl_nat [OF fl, of M] assms(2) by simp
  then have le: "nat \<lfloor>?x\<rfloor> \<le> M" by linarith
  then have "nat \<lfloor>?x\<rfloor> < 2 ^ 64" using assms(2) by simp
  then have "unat (of_nat (nat \<lfloor>?x\<rfloor>) :: u64) = nat \<lfloor>?x\<rfloor>" by (simp add: unat_of_nat_small)
  with le x show ?thesis by (simp add: to_uint64_def)
qed

text \<open>Exact arithmetic: the constants exist, and the base of the power is positive where it is computed.\<close>

lemma zeta_exact: "zeta (\<lambda>x. x) theta 2 = 1 + (1 / 2) powr theta" "2 < n \<Longrightarrow> zeta (\<lambda>x. x) theta 2 < zeta (\<lambda>x. x) theta n"
proof -
  have "zeta (\<lambda>x. x) theta 3 = zeta (\<lambda>x. x) theta 2 + 1 / 3 powr theta"
    using zeta_Suc [of "\<lambda>x. x" theta 2] by (simp add: numeral_3_eq_3 numeral_2_eq_2)
  then have "zeta (\<lambda>x. x) theta 2 < zeta (\<lambda>x. x) theta 3" by simp
  then show "zeta (\<lambda>x. x) theta 2 < zeta (\<lambda>x. x) theta n" if "2 < n"
    using zeta_mono [OF rounding_id, of 3 n theta] that by simp
  show "zeta (\<lambda>x. x) theta 2 = 1 + (1 / 2) powr theta"
    by (simp add: zeta_def numeral_2_eq_2 powr_divide)
qed

lemma zipf_init_exact:
  assumes "2 < unat items" and "0 \<le> theta" and "theta < 1"
  shows "\<exists>z. zipf_init (\<lambda>x. x) items theta seed = Inr z \<and>
    zr_eta z * (1 - zeta (\<lambda>x. x) theta 2 / zr_zetan z) < 1"
proof -
  obtain n where n: "n = unat items" by blast
  have n2: "2 < n" using assms(1) n by simp
  let ?Z = "zeta (\<lambda>x. x) theta"
  have lt: "?Z 2 < ?Z n" by (rule zeta_exact(2) [OF n2])
  have pos: "0 < ?Z n" using lt zeta_nonneg [OF rounding_id, of theta 2] by simp
  then have "?Z 2 / ?Z n \<noteq> 1" using lt by simp
  moreover have "1 - (2 / real n) powr (1 - theta) < 1" using n2 by simp
  ultimately show ?thesis
    using pos n2 assms(3) unfolding zipf_init_def n [symmetric] by (simp add: Let_def fdiv_def)
qed

lemma exact_base_pos:
  assumes "0 \<le> zr_eta z" and "zr_eta z * (1 - r) < 1" and "r \<le> u"
  shows "0 < zipf_base (\<lambda>x. x) z u"
proof -
  have "zr_eta z * (1 - u) \<le> zr_eta z * (1 - r)" using assms(1,3) by (intro mult_left_mono) simp_all
  then show ?thesis using assms(2) by (simp add: zipf_base_def algebra_simps)
qed

lemma zipf_next_exact:
  assumes "2 < unat items" and "unat items < 2 ^ 32" and "0 \<le> theta" and "theta < 1"
    and z: "zipf_init (\<lambda>x. x) items theta seed = Inr z"
    and r: "zr_eta z * (1 - zeta (\<lambda>x. x) theta 2 / zr_zetan z) < 1"
  shows "\<exists>v s. zipf_next (\<lambda>x. x) (z\<lparr>zr_seed := seed'\<rparr>) = Inr (v, z\<lparr>zr_seed := s\<rparr>) \<and> unat v < unat items"
proof -
  obtain M where M: "M = unat (zr_max z)" by blast
  note f = zipf_init_facts [OF rounding_id assms(1,3,4) z]
  have "items \<noteq> 0" using assms(1) by auto
  then have Mn: "unat items = Suc M" using assms(1) f M unat_minus_one [of items] by simp
  have M2: "0 < M" "Suc M < 2 ^ 32" using assms(1,2) Mn by simp_all
  let ?h = "ucast (zr_max z) :: u32"
  have h: "unat ?h = M" using M2 by (simp add: M unsigned_ucast_eq take_bit_nat_eq_self_iff)
  have "unat (?h + 1) = Suc M" using unat_add_small [of ?h 1] h M2 by simp
  then have "?h - 0 + 1 \<noteq> 0" by auto
  then obtain x s where draw: "uniform_within 0 ?h seed' = Inr (x, s)" "x \<le> ?h"
    using uniform_within_ok [of ?h 0 seed'] uniform_within_bounds [of 0 ?h seed'] by fastforce
  obtain k where k: "k = unat x" "k \<le> M" using draw(2) h by (simp add: word_le_nat_alt)
  let ?u = "real k / real M" and ?Z2 = "zeta (\<lambda>x. x) theta 2"
  let ?ret = "\<exists>v s'. rbind (zipf_pow (\<lambda>x. x) (zipf_base (\<lambda>x. x) z ?u) (zr_alpha z)) (\<lambda>p.
      rmap (\<lambda>ret. (ret, z\<lparr>zr_seed := s\<rparr>)) (to_uint64 (real M * p))) = Inr (v, z\<lparr>zr_seed := s'\<rparr>) \<and> unat v < Suc M"
  have u: "?u \<le> 1" using k(2) M2 by simp
  have zpos: "0 < zr_zetan z"
    using f zeta_exact(2) [OF assms(1), of theta] zeta_nonneg [OF rounding_id, of theta 2] by simp
  have last: ?ret if "\<not> ?u * zr_zetan z < 1 + (1 / 2) powr theta"
  proof -
    have "?Z2 \<le> ?u * zr_zetan z" using that by (simp add: zeta_exact(1))
    then have "?Z2 / zr_zetan z \<le> ?u" using zpos by (simp add: divide_le_eq)
    then have "0 < zipf_base (\<lambda>x. x) z ?u" using exact_base_pos [OF _ r] f by simp
    then obtain p where "zipf_pow (\<lambda>x. x) (zipf_base (\<lambda>x. x) z ?u) (zr_alpha z) = Inr p" "0 \<le> p" "p \<le> 1"
      using zipf_pow_range [OF rounding_id, of "zipf_base (\<lambda>x. x) z ?u" "zr_alpha z"] zipf_base_le [OF rounding_id, of z ?u] f u
      by auto
    then show ?thesis using to_uint64_le [OF rounding_id, of M p] M2 by (auto simp: less_Suc_eq_le)
  qed
  have one: "unat (1 :: u64) < Suc M" using M2 by simp
  have base: "zipf_base (\<lambda>x. x) (z\<lparr>zr_seed := seed'\<rparr>) ?u = zipf_base (\<lambda>x. x) z ?u" by (simp add: zipf_base_def)
  have th: "zr_theta z = theta" using f by blast
  have "zipf_next (\<lambda>x. x) (z\<lparr>zr_seed := seed'\<rparr>) =
      (if ?u * zr_zetan z < 1 then Inr (0, z\<lparr>zr_seed := s\<rparr>)
       else if ?u * zr_zetan z < 1 + (1 / 2) powr theta then Inr (1, z\<lparr>zr_seed := s\<rparr>)
       else rbind (zipf_pow (\<lambda>x. x) (zipf_base (\<lambda>x. x) z ?u) (zr_alpha z)) (\<lambda>p.
         rmap (\<lambda>ret. (ret, z\<lparr>zr_seed := s\<rparr>)) (to_uint64 (real M * p))))"
    unfolding zipf_next_def fdiv_def Let_def using M2 draw(1)
    by (simp add: k(1) [symmetric] M [symmetric] base th del: of_nat_unat)
  then show ?thesis using last one unfolding Mn by auto
qed

section \<open>Properties\<close>

text \<open>
  C31. The zipfian generator, with exact arithmetic: for more than two and fewer than \<open>2 ^ 32\<close> items and a
  skew of at least 0 and below 1 (0 is the uniform distribution) its constants exist, and from every
  seed the next number exists, is the number of an item, and changes the generator only in its seed.
  In particular the power is never taken of a negative number.
\<close>

theorem zipfian_in_range:
  assumes "2 < unat items" and "unat items < 2 ^ 32" and "0 \<le> theta" and "theta < 1"
  shows "\<exists>z. zipf_init (\<lambda>x. x) items theta seed = Inr z \<and>
    (\<forall>seed'. \<exists>v s. zipf_next (\<lambda>x. x) (z\<lparr>zr_seed := seed'\<rparr>) = Inr (v, z\<lparr>zr_seed := s\<rparr>) \<and> unat v < unat items)"
  using zipf_init_exact [OF assms(1,3,4), of seed] zipf_next_exact [OF assms] by blast

theorem zipfian_in_range_witness:
  "\<exists>z v z'. zipf_init (\<lambda>x. x) 10000000 (9 / 10) 1238 = Inr z \<and> zipf_next (\<lambda>x. x) z = Inr (v, z') \<and> unat v < 10000000"
proof -
  obtain z where z: "zipf_init (\<lambda>x. x) 10000000 (9 / 10) 1238 = Inr z"
    "\<forall>seed'. \<exists>v s. zipf_next (\<lambda>x. x) (z\<lparr>zr_seed := seed'\<rparr>) = Inr (v, z\<lparr>zr_seed := s\<rparr>) \<and> unat v < 10000000"
    using zipfian_in_range [of 10000000 "9 / 10" 1238] by auto
  from z(2) [rule_format, of "zr_seed z"] z(1) show ?thesis by auto
qed

end
