(* ===== verification/Lcg_Period.thy ===== *)
theory Lcg_Period
  imports Ycsb_Log
begin

text \<open>
  The period of \<open>UniformRandom\<close> (\<^verbatim>\<open>ycsb/gen-log/uniform_random.h\<close>).  Its seed is multiplied by a number
  of the form \<open>4 * k + 1\<close> and an even number is added, so the last bit of the seed never changes.
  From an even seed, such as the one of the log generator, the other 63 bits run through all their values.
\<close>

section \<open>Geometric sums and powers of two\<close>

definition geo :: "nat \<Rightarrow> nat \<Rightarrow> nat" where
  "geo a n = (\<Sum>i<n. a ^ i)"

lemma geo_simps [simp]: "geo a 0 = 0" "geo a (Suc n) = geo a n + a ^ n"
  by (simp_all add: geo_def)

lemma geo_power: "1 \<le> a \<Longrightarrow> a ^ n = geo a n * (a - 1) + 1"
proof (induction n)
  case (Suc n)
  have "a ^ Suc n = a ^ n + a ^ n * (a - 1)" using Suc.prems by (simp add: algebra_simps flip: mult_eq_if)
  with Suc show ?case by (simp add: algebra_simps)
qed simp

lemma geo_double: "geo a (2 * k) = geo a k * (1 + a ^ k)"
proof -
  have "geo a (m + n) = geo a m + a ^ m * geo a n" for m n
    by (induction n) (simp_all add: algebra_simps power_add)
  from this [of k k] show ?thesis unfolding mult_2 by (simp add: algebra_simps)
qed

lemma geo_odd: "odd a \<Longrightarrow> odd (geo a n) \<longleftrightarrow> odd n"
  by (induction n) auto

lemma power_1_mod_4: "a mod 4 = 1 \<Longrightarrow> a ^ k mod 4 = (1 :: nat)"
  by (induction k) (simp_all add: mod_mult_right_eq [of a "_ ^ _", symmetric])

lemma mod_4_odd: "a mod 4 = (1 :: nat) \<Longrightarrow> odd a"
  by presburger

lemma mod_4_half: "x mod 4 = (2 :: nat) \<Longrightarrow> \<exists>q. x = 2 * q \<and> odd q"
  by presburger

text \<open>A sum of \<open>n\<close> powers is divisible by exactly the powers of two that divide \<open>n\<close>.\<close>

lemma geo_dvd:
  assumes "a mod 4 = 1"
  shows "2 ^ m dvd geo a n \<longleftrightarrow> 2 ^ m dvd n"
proof (induction m arbitrary: n)
  case 0
  show ?case by simp
next
  case (Suc m)
  show ?case
  proof (cases "odd n")
    case True
    moreover have "\<not> 2 ^ Suc m dvd x" if "odd x" for x :: nat
      using that dvd_trans [of 2 "2 ^ Suc m" x] by auto
    ultimately show ?thesis using geo_odd [OF mod_4_odd [OF assms]] by blast
  next
    case False
    then obtain k where k: "n = 2 * k" by blast
    have "(1 + a ^ k) mod 4 = 2" using power_1_mod_4 [OF assms, of k] by presburger
    then obtain q where q: "1 + a ^ k = 2 * q" "odd q" using mod_4_half by blast
    have "2 ^ Suc m dvd geo a n \<longleftrightarrow> 2 ^ m dvd geo a k * q" unfolding k geo_double q(1) by (simp add: mult.left_commute)
    also have "\<dots> \<longleftrightarrow> 2 ^ m dvd geo a k" using q(2) by (simp add: coprime_dvd_mult_left_iff)
    also have "\<dots> \<longleftrightarrow> 2 ^ Suc m dvd n" using Suc.IH by (simp add: k)
    finally show ?thesis .
  qed
qed

section \<open>The seeds\<close>

definition lcg :: "u64 \<Rightarrow> u64" where
  "lcg seed = seed * 0xD04C3175 + 0x53DA9022"

lemma next_uint32_lcg: "next_uint32 seed = (ucast (drop_bit 32 (lcg seed) XOR (lcg seed AND 0xFFFFFFFF)), lcg seed)"
  by (simp add: next_uint32_def lcg_def Let_def)

lemma lcg_iter: "(lcg ^^ n) s = of_nat (unat s * 0xD04C3175 ^ n + 0x53DA9022 * geo 0xD04C3175 n)"
proof (induction n)
  case 0
  show ?case by simp
next
  case (Suc n)
  have g: "geo 0xD04C3175 (Suc n) = geo 0xD04C3175 n * 0xD04C3175 + 1"
    using geo_power [of "0xD04C3175" n] by simp
  have "(lcg ^^ Suc n) s = lcg (of_nat (unat s * 0xD04C3175 ^ n + 0x53DA9022 * geo 0xD04C3175 n))" by (simp add: Suc.IH)
  also have "\<dots> = of_nat (unat s * 0xD04C3175 ^ Suc n + 0x53DA9022 * geo 0xD04C3175 (Suc n))"
    unfolding g by (simp add: lcg_def algebra_simps)
  finally show ?case .
qed

text \<open>An even seed comes back after a multiple of \<open>2 ^ 63\<close> steps only.\<close>

lemma lcg_returns:
  assumes "even (unat s)" and "(lcg ^^ n) s = s"
  shows "2 ^ 63 dvd n"
proof -
  let ?a = "0xD04C3175 :: nat" and ?c = "0x53DA9022 :: nat"
  have p: "?a ^ n = geo ?a n * (?a - 1) + 1" by (rule geo_power) simp
  have eq: "unat s * ?a ^ n + ?c * geo ?a n = geo ?a n * (unat s * (?a - 1) + ?c) + unat s"
    unfolding p by (simp add: algebra_simps)
  have "(of_nat (geo ?a n * (unat s * (?a - 1) + ?c)) :: u64) = 0"
    using assms(2) unfolding lcg_iter eq by simp
  then have "2 ^ 64 dvd geo ?a n * (unat s * (?a - 1) + ?c)"
    by (simp add: word_of_nat_eq_0_iff del: of_nat_mult of_nat_add)
  moreover obtain k where k: "unat s = 2 * k" using assms(1) by blast
  have half: "unat s * (?a - 1) + ?c = 2 * (k * (?a - 1) + 0x29ED4811)" by (simp add: k)
  ultimately have "2 * 2 ^ 63 dvd 2 * (geo ?a n * (k * (?a - 1) + 0x29ED4811))"
    unfolding half by (simp only: mult.left_commute power_Suc [symmetric]) simp
  then have "2 ^ 63 dvd geo ?a n * (k * (?a - 1) + 0x29ED4811)" by (subst (asm) dvd_times_left_cancel_iff) simp_all
  moreover have "coprime (2 ^ 63) (k * (?a - 1) + 0x29ED4811)" by (simp only: coprime_power_left_iff coprime_left_2_iff_odd) simp
  ultimately have "2 ^ 63 dvd geo ?a n" by (simp only: coprime_dvd_mult_left_iff)
  then show ?thesis by (subst (asm) geo_dvd) simp_all
qed

lemma lcg_even: "even (unat s) \<Longrightarrow> even (unat (lcg s))"
  by (simp add: lcg_def unat_word_ariths mod_mod_cancel dvd_mod_iff)

lemma lcg_iter_even: "even (unat s) \<Longrightarrow> even (unat ((lcg ^^ n) s))"
  by (induction n) (simp_all add: lcg_even)

lemma card_even_words: "card {w :: u64. even (unat w)} = 2 ^ 63"
proof -
  have "{w :: u64. even (unat w)} = (\<lambda>k. of_nat (2 * k)) ` {..<2 ^ 63 :: nat}"
  proof (intro set_eqI iffI)
    fix w :: u64 assume "w \<in> {w. even (unat w)}"
    then obtain k where k: "unat w = 2 * k" by blast
    moreover have "k < 2 ^ 63" using unat_lt_2p [of w] k by simp
    moreover have "w = of_nat (unat w)" by simp
    ultimately show "w \<in> (\<lambda>k. of_nat (2 * k)) ` {..<2 ^ 63 :: nat}" by (intro image_eqI [of _ _ k]) simp_all
  next
    fix w :: u64 assume "w \<in> (\<lambda>k. of_nat (2 * k)) ` {..<2 ^ 63 :: nat}"
    then obtain k where "w = of_nat (2 * k)" "2 * k < 2 ^ 64" by auto
    then show "w \<in> {w. even (unat w)}" by (simp add: unat_of_nat_small del: of_nat_mult)
  qed
  moreover have "inj_on (\<lambda>k. of_nat (2 * k) :: u64) {..<2 ^ 63 :: nat}"
  proof (rule inj_onI)
    fix x y :: nat assume "x \<in> {..<2 ^ 63}" "y \<in> {..<2 ^ 63}" "(of_nat (2 * x) :: u64) = of_nat (2 * y)"
    then have "2 * x < 2 ^ 64" "2 * y < 2 ^ 64" "unat (of_nat (2 * x) :: u64) = unat (of_nat (2 * y) :: u64)" by simp_all
    then show "x = y" by (simp add: unat_of_nat_small del: of_nat_mult)
  qed
  ultimately show ?thesis by (simp add: card_image)
qed

text \<open>Full period: from an even seed every even seed is reached.\<close>

lemma lcg_reaches:
  assumes "even (unat s)" and "even (unat t)"
  shows "\<exists>n. (lcg ^^ n) s = t"
proof -
  let ?E = "{w :: u64. even (unat w)}" and ?f = "\<lambda>n. (lcg ^^ n) s"
  have "?f i \<noteq> ?f j" if "i < j" "j < 2 ^ 63" for i j
  proof
    assume "?f i = ?f j"
    moreover have "(lcg ^^ (j - i)) (?f i) = (lcg ^^ (j - i + i)) s" by (simp add: funpow_add)
    ultimately have "(lcg ^^ (j - i)) (?f i) = ?f i" using that(1) by simp
    then have "2 ^ 63 dvd j - i" using lcg_returns lcg_iter_even [OF assms(1)] by blast
    then show False using that by (auto dest: dvd_imp_le)
  qed
  then have "inj_on ?f {..<2 ^ 63}" by (intro inj_onI) (metis lessThan_iff linorder_neqE_nat)
  then have "card (?f ` {..<2 ^ 63}) = card ?E" by (simp add: card_image card_even_words)
  moreover have "?f ` {..<2 ^ 63} \<subseteq> ?E" using lcg_iter_even [OF assms(1)] by blast
  moreover have "finite ?E" by simp
  ultimately have img: "?f ` {..<2 ^ 63} = ?E" by (intro card_subset_eq)
  have "t \<in> ?E" using assms(2) by simp
  then have "t \<in> ?f ` {..<2 ^ 63}" unfolding img .
  then show ?thesis by auto
qed

text \<open>Every 32-bit number is drawn.\<close>

lemma next_uint32_hits:
  assumes "even (unat s)"
  shows "\<exists>n. fst (next_uint32 ((lcg ^^ n) s)) = v"
proof -
  let ?t = "push_bit 32 (ucast v) :: u64"
  have "unat ?t = unat v * 2 ^ 32"
    using unat_lt_2p [of v] by (simp add: push_bit_eq_mult unat_word_ariths)
  then have "even (unat ?t)" by simp
  then obtain n where n: "(lcg ^^ n) (lcg s) = ?t" using lcg_reaches [OF lcg_even [OF assms]] by blast
  then have t: "lcg ((lcg ^^ n) s) = ?t" by (simp add: funpow_swap1)
  have "ucast (drop_bit 32 ?t XOR (?t AND 0xFFFFFFFF)) = v"
    by (rule bit_word_eqI) (auto simp: bit_simps)
  then show ?thesis by (intro exI [of _ n]) (simp add: next_uint32_lcg t)
qed

end
