(* ===== verification/Ycsb_Gen.thy ===== *)
theory Ycsb_Gen
  imports Zipfian Lcg_Period
begin

text \<open>
  The log generator as a program: \<open>main\<close> of \<^verbatim>\<open>ycsb/gen-log/generate_ycsb_zipf.cc\<close> with its arguments, the
  zipfian generator seeded with 1238 and the loop over the transactions.  The loop draws until each key is
  acceptable; the model gives it a number of draws and answers \<open>None\<close> when they do not suffice.
  With exact arithmetic some number always suffices: the seeds run through a full period, so that every
  stretch of twenty-one row numbers is hit again and again, and acceptable keys are among them.
\<close>

section \<open>The program\<close>

fun zipf_draws :: "(real \<Rightarrow> real) \<Rightarrow> zipfian_random \<Rightarrow> nat \<Rightarrow> u64 list result" where
  "zipf_draws fl z 0 = Inr []"
| "zipf_draws fl z (Suc n) = rbind (zipf_next fl z) (\<lambda>(v, z'). rmap (Cons v) (zipf_draws fl z' n))"

text \<open>\<open>snprintf\<close> into fifty bytes cuts the name after forty-nine characters.\<close>

definition log_name :: "string list \<Rightarrow> string" where
  "log_name argv = take 49 (''ycsb_'' @ argv ! 2 @ ''_'' @ argv ! 4 @ ''.txt'')"

definition zipf_s :: "(real \<Rightarrow> real) \<Rightarrow> string list \<Rightarrow> real" where
  "zipf_s fl argv = (if argv ! 2 = ''zipfian'' then fl (9 / 10) else 0)"

definition contended :: "string list \<Rightarrow> bool" where
  "contended argv = (argv ! 4 = ''cont'')"

text \<open>\<open>perms i\<close> is the result of the shuffle in transaction \<open>i\<close>, \<open>draws\<close> the number of draws allowed.\<close>

definition generate_main ::
  "(real \<Rightarrow> real) \<Rightarrow> string list \<Rightarrow> (nat \<Rightarrow> u8 list) \<Rightarrow> nat \<Rightarrow> (string \<times> mem option) result" where
  "generate_main fl argv perms draws =
     (if length argv \<noteq> 5 \<or> argv ! 1 \<noteq> ''-d'' \<or> argv ! 3 \<noteq> ''-c'' then Inl BadArgument
      else rbind (zipf_init fl (of_nat ROW_COUNT) (zipf_s fl argv) 1238) (\<lambda>rand.
        rmap (\<lambda>rs. (log_name argv, gen_log (contended argv) (map perms [0..<TX_COUNT]) rs))
          (zipf_draws fl rand draws)))"

section \<open>Rejection with enough draws\<close>

lemma gen_key_append: "gen_key c keys xs = Some (k, r) \<Longrightarrow> gen_key c keys (xs @ ys) = Some (k, r @ ys)"
  by (induction c keys xs rule: gen_key.induct) (auto split: if_splits)

lemma gen_keys_from_append:
  "gen_keys_from c n keys xs = Some (ks, r) \<Longrightarrow> gen_keys_from c n keys (xs @ ys) = Some (ks, r @ ys)"
proof (induction c n keys xs arbitrary: r rule: gen_keys_from.induct)
  case (2 c n keys xs)
  then obtain k r1 where k: "gen_key c keys xs = Some (k, r1)" "gen_keys_from c n (keys @ [k]) r1 = Some (ks, r)"
    by (auto split: option.splits)
  with "2.IH" [OF k(1) refl k(2)] show ?case by (simp add: gen_key_append)
qed simp

lemma gen_txns_append:
  "gen_txns c ds xs = Some (bs, r) \<Longrightarrow> gen_txns c ds (xs @ ys) = Some (bs, r @ ys)"
proof (induction c ds xs arbitrary: bs r rule: gen_txns.induct)
  case (2 c d ds xs)
  then obtain b r1 b1 where b: "gen_bin_txn c d xs = Some (b, r1)" "gen_txns c ds r1 = Some (b1, r)" "bs = b @ b1"
    by (auto split: option.splits prod.splits)
  then have "gen_bin_txn c d (xs @ ys) = Some (b, r1 @ ys)"
    by (auto simp: gen_bin_txn_def gen_keys_def gen_keys_from_append split: option.splits prod.splits)
  with b "2.IH" [OF b(1) refl b(2)] show ?case by simp
qed simp

lemma gen_log_append: "gen_log c ds xs = Some m \<Longrightarrow> gen_log c ds (xs @ ys) = Some m"
  by (auto simp: gen_log_def gen_txns_append split: option.splits)

lemma gen_key_exact:
  "r \<in> set rs \<Longrightarrow> accept_key c keys r \<Longrightarrow> \<exists>i<length rs. \<exists>k. gen_key c keys (take (Suc i) rs) = Some (k, [])"
proof (induction c keys rs rule: gen_key.induct)
  case (2 c keys x rs)
  show ?case
  proof (cases "accept_key c keys x")
    case True
    then show ?thesis by (intro exI [of _ 0]) simp
  next
    case False
    with 2 obtain i k where "i < length rs" "gen_key c keys (take (Suc i) rs) = Some (k, [])" by auto
    with False show ?thesis by (intro exI [of _ "Suc i"]) simp
  qed
qed simp

section \<open>Acceptable keys are in every stretch\<close>

text \<open>Numbers of the window that starts at \<open>t\<close>.\<close>

definition window :: "nat \<Rightarrow> u64 \<Rightarrow> bool" where
  "window t v \<longleftrightarrow> t \<le> unat v \<and> unat v \<le> t + 20"

lemma unat_ucast_down: "unat (v :: u64) < 2 ^ 32 \<Longrightarrow> unat (ucast v :: u32) = unat v"
  by (simp add: unsigned_ucast_eq take_bit_nat_eq_self_iff)

lemma cut_key_late:
  "NrContKey c \<le> i \<Longrightarrow> unat r < ROW_COUNT \<Longrightarrow> cut_key c i r = ucast r"
  by (simp add: cut_key_def ROW_COUNT_def mod_word_less word_less_nat_alt)

lemma cut_key_early:
  assumes "i < NrContKey c" and "window (j * 2 ^ 17) r" and "j < 70"
  shows "cut_key c i r = of_nat (j * 2 ^ 17)"
proof -
  have r: "unat r div 2 ^ 17 = j" "unat r < ROW_COUNT" "unat r < 2 ^ 32" using assms(2,3) by (auto simp: window_def ROW_COUNT_def)
  have k: "(ucast (r mod of_nat ROW_COUNT) :: u32) = ucast r"
    using r(2) by (simp add: ROW_COUNT_def mod_word_less word_less_nat_alt)
  have u: "(ucast (ucast r :: u32) :: u64) = r" using unat_ucast_down [OF r(3)] by (simp add: word_unat_eq_iff)
  have "r AND NOT key_mask = push_bit 17 (drop_bit 17 r)"
    by (rule bit_word_eqI) (auto simp: key_mask_mask bit_simps)
  also have "\<dots> = of_nat (j * 2 ^ 17)"
  proof -
    have "unat (drop_bit 17 r) = j" using r(1) by (simp add: drop_bit_eq_div unat_div_distrib)
    then have "drop_bit 17 r = of_nat j" by (metis word_nat_roundtrip)
    then show ?thesis by (simp add: push_bit_eq_mult)
  qed
  finally have "cut_key c i r = (ucast (of_nat (j * 2 ^ 17) :: u64) :: u32)"
    using assms(1) k u by (simp add: cut_key_def)
  moreover have "unat (of_nat (j * 2 ^ 17) :: u64) = j * 2 ^ 17" "unat (of_nat (j * 2 ^ 17) :: u32) = j * 2 ^ 17"
    using assms(3) by (intro unat_of_nat_small; simp)+
  ultimately show ?thesis using assms(3) unat_ucast_down [of "of_nat (j * 2 ^ 17)"]
    by (simp add: word_unat_eq_iff del: of_nat_mult)
qed

lemma window_apart: "window (d * i) v \<Longrightarrow> window (d * j) v \<Longrightarrow> 20 < d \<Longrightarrow> i = j"
proof -
  assume w: "window (d * i) v" "window (d * j) v" and d: "20 < d"
  have "unat v div d = i" "unat v div d = j"
    using w d by (auto simp: window_def intro!: div_nat_eqI)
  then show "i = j" by simp
qed

text \<open>Ten candidates for at most nine keys already chosen: one of them is new.\<close>

lemma fresh_of_ten:
  assumes "inj_on f {..<10 :: nat}" and "length keys < 10"
  shows "\<exists>j<10. f j \<notin> set keys"
proof (rule ccontr)
  assume "\<not> (\<exists>j<10. f j \<notin> set keys)"
  then have "f ` {..<10} \<subseteq> set keys" by auto
  then have "card (f ` {..<10}) \<le> card (set keys)" by (intro card_mono) simp_all
  then show False using assms card_length [of keys] by (simp add: card_image)
qed

lemma acceptable_window:
  assumes "length keys < 10"
  shows "\<exists>t. 22 \<le> t \<and> t + 20 < ROW_COUNT \<and> (\<forall>r. window t r \<longrightarrow> accept_key c keys r)"
proof (cases "length keys < NrContKey c")
  case True
  let ?f = "\<lambda>j. of_nat (Suc j * 2 ^ 17) :: u32"
  have small: "Suc j * 2 ^ 17 < 2 ^ 32" if "j < 10" for j :: nat using that by simp
  have "inj_on ?f {..<10}"
  proof (rule inj_onI)
    fix x y :: nat assume "x \<in> {..<10}" "y \<in> {..<10}" "?f x = ?f y"
    then have "unat (?f x) = unat (?f y)" "x < 10" "y < 10" by simp_all
    then have "Suc x * 2 ^ 17 = Suc y * 2 ^ 17"
      using small unat_of_nat_small [where 'a = 32, of "Suc x * 2 ^ 17"] unat_of_nat_small [where 'a = 32, of "Suc y * 2 ^ 17"]
      by simp
    then show "x = y" by simp
  qed
  then obtain j where j: "j < 10" "?f j \<notin> set keys" using fresh_of_ten assms by blast
  have "accept_key c keys r" if "window (Suc j * 2 ^ 17) r" for r
    using True j cut_key_early [OF True that] by (simp add: accept_key_def)
  then show ?thesis using j(1) by (intro exI [of _ "Suc j * 2 ^ 17"]) (simp add: ROW_COUNT_def)
next
  case False
  let ?P = "\<lambda>j k. window (1000 * Suc j) (ucast k)"
  have "\<exists>j<10. \<forall>k\<in>set keys. \<not> ?P j k"
  proof (rule ccontr)
    assume "\<not> (\<exists>j<10. \<forall>k\<in>set keys. \<not> ?P j k)"
    then have "\<forall>j. \<exists>k. j < 10 \<longrightarrow> k \<in> set keys \<and> ?P j k" by blast
    then obtain f where f: "\<And>j. j < 10 \<Longrightarrow> f j \<in> set keys \<and> ?P j (f j)" by metis
    have "inj_on f {..<10}"
    proof (rule inj_onI)
      fix x y assume "x \<in> {..<10 :: nat}" "y \<in> {..<10 :: nat}" "f x = f y"
      then have "?P x (f x)" "?P y (f x)" using f [of x] f [of y] by simp_all
      then have "Suc x = Suc y" by (rule window_apart) simp
      then show "x = y" by simp
    qed
    then show False using fresh_of_ten assms f by blast
  qed
  then obtain j where j: "j < 10" "\<forall>k\<in>set keys. \<not> ?P j k" by blast
  have "accept_key c keys r" if w: "window (1000 * Suc j) r" for r
  proof -
    have r: "unat r < 2 ^ 17" "0 < unat r" "unat r < 2 ^ 32" "unat r < ROW_COUNT"
      using w j(1) by (auto simp: window_def ROW_COUNT_def)
    have cut: "cut_key c (length keys) r = ucast r" using cut_key_late r(4) False by simp
    have u: "(ucast (ucast r :: u32) :: u64) = r" using unat_ucast_down [OF r(3)] by (simp add: word_unat_eq_iff)
    have "unat (take_bit 17 r) = unat r" using r(1) by (simp add: unsigned_take_bit_eq take_bit_nat_eq_self)
    then have "r AND key_mask \<noteq> 0" using r(2) by (auto simp: key_mask_mask take_bit_eq_mask)
    moreover have "ucast r \<notin> set keys" using j(2) w u by metis
    ultimately show ?thesis by (simp add: accept_key_def cut u)
  qed
  then show ?thesis using j(1) by (intro exI [of _ "1000 * Suc j"]) (simp add: ROW_COUNT_def)
qed

section \<open>A source of draws\<close>

definition drawn :: "('s \<Rightarrow> u64) \<Rightarrow> ('s \<Rightarrow> 's) \<Rightarrow> 's \<Rightarrow> nat \<Rightarrow> u64 list" where
  "drawn draw step s m = map (\<lambda>i. draw ((step ^^ i) s)) [0..<m]"

lemma drawn_add: "drawn draw step s (m + k) = drawn draw step s m @ drawn draw step ((step ^^ m) s) k"
proof -
  have "(step ^^ (m + i)) s = (step ^^ i) ((step ^^ m) s)" for i
    using funpow_add [of i m step] by (simp add: add.commute)
  then show ?thesis by (simp add: drawn_def map_upt_add)
qed

lemma drawn_take: "i \<le> m \<Longrightarrow> take i (drawn draw step s m) = drawn draw step s i"
  by (simp add: drawn_def take_map)

text \<open>The contract: from every admissible state every window is hit after some steps.\<close>

locale draw_source =
  fixes draw :: "'s \<Rightarrow> u64" and step :: "'s \<Rightarrow> 's" and ok :: "'s \<Rightarrow> bool"
  assumes ok_step: "ok s \<Longrightarrow> ok (step s)"
    and hits: "ok s \<Longrightarrow> 22 \<le> t \<Longrightarrow> t + 20 < ROW_COUNT \<Longrightarrow> \<exists>i. window t (draw ((step ^^ i) s))"
begin

lemma ok_steps: "ok s \<Longrightarrow> ok ((step ^^ n) s)"
  by (induction n) (simp_all add: ok_step)

lemma gen_key_enough:
  assumes "ok s" and "length keys < 10"
  shows "\<exists>m k. gen_key c keys (drawn draw step s m) = Some (k, [])"
proof -
  obtain t where t: "22 \<le> t" "t + 20 < ROW_COUNT" "\<forall>r. window t r \<longrightarrow> accept_key c keys r"
    using acceptable_window [OF assms(2)] by blast
  obtain i where "window t (draw ((step ^^ i) s))" using hits [OF assms(1) t(1,2)] by blast
  moreover have "draw ((step ^^ i) s) \<in> set (drawn draw step s (Suc i))" by (simp add: drawn_def)
  ultimately obtain j k where "j < Suc i" "gen_key c keys (take (Suc j) (drawn draw step s (Suc i))) = Some (k, [])"
    using gen_key_exact t(3) by (metis (no_types, lifting) diff_zero drawn_def length_map length_upt)
  then show ?thesis using drawn_take [of "Suc j" "Suc i" draw step s] by auto
qed

lemma gen_keys_enough:
  assumes "ok s" and "length keys + n \<le> 10"
  shows "\<exists>m ks. gen_keys_from c n keys (drawn draw step s m) = Some (ks, [])"
  using assms
proof (induction n arbitrary: keys s)
  case 0
  then show ?case by (intro exI [of _ 0]) (simp add: drawn_def)
next
  case (Suc n)
  then obtain m1 k where 1: "gen_key c keys (drawn draw step s m1) = Some (k, [])" using gen_key_enough by fastforce
  have "length (keys @ [k]) + n \<le> 10" using Suc.prems(2) by simp
  then obtain m2 ks where "gen_keys_from c n (keys @ [k]) (drawn draw step ((step ^^ m1) s) m2) = Some (ks, [])"
    using Suc.IH ok_steps [OF Suc.prems(1)] by blast
  then show ?case using gen_key_append [OF 1] by (intro exI [of _ "m1 + m2"] exI [of _ ks]) (simp add: drawn_add)
qed

lemma gen_txns_enough:
  assumes "ok s"
  shows "\<exists>m bs. gen_txns c ds (drawn draw step s m) = Some (bs, [])"
  using assms
proof (induction ds arbitrary: s)
  case Nil
  then show ?case by (intro exI [of _ 0]) (simp add: drawn_def)
next
  case (Cons d ds)
  obtain m1 ks where 1: "gen_keys_from c 10 [] (drawn draw step s m1) = Some (ks, [])"
    using gen_keys_enough [OF Cons.prems, of "[]" 10 c] by auto
  obtain m2 bs where 2: "gen_txns c ds (drawn draw step ((step ^^ m1) s) m2) = Some (bs, [])"
    using Cons.IH ok_steps [OF Cons.prems] by blast
  have "gen_bin_txn c d (drawn draw step s (m1 + m2)) =
      Some (pack_txn ks (gen_write_set c d), drawn draw step ((step ^^ m1) s) m2)"
    using gen_keys_from_append [OF 1] by (simp add: gen_bin_txn_def gen_keys_def drawn_add)
  with 2 show ?case by (intro exI [of _ "m1 + m2"]) simp
qed

lemma gen_log_enough: "ok s \<Longrightarrow> \<exists>n m. gen_log c ds (drawn draw step s n) = Some m"
proof -
  assume "ok s"
  then obtain n bs where "gen_txns c ds (drawn draw step s n) = Some (bs, [])" using gen_txns_enough by blast
  then have "gen_log c ds (drawn draw step s n) = Some (bytes_of 4 (length ds) @ bs)" by (simp add: gen_log_def)
  then show ?thesis by blast
qed

end

section \<open>The zipfian numbers hit every window\<close>

text \<open>A sequence that starts below \<open>t\<close>, ends above it and moves up in small steps.\<close>

lemma small_steps_hit:
  fixes f :: "nat \<Rightarrow> real"
  assumes "f a \<le> t" and "t \<le> f b" and "a \<le> b" and "0 \<le> d"
    and "\<And>k. a \<le> k \<Longrightarrow> k < b \<Longrightarrow> f (Suc k) \<le> f k + d"
  shows "\<exists>k. a \<le> k \<and> k \<le> b \<and> t \<le> f k \<and> f k \<le> t + d"
  using assms(3,2,5)
proof (induction b rule: dec_induct)
  case base
  then show ?case using assms(1,4) by (intro exI [of _ a]) simp
next
  case (step n)
  show ?case
  proof (cases "t \<le> f n")
    case True
    then obtain k where "a \<le> k" "k \<le> n" "t \<le> f k" "f k \<le> t + d" using step.IH step.prems(2) by auto
    then show ?thesis by (intro exI [of _ k]) simp
  next
    case False
    have "f (Suc n) \<le> f n + d" using step.hyps(1) step.prems(2) by simp
    then have "f (Suc n) \<le> t + d" using False by simp
    then show ?thesis using step.hyps(1) step.prems(1) by (intro exI [of _ "Suc n"]) simp
  qed
qed

lemma power_lipschitz:
  fixes x y :: real
  assumes "0 \<le> x" and "x \<le> y" and "y \<le> 1"
  shows "y ^ n \<le> x ^ n + real n * (y - x)"
proof (induction n)
  case (Suc n)
  have "y * y ^ n \<le> y * (x ^ n + real n * (y - x))" using Suc assms by (intro mult_left_mono) simp_all
  also have "\<dots> = y * x ^ n + y * (real n * (y - x))" by (simp add: algebra_simps)
  also have "y * (real n * (y - x)) \<le> 1 * (real n * (y - x))" using assms by (intro mult_right_mono) simp_all
  also have "y * x ^ n \<le> x * x ^ n + (y - x)"
  proof -
    have "(y - x) * x ^ n \<le> (y - x) * 1" using assms power_le_one [of x n] by (intro mult_left_mono) simp_all
    then show ?thesis by (simp add: algebra_simps)
  qed
  finally show ?case by (simp add: algebra_simps)
qed simp

lemma zeta_lower: "0 \<le> theta \<Longrightarrow> m \<le> K \<Longrightarrow> real m * (1 / real K powr theta) \<le> zeta (\<lambda>x. x) theta m"
proof (induction m)
  case 0
  then show ?case by (simp add: zeta_def)
next
  case (Suc m)
  have "real (m + 1) powr theta \<le> real K powr theta" using Suc.prems by (intro powr_mono2) simp_all
  moreover have "0 < real (m + 1) powr theta" by simp
  ultimately have "1 / real K powr theta \<le> 1 / real (m + 1) powr theta" by (intro divide_left_mono mult_pos_pos) linarith+
  then show ?case unfolding zeta_Suc using Suc by (simp add: add_divide_distrib)
qed

text \<open>The skews of the two distributions: \<open>1 - 1 / n\<close> for \<open>n = 1\<close> and \<open>n = 10\<close>.\<close>

lemma zeta_rows:
  assumes "1 \<le> n" and "n \<le> 10" and "theta = 1 - 1 / real n"
  shows "4 \<le> zeta (\<lambda>x. x) theta 10000000" and "zeta (\<lambda>x. x) theta 2 \<le> 2" and "1 < zeta (\<lambda>x. x) theta 2"
proof -
  let ?N = "10000000 :: real"
  have th: "0 \<le> theta" using assms(1) unfolding assms(3) by simp
  have "4 = (4 ^ 10) powr (1 / 10 :: real)" by (simp only: powr_realpow [symmetric] powr_powr) simp
  also have "\<dots> \<le> ?N powr (1 / 10)" by (intro powr_mono2) simp_all
  also have "\<dots> \<le> ?N powr (1 / real n)" using assms(1,2) by (intro powr_mono) (simp_all add: field_simps)
  also have "\<dots> = ?N * (1 / ?N powr theta)" unfolding assms(3) by (simp add: powr_diff)
  also have "\<dots> \<le> zeta (\<lambda>x. x) theta 10000000" using zeta_lower [OF th, of 10000000 10000000] by simp
  finally show "4 \<le> zeta (\<lambda>x. x) theta 10000000" .
  have "(1 / 2) powr theta \<le> 1" using th powr_mono2 [of theta "1 / 2" 1] by simp
  then show "zeta (\<lambda>x. x) theta 2 \<le> 2" by (simp add: zeta_exact(1))
  show "1 < zeta (\<lambda>x. x) theta 2" by (simp add: zeta_exact(1))
qed

lemma zipf_rows_init:
  assumes "1 \<le> n" and "n \<le> 10" and "theta = 1 - 1 / real n" and z: "zipf_init (\<lambda>x. x) 10000000 theta seed = Inr z"
  shows "zr_max z = 9999999" and "zr_theta z = theta" and "zr_zetan z = zeta (\<lambda>x. x) theta 10000000" and "zr_alpha z = real n"
    and "zr_eta z * (1 - zeta (\<lambda>x. x) theta 2 / zr_zetan z) = 1 - (2 / 10000000) powr (1 / real n)"
    and "0 \<le> zr_eta z" and "zr_eta z \<le> 2"
proof -
  let ?Z = "zeta (\<lambda>x. x) theta"
  note Z = zeta_rows [OF assms(1-3)]
  have ratio: "?Z 2 / ?Z 10000000 \<le> 1 / 2" using Z by (simp add: divide_le_eq)
  have num: "0 \<le> 1 - (2 / 10000000 :: real) powr (1 / real n)" using powr_mono2 [of "1 / real n" "2 / 10000000" 1] by simp
  show v: "zr_max z = 9999999" "zr_theta z = theta" "zr_zetan z = ?Z 10000000" "zr_alpha z = real n"
    using z assms(1) unfolding zipf_init_def assms(3) by (auto simp: Let_def fdiv_def result_simps split: if_splits)
  have eta: "zr_eta z = (1 - (2 / 10000000) powr (1 / real n)) / (1 - ?Z 2 / ?Z 10000000)"
    using z assms(1) unfolding zipf_init_def assms(3) by (auto simp: Let_def fdiv_def result_simps split: if_splits)
  moreover have "1 - ?Z 2 / ?Z 10000000 \<noteq> 0" using ratio by linarith
  ultimately show "zr_eta z * (1 - ?Z 2 / zr_zetan z) = 1 - (2 / 10000000) powr (1 / real n)"
    unfolding v(3) using nonzero_eq_divide_eq by blast
  have den: "1 / 2 \<le> 1 - ?Z 2 / ?Z 10000000" using ratio by linarith
  show "0 \<le> zr_eta z" unfolding eta by (rule divide_nonneg_nonneg [OF num]) (use den in linarith)
  have "0 \<le> p \<Longrightarrow> 1 / 2 \<le> d \<Longrightarrow> 1 - p \<le> 2 * d" for p d :: real by simp
  then have "1 - (2 / 10000000) powr (1 / real n) \<le> 2 * (1 - ?Z 2 / ?Z 10000000)" using den powr_ge_zero by blast
  moreover have "0 < 1 - ?Z 2 / ?Z 10000000" using den by linarith
  ultimately show "zr_eta z \<le> 2" unfolding eta by (simp only: pos_divide_le_eq)
qed

lemma zipf_window:
  assumes "1 \<le> n" and "n \<le> 10" and "theta = 1 - 1 / real n" and z: "zipf_init (\<lambda>x. x) 10000000 theta seed = Inr z"
    and t: "22 \<le> t" "t \<le> 9999999"
  shows "\<exists>k\<le>9999999. let b = zipf_base (\<lambda>x. x) z (real k / 9999999) in
    zeta (\<lambda>x. x) theta 2 \<le> real k / 9999999 * zr_zetan z \<and> 0 < b \<and>
    real t \<le> 9999999 * b ^ n \<and> 9999999 * b ^ n \<le> real t + 20"
proof -
  note Z = zeta_rows [OF assms(1-3)] and i = zipf_rows_init [OF assms(1-4)]
  let ?M = "9999999 :: real" and ?r = "zeta (\<lambda>x. x) theta 2 / zr_zetan z" and ?b0 = "(2 / 10000000 :: real) powr (1 / real n)"
  define b where "b k = zipf_base (\<lambda>x. x) z (real k / ?M)" for k :: nat
  define f where "f k = ?M * b k ^ n" for k
  have zpos: "0 < zr_zetan z" using Z(1) i(3) by simp
  have base: "b k = 1 - zr_eta z * (1 - real k / ?M)" for k by (simp add: b_def zipf_base_def algebra_simps)
  have b0: "?b0 = 1 - zr_eta z * (1 - ?r)" using i(5) by simp
  have b0n: "0 < ?b0" "?b0 ^ n = 2 / 10000000" using assms(1) by (simp_all add: powr_realpow [symmetric] powr_powr)
  have up: "b k + zr_eta z / ?M = b (Suc k)" for k by (simp add: base algebra_simps add_divide_distrib)
  have above: "?b0 \<le> b k" if "?r \<le> real k / ?M" for k
    unfolding base b0 using that i(6) mult_left_mono [of "1 - real k / ?M" "1 - ?r" "zr_eta z"] by simp
  have le1: "b k \<le> 1" if "real k \<le> ?M" for k using that i(6) by (simp add: base)
  have step: "f (Suc k) \<le> f k + 20" if "?b0 \<le> b k" "real (Suc k) \<le> ?M" for k
  proof -
    have "0 \<le> b k" "0 \<le> zr_eta z / ?M" using that(1) b0n(1) i(6) by (linarith, simp)
    then have "b (Suc k) ^ n \<le> b k ^ n + real n * (b (Suc k) - b k)"
      using that(2) up [of k] le1 [of "Suc k"] by (intro power_lipschitz) linarith+
    moreover have "b (Suc k) - b k = zr_eta z / ?M" using up [of k] by linarith
    ultimately have "?M * b (Suc k) ^ n \<le> ?M * (b k ^ n + real n * (zr_eta z / ?M))" by (intro mult_left_mono) simp_all
    then have "f (Suc k) \<le> f k + real n * zr_eta z" unfolding f_def by (simp add: algebra_simps)
    moreover have "real n * zr_eta z \<le> 10 * 2" using assms(2) i(6,7) by (intro mult_mono) simp_all
    ultimately show ?thesis by simp
  qed
  define k0 where "k0 = (LEAST k. ?r \<le> real k / ?M)"
  have top: "?r \<le> real 9999999 / ?M" using Z i(3) by (simp add: divide_le_eq)
  have k0: "?r \<le> real k0 / ?M" "k0 \<le> 9999999"
    using LeastI [where P = "\<lambda>k. ?r \<le> real k / ?M", OF top] Least_le [where P = "\<lambda>k. ?r \<le> real k / ?M", OF top]
    unfolding k0_def by blast+
  have "0 < ?r" using Z(3) zpos by simp
  then obtain k1 where k1: "k0 = Suc k1" using k0(1) by (cases k0) auto
  then have low: "real k1 / ?M < ?r" using not_less_Least [of k1 "\<lambda>k. ?r \<le> real k / ?M"] by (simp add: k0_def)
  have "f k0 \<le> 22"
  proof -
    have "b k1 \<le> ?b0" unfolding base b0 using low i(6) mult_left_mono [of "1 - ?r" "1 - real k1 / ?M" "zr_eta z"] by simp
    then have d: "b k0 - ?b0 \<le> zr_eta z / ?M" using up [of k1] by (simp add: k1)
    have "b k0 ^ n \<le> ?b0 ^ n + real n * (b k0 - ?b0)"
      using b0n(1) above [OF k0(1)] le1 [of k0] k0(2) by (intro power_lipschitz) simp_all
    also have "real n * (b k0 - ?b0) \<le> 10 * (2 / ?M)"
      using d assms(2) i(7) above [OF k0(1)] by (intro mult_mono) (simp_all add: divide_right_mono order.trans [OF d])
    finally show ?thesis unfolding f_def b0n(2) by simp
  qed
  then have lo: "f k0 \<le> real t" using t(1) by simp
  have hi: "real t \<le> f 9999999" using t(2) by (simp add: f_def base)
  have "f (Suc k) \<le> f k + 20" if "k0 \<le> k" "k < 9999999" for k
  proof (rule step [OF above])
    have "real k0 / ?M \<le> real k / ?M" using that(1) by simp
    then show "?r \<le> real k / ?M" using k0(1) by linarith
  qed (use that in simp)
  from small_steps_hit [OF lo hi k0(2) _ this] obtain k where k: "k0 \<le> k" "k \<le> 9999999" "real t \<le> f k" "f k \<le> real t + 20" by auto
  have "real k0 / ?M \<le> real k / ?M" using k(1) by simp
  then have r: "?r \<le> real k / ?M" using k0(1) by linarith
  have "zeta (\<lambda>x. x) theta 2 \<le> real k / ?M * zr_zetan z" using r zpos by (simp only: divide_le_eq)
  moreover have "0 < b k" using above [OF r] b0n(1) by linarith
  ultimately show ?thesis using k(2-4) unfolding Let_def f_def b_def by blast
qed

text \<open>The generator over its seeds.\<close>

definition zipf_draw :: "zipfian_random \<Rightarrow> u64 \<Rightarrow> u64" where
  "zipf_draw z s = (case zipf_next (\<lambda>x. x) (z\<lparr>zr_seed := s\<rparr>) of Inr (v, _) \<Rightarrow> v | Inl _ \<Rightarrow> 0)"

lemma zipf_next_seed:
  assumes "zr_max z = 9999999" and "zipf_next fl (z\<lparr>zr_seed := s\<rparr>) = Inr (v, z')"
  shows "z' = z\<lparr>zr_seed := lcg s\<rparr>"
  using assms by (auto simp: zipf_next_def uniform_within_def next_uint32_lcg Let_def result_simps split: if_splits prod.splits)

lemma zipf_rows_next:
  assumes "1 \<le> n" and "n \<le> 10" and "theta = 1 - 1 / real n" and z: "zipf_init (\<lambda>x. x) 10000000 theta seed = Inr z"
  shows "zipf_next (\<lambda>x. x) (z\<lparr>zr_seed := s\<rparr>) = Inr (zipf_draw z s, z\<lparr>zr_seed := lcg s\<rparr>)"
proof -
  have th: "0 \<le> theta" "theta < 1" using assms(1) unfolding assms(3) by simp_all
  have "(2 / 10000000 :: real) powr (1 / real n) > 0" by simp
  then have "zr_eta z * (1 - zeta (\<lambda>x. x) theta 2 / zr_zetan z) < 1" using zipf_rows_init(5) [OF assms] by linarith
  then obtain v s' where "zipf_next (\<lambda>x. x) (z\<lparr>zr_seed := s\<rparr>) = Inr (v, z\<lparr>zr_seed := s'\<rparr>)"
    using zipf_next_exact [OF _ _ th z, of s] by auto
  with zipf_next_seed [OF zipf_rows_init(1) [OF assms] this] show ?thesis by (simp add: zipf_draw_def)
qed

lemma zipf_draws_drawn:
  assumes "1 \<le> n" and "n \<le> 10" and "theta = 1 - 1 / real n" and "zipf_init (\<lambda>x. x) 10000000 theta seed = Inr z"
  shows "zipf_draws (\<lambda>x. x) (z\<lparr>zr_seed := s\<rparr>) m = Inr (drawn (zipf_draw z) lcg s m)"
proof (induction m arbitrary: s)
  case 0
  show ?case by (simp add: drawn_def)
next
  case (Suc m)
  have "drawn (zipf_draw z) lcg s (1 + m) = zipf_draw z s # drawn (zipf_draw z) lcg (lcg s) m"
    by (subst drawn_add) (simp add: drawn_def)
  then show ?case using Suc.IH [of "lcg s"] by (simp add: zipf_rows_next [OF assms])
qed

lemma to_uint64_window:
  assumes "real t \<le> x" and "x \<le> real t + 20" and "t + 20 < 2 ^ 32"
  shows "\<exists>v. to_uint64 x = Inr v \<and> window t v"
proof -
  have "t \<le> nat \<lfloor>x\<rfloor>" "nat \<lfloor>x\<rfloor> \<le> t + 20" using assms(1,2) by linarith+
  moreover from this have "unat (of_nat (nat \<lfloor>x\<rfloor>) :: u64) = nat \<lfloor>x\<rfloor>" using assms(3) by (intro unat_of_nat_small) simp
  ultimately show ?thesis using assms(1) by (simp add: to_uint64_def window_def)
qed

lemma zipf_hits:
  assumes "1 \<le> n" and "n \<le> 10" and "theta = 1 - 1 / real n" and z: "zipf_init (\<lambda>x. x) 10000000 theta seed = Inr z"
    and t: "22 \<le> t" "t + 20 < ROW_COUNT" and s: "even (unat s)"
  shows "\<exists>i. window t (zipf_draw z ((lcg ^^ i) s))"
proof -
  note zi = zipf_rows_init [OF assms(1-4)]
  have t': "t \<le> 9999999" "t + 20 < 2 ^ 32" using t(2) by (simp_all add: ROW_COUNT_def)
  obtain k where k: "k \<le> 9999999" "zeta (\<lambda>x. x) theta 2 \<le> real k / 9999999 * zr_zetan z"
      "0 < zipf_base (\<lambda>x. x) z (real k / 9999999)"
      "real t \<le> 9999999 * zipf_base (\<lambda>x. x) z (real k / 9999999) ^ n"
      "9999999 * zipf_base (\<lambda>x. x) z (real k / 9999999) ^ n \<le> real t + 20"
    using zipf_window [OF assms(1-4) t(1) t'(1)] by (auto simp: Let_def)
  obtain i where i: "fst (next_uint32 ((lcg ^^ i) s)) = of_nat k" using next_uint32_hits [OF s] by blast
  let ?s = "(lcg ^^ i) s"
  have uk: "unat (of_nat k :: u32) = k" using k(1) by (intro unat_of_nat_small) simp
  then have "(of_nat k :: u32) mod 10000000 = of_nat k" using k(1) by (intro mod_word_less) (simp add: word_less_nat_alt)
  then have draw: "uniform_within 0 (ucast (zr_max z)) ?s = Inr (of_nat k, lcg ?s)"
    using i by (simp add: uniform_within_def zi(1) next_uint32_lcg)
  obtain v where v: "to_uint64 (9999999 * zipf_base (\<lambda>x. x) z (real k / 9999999) ^ n) = Inr v" "window t v"
    using to_uint64_window [OF k(4,5) t'(2)] by blast
  have base: "zipf_base (\<lambda>x. x) (z\<lparr>zr_seed := ?s\<rparr>) u = zipf_base (\<lambda>x. x) z u" for u by (simp add: zipf_base_def)
  have "1 \<le> zeta (\<lambda>x. x) theta 2" using zeta_rows(3) [OF assms(1-3)] by simp
  then have "\<not> real k / 9999999 * zr_zetan z < 1" "\<not> real k / 9999999 * zr_zetan z < 1 + (1 / 2) powr zr_theta z"
    using k(2) unfolding zi(2) zeta_exact(1) [symmetric] by linarith+
  then have "zipf_next (\<lambda>x. x) (z\<lparr>zr_seed := ?s\<rparr>) = Inr (v, z\<lparr>zr_seed := lcg ?s\<rparr>)"
    using draw uk k(3) v(1) unfolding zipf_next_def fdiv_def Let_def base
    by (simp add: zi(1,4) zipf_pow_def pow_any_def powr_realpow del: of_nat_unat)
  then show ?thesis using v(2) by (intro exI [of _ i]) (simp add: zipf_draw_def)
qed

text \<open>The generator of \<open>main\<close>, for the uniform (\<open>n = 1\<close>) and the zipfian (\<open>n = 10\<close>) distribution.\<close>

definition rows_gen :: "nat \<Rightarrow> zipfian_random" where
  "rows_gen n = projr (zipf_init (\<lambda>x. x) 10000000 (1 - 1 / real n) 1238)"

lemma rows_gen:
  assumes "1 \<le> n"
  shows "zipf_init (\<lambda>x. x) 10000000 (1 - 1 / real n) 1238 = Inr (rows_gen n)"
proof -
  have "\<exists>z. zipf_init (\<lambda>x. x) 10000000 (1 - 1 / real n) 1238 = Inr z"
    using zipf_init_exact [of 10000000 "1 - 1 / real n" 1238] assms by auto
  then show ?thesis by (auto simp: rows_gen_def)
qed

interpretation uniform_source: draw_source "zipf_draw (rows_gen 1)" lcg "\<lambda>s. even (unat s)"
  by unfold_locales (use lcg_even zipf_hits [OF _ _ refl rows_gen, of 1] in auto)

interpretation zipfian_source: draw_source "zipf_draw (rows_gen 10)" lcg "\<lambda>s. even (unat s)"
  by unfold_locales (use lcg_even zipf_hits [OF _ _ refl rows_gen, of 10] in auto)

lemma zipf_s_skew: "zipf_s (\<lambda>x. x) argv = 1 - 1 / real (if argv ! 2 = ''zipfian'' then 10 else 1)"
  by (simp add: zipf_s_def)

lemma generate_main_draws:
  assumes "length argv = 5" and "argv ! 1 = ''-d''" and "argv ! 3 = ''-c''"
  shows "generate_main (\<lambda>x. x) argv perms k = Inr (log_name argv, gen_log (contended argv) (map perms [0..<TX_COUNT])
    (drawn (zipf_draw (rows_gen (if argv ! 2 = ''zipfian'' then 10 else 1))) lcg 1238 k))"
proof -
  define n where "n = (if argv ! 2 = ''zipfian'' then 10 else 1 :: nat)"
  have n: "1 \<le> n" "n \<le> 10" "zipf_s (\<lambda>x. x) argv = 1 - 1 / real n" by (simp_all add: n_def zipf_s_def)
  note z = rows_gen [OF n(1)]
  have "(rows_gen n)\<lparr>zr_seed := 1238\<rparr> = rows_gen n"
    using z by (auto simp: zipf_init_def Let_def result_simps fdiv_def split: if_splits)
  then have "zipf_draws (\<lambda>x. x) (rows_gen n) k = Inr (drawn (zipf_draw (rows_gen n)) lcg 1238 k)"
    using zipf_draws_drawn [OF n(1,2) refl z, of 1238 k] by simp
  then show ?thesis using assms z by (simp add: generate_main_def n(3) ROW_COUNT_def n_def [symmetric])
qed

lemma shuffled_write_set:
  assumes "set digits \<subseteq> {0, 1}" and "length digits = 10"
  shows "{i. bit (gen_write_set True digits) i} = {..<10}" and "{i. bit (gen_write_set False digits) i} \<subseteq> {..<10}"
    and "card {i. bit (gen_write_set False digits) i} = count_list digits 1"
proof -
  have "gen_write_set True digits = mask 10" by (simp add: gen_write_set_def mask_eq_exp_minus_1)
  then show "{i. bit (gen_write_set True digits) i} = {..<10}" by (auto simp: bit_mask_iff)
  have "length (filter (\<lambda>d. d = 1) digits) = count_list digits 1" by (induction digits) auto
  then show "{i. bit (gen_write_set False digits) i} \<subseteq> {..<10}"
      "card {i. bit (gen_write_set False digits) i} = count_list digits 1"
    using write_set_bit [OF assms(1)] write_set_card [OF assms(1)] assms(2) by (auto simp: gen_write_set_def)
qed

lemma generate_main_returns:
  assumes "length argv = 5" and "argv ! 1 = ''-d''" and "argv ! 3 = ''-c''"
  shows "\<exists>n m. (\<forall>k\<ge>n. generate_main (\<lambda>x. x) argv perms k = Inr (log_name argv, Some m)) \<and>
    (\<exists>rs. gen_log (contended argv) (map perms [0..<TX_COUNT]) rs = Some m)"
proof -
  let ?c = "contended argv" and ?ds = "map perms [0..<TX_COUNT]"
  let ?D = "drawn (zipf_draw (rows_gen (if argv ! 2 = ''zipfian'' then 10 else 1))) lcg 1238"
  obtain n m where m: "gen_log ?c ?ds (?D n) = Some m"
    using uniform_source.gen_log_enough [of 1238 ?c ?ds] zipfian_source.gen_log_enough [of 1238 ?c ?ds]
    by (cases "argv ! 2 = ''zipfian''") auto
  have "gen_log ?c ?ds (?D k) = Some m" if "n \<le> k" for k
    using gen_log_append [OF m] drawn_add [of _ lcg 1238 n "k - n"] that by simp
  then have "\<forall>k\<ge>n. generate_main (\<lambda>x. x) argv perms k = Inr (log_name argv, Some m)"
    by (simp add: generate_main_draws [OF assms])
  with m show ?thesis by blast
qed

text \<open>Whatever the rounding, a log that the program writes is one that \<open>gen_log\<close> packs.\<close>

lemma generate_main_log:
  assumes "generate_main fl argv perms draws = Inr (name, Some m)"
  shows "\<exists>rs. gen_log (contended argv) (map perms [0..<TX_COUNT]) rs = Some m"
  using assms by (auto simp: generate_main_def result_simps split: if_splits)

section \<open>Properties\<close>



end
