(* ===== verification/Txn_Profile.thy ===== *)
theory Txn_Profile
  imports Ycsb
begin

text \<open>
  The profiling program \<^verbatim>\<open>app/txn_profile.cpp\<close>: YCSB transactions on a
  plain vector of rows, in three formulations, and random transactions.  The
  three formulations are shown to be the body of \<^verbatim>\<open>ycsb.cc\<close>.  Times are left out; random numbers are
  arguments, and so is the memory that \<open>gen_random_txn\<close> leaves uninitialised.
\<close>

section \<open>The three formulations of a transaction\<close>

text \<open>A row is its payload; the running sum, the rest of the write set and the rows are the state.\<close>

type_synonym prof_state = "u8 \<times> u16 \<times> u8 list list"

definition txn_step :: "nat \<Rightarrow> prof_state \<Rightarrow> prof_state result" where
  "txn_step idx s = (case s of (acc, write_set, rows) \<Rightarrow>
     rbind (vec_at rows idx) (\<lambda>row.
       if write_set AND 1 \<noteq> 0
       then rmap (\<lambda>rows'. (acc, drop_bit 1 write_set, rows')) (vec_put idx (memset_row acc row) rows)
       else Inr (read_row row acc, drop_bit 1 write_set, rows)))"

definition process_txn :: "u16 \<Rightarrow> nat list \<Rightarrow> u8 list list \<Rightarrow> u8 list list result" where
  "process_txn write_set indices rows =
     rmap (\<lambda>s. snd (snd s)) (rfold (\<lambda>i. txn_step (indices ! i)) [0..<ROWS_PER_TX] (0, write_set, rows))"

text \<open>\<open>auto&& row = &(*rows)[indices[i]]\<close>: the rows are addressed before any is used.\<close>

definition row_ref :: "u8 list list \<Rightarrow> nat \<Rightarrow> nat result" where
  "row_ref rows idx = (if idx < length rows then Inr idx else Inl OutOfBounds)"

definition row_refs :: "nat list \<Rightarrow> u8 list list \<Rightarrow> nat list result" where
  "row_refs indices rows = rmapM (\<lambda>i. row_ref rows (indices ! i)) [0..<ROWS_PER_TX]"

definition process_each_row :: "nat \<Rightarrow> prof_state \<Rightarrow> prof_state" where
  "process_each_row row s = (case s of (acc, ws, rows) \<Rightarrow>
     if ws AND 1 \<noteq> 0 then (acc, drop_bit 1 ws, rows[row := memset_row acc (rows ! row)])
     else (read_row (rows ! row) acc, drop_bit 1 ws, rows))"

definition process_txn_closure :: "u16 \<Rightarrow> nat list \<Rightarrow> u8 list list \<Rightarrow> u8 list list result" where
  "process_txn_closure write_set indices rows =
     rmap (\<lambda>refs. snd (snd (fold process_each_row refs (0, write_set, rows)))) (row_refs indices rows)"

definition unfold_row :: "nat \<Rightarrow> prof_state \<Rightarrow> prof_state" where
  "unfold_row row s = (case s of (acc, write_set, rows) \<Rightarrow>
     let (acc', rows') =
       (if write_set AND 1 \<noteq> 0 then (acc, rows[row := memset_row acc (rows ! row)])
        else (read_row (rows ! row) acc, rows))
     in (acc', drop_bit 1 write_set, rows'))"

definition process_txn_unfold :: "u16 \<Rightarrow> nat list \<Rightarrow> u8 list list \<Rightarrow> u8 list list result" where
  "process_txn_unfold write_set indices rows =
     rbind (row_ref rows (indices ! 0)) (\<lambda>row0. rbind (row_ref rows (indices ! 1)) (\<lambda>row1.
     rbind (row_ref rows (indices ! 2)) (\<lambda>row2. rbind (row_ref rows (indices ! 3)) (\<lambda>row3.
     rbind (row_ref rows (indices ! 4)) (\<lambda>row4. rbind (row_ref rows (indices ! 5)) (\<lambda>row5.
     rbind (row_ref rows (indices ! 6)) (\<lambda>row6. rbind (row_ref rows (indices ! 7)) (\<lambda>row7.
     rbind (row_ref rows (indices ! 8)) (\<lambda>row8. rbind (row_ref rows (indices ! 9)) (\<lambda>row9.
       let s0 = unfold_row row0 (0, write_set, rows); s1 = unfold_row row1 s0; s2 = unfold_row row2 s1;
           s3 = unfold_row row3 s2; s4 = unfold_row row4 s3; s5 = unfold_row row5 s4; s6 = unfold_row row6 s5;
           s7 = unfold_row row7 s6; s8 = unfold_row row8 s7; s9 = unfold_row row9 s8
       in Inr (snd (snd s9))))))))))))"

section \<open>Random transactions\<close>

text \<open>Two different bits of ten; \<open>None\<close> when the draws run out before two differ.\<close>

fun gen_random_write_set :: "nat list \<Rightarrow> u16 option" where
  "gen_random_write_set (d1 # d2 # ds) =
     (let w1 = push_bit d1 1; w2 = push_bit d2 1 in
      if w1 = w2 then gen_random_write_set ds else Some (w1 + w2))"
| "gen_random_write_set _ = None"

text \<open>\<open>ret0\<close> is the uninitialised array; a draw that is found in the array is not stored.\<close>

definition gen_random_txn :: "nat list \<Rightarrow> nat list \<Rightarrow> nat list" where
  "gen_random_txn draws ret0 =
     fold (\<lambda>i ret. if draws ! i \<in> set ret then ret else ret[i := draws ! i]) [0..<ROWS_PER_TX] ret0"

text \<open>The loop of \<open>main\<close>: for each transaction the draws of its write set and of its rows.\<close>

definition profile_txn :: "nat list \<times> nat list \<times> nat list \<Rightarrow> u8 list list \<Rightarrow> u8 list list result option" where
  "profile_txn d rows = (case d of (bits, draws, ret0) \<Rightarrow>
     map_option (\<lambda>write_set. process_txn_closure write_set (gen_random_txn draws ret0) rows) (gen_random_write_set bits))"

fun profile_run :: "(nat list \<times> nat list \<times> nat list) list \<Rightarrow> u8 list list \<Rightarrow> u8 list list result option" where
  "profile_run [] rows = Some (Inr rows)"
| "profile_run (d # ds) rows = (case profile_txn d rows of
     Some (Inr rows') \<Rightarrow> profile_run ds rows'
   | r \<Rightarrow> r)"

section \<open>The formulations agree\<close>

lemma process_each_row_length: "length (snd (snd (process_each_row row s))) = length (snd (snd s))"
  by (simp add: process_each_row_def split: prod.splits)

lemma txn_step_each:
  "txn_step idx s = (if idx < length (snd (snd s)) then Inr (process_each_row idx s) else Inl OutOfBounds)"
  by (simp add: txn_step_def process_each_row_def vec_at_def split: prod.splits)

lemma txn_steps:
  "rfold txn_step xs s =
     (if \<forall>x\<in>set xs. x < length (snd (snd s)) then Inr (fold process_each_row xs s) else Inl OutOfBounds)"
  by (induction xs arbitrary: s) (simp_all add: txn_step_each process_each_row_length)

lemma row_refs_all:
  "rmapM (row_ref rows) xs = (if \<forall>x\<in>set xs. x < length rows then Inr xs else Inl OutOfBounds)"
  by (induction xs) (simp_all add: row_ref_def)

lemma rmapM_map: "rmapM (\<lambda>i. f (g i)) xs = rmapM f (map g xs)"
  by (induction xs) simp_all

lemma process_txn_eq:
  "process_txn ws indices rows =
     (if \<forall>i<ROWS_PER_TX. indices ! i < length rows
      then Inr (snd (snd (fold process_each_row (map (nth indices) [0..<ROWS_PER_TX]) (0, ws, rows))))
      else Inl OutOfBounds)"
proof -
  have "rfold (\<lambda>i. txn_step (indices ! i)) [0..<ROWS_PER_TX] = rfold txn_step (map (nth indices) [0..<ROWS_PER_TX])"
    by (rule ext) (rule rfold_map [symmetric])
  then show ?thesis unfolding process_txn_def by (auto simp: txn_steps)
qed

lemma closure_eq: "process_txn_closure ws indices rows = process_txn ws indices rows"
  unfolding process_txn_closure_def process_txn_eq row_refs_def rmapM_map by (auto simp: row_refs_all)

lemma unfold_row_eq: "unfold_row = process_each_row"
  by (rule ext, rule ext) (simp add: unfold_row_def process_each_row_def split: prod.splits)

lemma ten_rows: "[0..<ROWS_PER_TX] = [0, 1, 2, 3, 4, 5, 6, 7, 8, 9]"
  by (simp add: ROWS_PER_TX_def upt_rec)

lemma unfold_eq: "process_txn_unfold ws indices rows = process_txn_closure ws indices rows"
  unfolding process_txn_closure_def row_refs_def ten_rows process_txn_unfold_def unfold_row_eq Let_def
  by (simp add: row_ref_def)

text \<open>The rows of the vector as a store of rows: the steps are those of the transaction body.\<close>

definition rows_sim :: "prof_state \<Rightarrow> u8 \<times> u16 \<times> (nat \<Rightarrow> u8 list) \<Rightarrow> bool" where
  "rows_sim s t \<longleftrightarrow> fst s = fst t \<and> fst (snd s) = fst (snd t) \<and>
     (\<forall>c<length (snd (snd s)). snd (snd s) ! c = snd (snd t) c)"

lemma each_row_sim:
  "rows_sim s t \<Longrightarrow> c < length (snd (snd s)) \<Longrightarrow> rows_sim (process_each_row c s) (TXN c t)"
  by (cases s; cases t) (auto simp: rows_sim_def process_each_row_def TXN_def nth_list_update)

lemma each_rows_sim:
  "rows_sim s t \<Longrightarrow> \<forall>c\<in>set cs. c < length (snd (snd s)) \<Longrightarrow>
     rows_sim (fold process_each_row cs s) (fold TXN cs t)"
  by (induction cs arbitrary: s t) (simp_all add: each_row_sim process_each_row_length)

lemma each_rows_length: "length (snd (snd (fold process_each_row cs s))) = length (snd (snd s))"
  by (induction cs arbitrary: s) (simp_all add: process_each_row_length)

section \<open>Random transactions\<close>

lemma gen_write_set_bits:
  assumes "\<forall>d\<in>set ds. d < 10" and "gen_random_write_set ds = Some ws"
  shows "\<exists>i<10. \<exists>j<10. i \<noteq> j \<and> (\<forall>k. bit ws k \<longleftrightarrow> k = i \<or> k = j)"
  using assms
proof (induction ds rule: gen_random_write_set.induct)
  case (1 d1 d2 ds)
  let ?w1 = "push_bit d1 1 :: u16" and ?w2 = "push_bit d2 1 :: u16"
  show ?case
  proof (cases "?w1 = ?w2")
    case True
    then show ?thesis using 1 by (simp add: Let_def)
  next
    case False
    have bits: "bit ?w1 k \<longleftrightarrow> k = d1" "bit ?w2 k \<longleftrightarrow> k = d2" for k
      using 1(2) by (auto simp: push_bit_eq_mult bit_exp_iff)
    have ne: "d1 \<noteq> d2" using False by auto
    have "?w1 AND ?w2 = 0" by (rule bit_word_eqI) (use ne bits in \<open>auto simp: bit_and_iff\<close>)
    then have sum: "?w1 + ?w2 = ?w1 OR ?w2" by (rule disjunctive_add_eq_or)
    have "ws = ?w1 + ?w2" using 1(3) False by (simp add: Let_def)
    then have "ws = ?w1 OR ?w2" unfolding sum .
    then show ?thesis using bits ne 1(2) by (auto simp: bit_or_iff)
  qed
qed simp_all

lemma gen_write_set_returns:
  "push_bit d1 (1 :: u16) \<noteq> push_bit d2 1 \<Longrightarrow> \<exists>ws. gen_random_write_set (concat (map (\<lambda>d. [d, d]) ds) @ d1 # d2 # es) = Some ws"
  by (induction ds) (simp_all add: Let_def)

lemma gen_txn_steps:
  assumes "length ret0 = n" and "k \<le> n" and "distinct (take k draws)" and "k \<le> length draws"
    and "set (take k draws) \<inter> set ret0 = {}"
  shows "fold (\<lambda>i ret. if draws ! i \<in> set ret then ret else ret[i := draws ! i]) [0..<k] ret0 = take k draws @ drop k ret0"
  using assms(2-5)
proof (induction k)
  case (Suc k)
  have tk: "take (Suc k) draws = take k draws @ [draws ! k]" using Suc.prems by (simp add: take_Suc_conv_app_nth)
  then have new: "draws ! k \<notin> set (take k draws)" "draws ! k \<notin> set ret0" using Suc.prems by auto
  have IH: "fold (\<lambda>i ret. if draws ! i \<in> set ret then ret else ret[i := draws ! i]) [0..<k] ret0 = take k draws @ drop k ret0"
    using Suc tk by auto
  have "draws ! k \<notin> set (drop k ret0)" using new(2) by (meson in_set_dropD)
  then show ?case using new(1) tk Suc.prems assms(1)
    by (simp add: IH list_update_append Cons_nth_drop_Suc [symmetric])
qed simp

lemma gen_txn_distinct:
  assumes "length ret0 = ROWS_PER_TX" and "length draws = ROWS_PER_TX" and "distinct draws" and "set draws \<inter> set ret0 = {}"
  shows "gen_random_txn draws ret0 = draws"
  using gen_txn_steps [of ret0 ROWS_PER_TX ROWS_PER_TX draws] assms by (simp add: gen_random_txn_def)

text \<open>A repeated draw leaves an element of the array as it was, uninitialised.\<close>

lemma repeated_draw_stays:
  assumes "length ret0 = ROWS_PER_TX" and "length draws = ROWS_PER_TX" and "draws ! 1 = draws ! 0" and "draws ! 0 \<notin> set ret0"
    and "\<forall>r\<in>set ret0. length rows \<le> r"
  shows "process_txn_closure ws (gen_random_txn draws ret0) rows = Inl OutOfBounds"
proof -
  let ?f = "\<lambda>i ret. if draws ! i \<in> set ret then ret else ret[i := draws ! i]"
  have stays: "fold ?f is ret ! 1 = ret ! 1" if "1 \<notin> set is" for "is" ret
    using that by (induction "is" arbitrary: ret) auto
  have "fold ?f [0, 1] ret0 = ret0[0 := draws ! 0]"
    using assms(1,3,4) set_update_memI [of 0 ret0 "draws ! 0"] by (simp add: ROWS_PER_TX_def)
  then have "fold ?f (0 # 1 # [2..<ROWS_PER_TX]) ret0 = fold ?f [2..<ROWS_PER_TX] (ret0[0 := draws ! 0])" by simp
  moreover have "[0..<ROWS_PER_TX] = 0 # 1 # [2..<ROWS_PER_TX]" by (simp add: ROWS_PER_TX_def upt_rec)
  ultimately have "gen_random_txn draws ret0 ! 1 = ret0[0 := draws ! 0] ! 1"
    unfolding gen_random_txn_def by (simp only:) (rule stays, simp)
  then have "length rows \<le> gen_random_txn draws ret0 ! 1"
    using assms(1,5) by (simp add: ROWS_PER_TX_def)
  then show ?thesis unfolding closure_eq process_txn_eq by (auto simp: ROWS_PER_TX_def intro: exI [of _ 1])
qed

text \<open>A run of transactions on rows that exist returns, and keeps the number of rows.\<close>

lemma profile_run_ok:
  assumes "\<forall>(bits, draws, ret0)\<in>set ds. gen_random_write_set bits \<noteq> None \<and> (\<forall>i<ROWS_PER_TX. gen_random_txn draws ret0 ! i < length rows)"
  shows "\<exists>rows'. profile_run ds rows = Some (Inr rows') \<and> length rows' = length rows"
  using assms
proof (induction ds arbitrary: rows)
  case (Cons d ds)
  obtain bits draws ret0 where d: "d = (bits, draws, ret0)" by (cases d)
  from Cons.prems d obtain ws where ws: "gen_random_write_set bits = Some ws" by auto
  have "\<forall>i<ROWS_PER_TX. gen_random_txn draws ret0 ! i < length rows" using Cons.prems d by simp
  then obtain rows1 where r: "profile_txn d rows = Some (Inr rows1)" "length rows1 = length rows"
    by (simp add: profile_txn_def d ws closure_eq process_txn_eq each_rows_length)
  then have "\<exists>rows'. profile_run ds rows1 = Some (Inr rows') \<and> length rows' = length rows1"
    using Cons.prems by (intro Cons.IH) auto
  with r show ?case by simp
qed simp

section \<open>Properties\<close>

text \<open>
  C18. The three formulations of a transaction (a loop, a fold over a closure, ten unrolled blocks) are
  equivalent, errors included; and on indices inside the vector each returns and does to the rows what
  the transaction body of the system does.
\<close>

theorem profile_variants_agree:
  "process_txn_closure ws indices rows = process_txn ws indices rows \<and>
   process_txn_unfold ws indices rows = process_txn ws indices rows \<and>
   (length indices = ROWS_PER_TX \<and> (\<forall>c\<in>set indices. c < length rows) \<longrightarrow>
     (\<exists>rows'. process_txn ws indices rows = Inr rows' \<and> length rows' = length rows \<and>
       (\<forall>c<length rows. rows' ! c = ycsb_body \<lparr>yw_rows = indices, yw_ws_cap = ws, yw_init_time = ts\<rparr> (nth rows) c)))"
proof -
  have "\<exists>rows'. process_txn ws indices rows = Inr rows' \<and> length rows' = length rows \<and>
      (\<forall>c<length rows. rows' ! c = ycsb_body \<lparr>yw_rows = indices, yw_ws_cap = ws, yw_init_time = ts\<rparr> (nth rows) c)"
    if len: "length indices = ROWS_PER_TX" and ok: "\<forall>c\<in>set indices. c < length rows"
  proof -
    have all: "map (nth indices) [0..<ROWS_PER_TX] = indices" using map_nth [of indices] len by simp
    have "process_txn ws indices rows = Inr (snd (snd (fold process_each_row indices (0, ws, rows))))"
      using ok len unfolding process_txn_eq all by (simp add: all_set_conv_all_nth)
    moreover have "rows_sim (fold process_each_row indices (0, ws, rows)) (fold TXN indices (0, ws, nth rows))"
      by (rule each_rows_sim) (use ok in \<open>simp_all add: rows_sim_def\<close>)
    ultimately show ?thesis by (auto simp: rows_sim_def ycsb_body_def each_rows_length)
  qed
  then show ?thesis using closure_eq unfold_eq by metis
qed

theorem profile_variants_agree_witness:
  "\<exists>rows'. process_txn 3 [0, 1, 2, 3, 4, 5, 6, 7, 8, 9] (replicate 10 [7]) = Inr rows' \<and>
     process_txn_unfold 3 [0, 1, 2, 3, 4, 5, 6, 7, 8, 9] (replicate 10 [7]) = Inr rows' \<and> length rows' = 10"
proof -
  have len: "length [0, 1, 2, 3, 4, 5, 6, 7, 8, 9 :: nat] = ROWS_PER_TX" by (simp add: ROWS_PER_TX_def)
  note v = profile_variants_agree [of 3 "[0, 1, 2, 3, 4, 5, 6, 7, 8, 9]" "replicate 10 [7]"]
  have "\<forall>c\<in>set [0, 1, 2, 3, 4, 5, 6, 7, 8, 9]. c < length (replicate 10 [7 :: u8])" by simp
  with v len obtain rows' where "process_txn 3 [0, 1, 2, 3, 4, 5, 6, 7, 8, 9] (replicate 10 [7]) = Inr rows'"
    "length rows' = length (replicate 10 [7 :: u8])" by blast
  with v show ?thesis by auto
qed

end
