(* ===== verification/Latency_Log.thy ===== *)
theory Latency_Log
  imports Tx_Counter Args
begin

text \<open>
  The end of \<open>build_pipelines\<close> in \<^verbatim>\<open>src/doradd/pipeline.hpp\<close>: after twenty seconds the threads of the stages
  are cancelled and the sampled latencies of all live counters are written to the result file, one
  decimal number per line, or two in the build with \<open>LOG_SCHED_OHEAD\<close>.
\<close>

section \<open>Writing\<close>

text \<open>\<open>fprintf(fd, "%u\n", value)\<close> and \<open>fprintf(fd, "%u %u\n", a, b)\<close>.\<close>

definition newline :: char where
  "newline = CHR 0x0A"

definition print_value :: "u32 \<Rightarrow> string" where
  "print_value v = decimal (unat v) @ [newline]"

definition print_pair :: "u32 \<times> u32 \<Rightarrow> string" where
  "print_pair v = decimal (unat (fst v)) @ [CHR '' ''] @ decimal (unat (snd v)) @ [newline]"

text \<open>The entry of a thread in \<open>log_map\<close>: a pointer to the log of its counter, null if there is none.\<close>

definition log_of_thread :: "'t counters \<Rightarrow> 't \<Rightarrow> u32 list option" where
  "log_of_thread w t = map_option log_arr (singletons w t)"

definition flush_entry :: "('v \<Rightarrow> string) \<Rightarrow> 'v list option \<Rightarrow> string" where
  "flush_entry pr entry = (case entry of None \<Rightarrow> [] | Some vs \<Rightarrow> concat (map pr vs))"

text \<open>The loop over \<open>*log_map\<close>, in the order in which the map lists its entries.\<close>

definition flush_latencies :: "'t counters \<Rightarrow> string" where
  "flush_latencies w = concat (map (\<lambda>t. flush_entry print_value (log_of_thread w t)) (log_map w))"

definition log_latency_ohead :: "u32 \<Rightarrow> u32 \<Rightarrow> (u32 \<times> u32) list \<Rightarrow> (u32 \<times> u32) list" where
  "log_latency_ohead exec_time txn_time arr = arr @ [(exec_time, txn_time)]"

definition flush_ohead :: "(u32 \<times> u32) list option list \<Rightarrow> string" where
  "flush_ohead entries = concat (map (flush_entry print_pair) entries)"

section \<open>Reading the file back\<close>

text \<open>Lines end with a newline; the numbers of a line are separated by one blank.\<close>

fun split_on :: "char \<Rightarrow> string \<Rightarrow> string \<Rightarrow> string list" where
  "split_on c acc [] = (if acc = [] then [] else [acc])"
| "split_on c acc (x # xs) = (if x = c then acc # split_on c [] xs else split_on c (acc @ [x]) xs)"

definition file_lines :: "string \<Rightarrow> string list" where
  "file_lines s = split_on newline [] s"

definition line_numbers :: "string \<Rightarrow> nat list" where
  "line_numbers l = map dec_value (split_on (CHR '' '') [] l)"

lemma split_on_word: "c \<notin> set w \<Longrightarrow> split_on c acc (w @ c # rest) = (acc @ w) # split_on c [] rest"
  by (induction w arbitrary: acc) auto

lemma split_on_last: "c \<notin> set w \<Longrightarrow> acc @ w \<noteq> [] \<Longrightarrow> split_on c acc w = [acc @ w]"
  by (induction w arbitrary: acc) auto

lemma decimal_no_char: "\<not> is_digit c \<Longrightarrow> c \<notin> set (decimal n)"
  using decimal_digits by blast

lemma separators: "\<not> is_digit newline" "\<not> is_digit (CHR '' '')" "newline \<noteq> CHR '' ''"
  by (simp_all add: is_digit_def newline_def char_code_def)

lemma lines_of_values:
  "file_lines (concat (map print_value vs) @ rest) = map (\<lambda>v. decimal (unat v)) vs @ file_lines rest"
  by (induction vs) (simp_all add: file_lines_def print_value_def split_on_word decimal_no_char separators)

lemma lines_of_pairs:
  "file_lines (concat (map print_pair vs) @ rest) =
     map (\<lambda>v. decimal (unat (fst v)) @ CHR '' '' # decimal (unat (snd v))) vs @ file_lines rest"
proof (induction vs)
  case (Cons v vs)
  let ?l = "decimal (unat (fst v)) @ CHR '' '' # decimal (unat (snd v))"
  have "newline \<notin> set ?l" using separators decimal_no_char by auto
  then have "file_lines (print_pair v @ s) = ?l # file_lines s" for s
    using split_on_word [of newline ?l "[]" s] by (simp add: file_lines_def print_pair_def)
  then show ?case using Cons by simp
qed simp

lemma line_numbers_value: "line_numbers (decimal n) = [n]"
  using split_on_last [of "CHR '' ''" "decimal n" "[]"]
  by (simp add: line_numbers_def decimal_no_char separators decimal_not_empty dec_value_decimal)

lemma line_numbers_pair: "line_numbers (decimal n @ CHR '' '' # decimal k) = [n, k]"
  using split_on_last [of "CHR '' ''" "decimal k" "[]"]
  by (simp add: line_numbers_def split_on_word decimal_no_char separators decimal_not_empty dec_value_decimal)

lemma concat_map_concat: "concat (map (\<lambda>t. concat (map p (f t))) ts) = concat (map p (concat (map f ts)))"
  by (induction ts) simp_all

section \<open>What is sampled\<close>

text \<open>Every tenth element, from the first on.\<close>

definition sampled :: "'a list \<Rightarrow> 'a list" where
  "sampled xs = map (\<lambda>j. xs ! (10 * j)) [0..<(length xs + 9) div 10]"

lemma sampled_snoc: "sampled (xs @ [x]) = (if 10 dvd length xs then sampled xs @ [x] else sampled xs)"
proof -
  have old: "map (\<lambda>j. (xs @ [x]) ! (10 * j)) [0..<(length xs + 9) div 10] = sampled xs"
    by (auto simp: sampled_def nth_append)
  show ?thesis
  proof (cases "10 dvd length xs")
    case True
    then obtain q where q: "length xs = 10 * q" by blast
    then have "(length (xs @ [x]) + 9) div 10 = Suc q" "(length xs + 9) div 10 = q" by simp_all
    then have "sampled (xs @ [x]) = map (\<lambda>j. (xs @ [x]) ! (10 * j)) [0..<q] @ [(xs @ [x]) ! (10 * q)]"
        "map (\<lambda>j. (xs @ [x]) ! (10 * j)) [0..<q] = sampled xs"
      using old unfolding sampled_def by simp_all
    moreover have "(xs @ [x]) ! (10 * q) = x" using q by (metis nth_append_length)
    ultimately show ?thesis using True by simp
  next
    case False
    then have "0 < length xs mod 10" "length xs mod 10 < 10" by (simp_all add: dvd_eq_mod_eq_0)
    then obtain q r where qr: "length xs = 10 * q + r" "0 < r" "r < 10"
      using mult_div_mod_eq [of 10 "length xs"] by metis
    then have "(length xs + 9) div 10 = Suc q" "(length xs + 10) div 10 = Suc q" by (intro div_nat_eqI; simp)+
    then have "(length (xs @ [x]) + 9) div 10 = (length xs + 9) div 10" by simp
    then show ?thesis using False old by (simp add: sampled_def)
  qed
qed

lemma sampled_start [simp]: "sampled [] = []" "sampled [x] = [x]"
  using sampled_snoc [of "[]"] by (simp_all add: sampled_def)

text \<open>The latencies of the transactions a thread has executed.\<close>

fun latencies :: "(int \<Rightarrow> u32) \<Rightarrow> 't \<Rightarrow> 't tc_event list \<Rightarrow> u32 list" where
  "latencies to_us t [] = []"
| "latencies to_us t (Executed s i n # es) =
     (if s = t then to_us (n - i) # latencies to_us t es else latencies to_us t es)"
| "latencies to_us t (ThreadEnd s # es) = latencies to_us t es"

lemma latencies_append: "latencies to_us t (es @ fs) = latencies to_us t es @ latencies to_us t fs"
  by (induction to_us t es rule: latencies.induct) simp_all

lemma latencies_length: "length (latencies to_us t es) \<le> length es"
  by (induction to_us t es rule: latencies.induct) (auto intro: le_SucI)

definition counter_of :: "u32 list \<Rightarrow> tx_counter option" where
  "counter_of ls = (if ls = [] then None else Some \<lparr>tx_cnt = of_nat (length ls), log_arr = sampled ls\<rparr>)"

lemma executed_counter:
  assumes "singletons w t = counter_of ls" and "length ls < 2 ^ 64"
  shows "singletons (log_then_incr to_us t i n w) t = counter_of (ls @ [to_us (n - i)])"
proof -
  have u: "unat (of_nat (length ls) :: u64) = length ls" using assms(2) by (simp add: unat_of_nat_small)
  have "(of_nat (length ls) :: u64) mod SAMPLE_RATE = 0 \<longleftrightarrow> 10 dvd length ls"
    unfolding SAMPLE_RATE_def word_unat_eq_iff unat_mod_distrib u by (simp add: dvd_eq_mod_eq_0)
  then show ?thesis
    using assms(1) by (cases "ls = []") (auto simp: counter_of_def tc_defs sampled_snoc)
qed

lemma executed_other: "s \<noteq> t \<Longrightarrow> singletons (log_then_incr to_us t i n w) s = singletons w s"
  by (auto simp: tc_defs split: option.splits)

lemma run_counters:
  assumes "\<forall>e\<in>set es. \<exists>t i n. e = Executed t i n" and "length es < 2 ^ 64"
  shows "singletons (fold (tc_step to_us) es no_counters) t = counter_of (latencies to_us t es)"
  using assms
proof (induction es arbitrary: t rule: rev_induct)
  case Nil
  then show ?case by (simp add: no_counters_def counter_of_def)
next
  case (snoc e es)
  obtain s i n where e: "e = Executed s i n" using snoc.prems(1) by auto
  have IH: "singletons (fold (tc_step to_us) es no_counters) t = counter_of (latencies to_us t es)" for t
    using snoc by simp
  have "length (latencies to_us t es) < 2 ^ 64" using latencies_length [of to_us t es] snoc.prems(2) by simp
  then show ?case
    using executed_counter [OF IH] executed_other [of t s to_us i n] IH by (cases "s = t") (simp_all add: e latencies_append)
qed

section \<open>Properties\<close>



end
