(* ===== verification/Slot_Exchange.thy ===== *)
theory Slot_Exchange
  imports Txn_Profile Latency_Log
begin

text \<open>
  The profiler of atomic exchanges, \<^verbatim>\<open>app/atomic_exchange_profile.cpp\<close>: ten million cowns placed at a distance
  of 1024 bytes, and transactions of ten slots each of which is exchanged into the \<open>last_slot\<close> of its
  cown.  Addresses of cowns are offsets from \<open>cown_arr_addr\<close>; the address at which the vector of slots is
  allocated, the clock readings and the conversion of a duration to a logged number are arguments.  An
  access at an offset where no cown was placed is \<open>OutOfBounds\<close>.
\<close>

section \<open>Cowns and slots\<close>

text \<open>A null pointer is 0.\<close>

record Cown =
  last_slot :: u64

record Slot =
  slot_cown :: nat
  slot_status :: u64

definition new_Cown :: Cown where
  "new_Cown = \<lparr>last_slot = 0\<rparr>"

definition new_Slot :: "nat \<Rightarrow> Slot" where
  "new_Slot c = \<lparr>slot_cown = c, slot_status = 0\<rparr>"

definition EX_DB_SIZE :: nat where
  "EX_DB_SIZE = 10000000"

definition EX_BATCH_SIZE :: nat where
  "EX_BATCH_SIZE = 1000000"

text \<open>\<open>(uint64_t)1024 * indices[i]\<close>, a product modulo \<open>2 ^ 64\<close>.\<close>

definition cown_offset :: "nat \<Rightarrow> nat" where
  "cown_offset idx = unat (1024 * of_nat idx :: u64)"

definition place_cowns :: "nat \<Rightarrow> nat \<Rightarrow> Cown option" where
  "place_cowns n = fold (\<lambda>i cowns. cowns(cown_offset i \<mapsto> new_Cown)) [0..<n] Map.empty"

text \<open>\<open>&slots[i]\<close>: a slot is a pointer and an atomic pointer-sized number.\<close>

definition slot_addr :: "u64 \<Rightarrow> nat \<Rightarrow> u64" where
  "slot_addr base i = base + 16 * of_nat i"

definition make_slots :: "nat list \<Rightarrow> Slot list" where
  "make_slots indices = map (\<lambda>i. new_Slot (cown_offset (indices ! i))) [0..<ROWS_PER_TX]"

text \<open>\<open>cown->last_slot.exchange(&slots[i])\<close>: the cowns and the values found there so far.\<close>

definition exchange_slot :: "u64 \<Rightarrow> Slot list \<Rightarrow> nat \<Rightarrow> (nat \<Rightarrow> Cown option) \<times> u64 list \<Rightarrow> ((nat \<Rightarrow> Cown option) \<times> u64 list) result" where
  "exchange_slot base slots i s = rbind (vec_at slots i) (\<lambda>sl.
     case fst s (slot_cown sl) of
       None \<Rightarrow> Inl OutOfBounds
     | Some cown \<Rightarrow> Inr ((fst s)(slot_cown sl \<mapsto> cown\<lparr>last_slot := slot_addr base i\<rparr>), snd s @ [last_slot cown]))"

definition exchange_slots :: "u64 \<Rightarrow> nat list \<Rightarrow> (nat \<Rightarrow> Cown option) \<Rightarrow> ((nat \<Rightarrow> Cown option) \<times> u64 list) result" where
  "exchange_slots base indices cowns = rfold (exchange_slot base (make_slots indices)) [0..<ROWS_PER_TX] (cowns, [])"

section \<open>main\<close>

text \<open>What a transaction meets: the draws, the uninitialised array, the vector's address, two readings of the clock.\<close>

record exchange_input =
  ei_draws :: "nat list"
  ei_ret0 :: "nat list"
  ei_base :: u64
  ei_time_prev :: int
  ei_time_now :: int

definition ei_indices :: "exchange_input \<Rightarrow> nat list" where
  "ei_indices e = gen_random_txn (ei_draws e) (ei_ret0 e)"

definition exchange_txn :: "(int \<Rightarrow> u32) \<Rightarrow> exchange_input \<Rightarrow> (nat \<Rightarrow> Cown option) \<times> u32 list \<Rightarrow> ((nat \<Rightarrow> Cown option) \<times> u32 list) result" where
  "exchange_txn ticks e s =
     rmap (\<lambda>r. (fst r, snd s @ [ticks (ei_time_now e - ei_time_prev e)])) (exchange_slots (ei_base e) (ei_indices e) (fst s))"

text \<open>
  The whole program: the final cowns and the text of \<^verbatim>\<open>profile.log\<close>, which is written through a null
  pointer if the file could not be opened.
\<close>

definition exchange_main :: "(int \<Rightarrow> u32) \<Rightarrow> bool \<Rightarrow> (nat \<Rightarrow> exchange_input) \<Rightarrow> ((nat \<Rightarrow> Cown option) \<times> string) result" where
  "exchange_main ticks opened env =
     rbind
       (rfold (\<lambda>b. exchange_txn ticks (env b)) [0..<EX_BATCH_SIZE] (place_cowns EX_DB_SIZE, []))
       (\<lambda>s. if opened \<or> snd s = [] then Inr (fst s, concat (map print_value (snd s))) else Inl NullPointer)"

section \<open>Where the cowns lie\<close>

lemma cown_offset_eq: "idx < 2 ^ 54 \<Longrightarrow> cown_offset idx = 1024 * idx"
  by (simp add: cown_offset_def unat_word_ariths unat_of_nat)

lemma place_cowns_at:
  "n \<le> 2 ^ 54 \<Longrightarrow> place_cowns n off = (if \<exists>i<n. off = 1024 * i then Some new_Cown else None)"
  unfolding place_cowns_def by (induction n) (auto simp: cown_offset_eq less_Suc_eq)

section \<open>The exchanges as writes in sequence\<close>

text \<open>The writes of one transaction: offsets of cowns with the addresses of their slots.\<close>

definition exchange_writes :: "exchange_input \<Rightarrow> (nat \<times> u64) list" where
  "exchange_writes e = map (\<lambda>i. (cown_offset (ei_indices e ! i), slot_addr (ei_base e) i)) [0..<ROWS_PER_TX]"

text \<open>The last write to a cown, or what it held before.\<close>

definition last_write :: "(nat \<times> u64) list \<Rightarrow> nat \<Rightarrow> u64 \<Rightarrow> u64" where
  "last_write ws off v = (case map_of (rev ws) off of None \<Rightarrow> v | Some a \<Rightarrow> a)"

lemma last_write_simps [simp]:
  "last_write [] off v = v"
  "last_write (ws @ [(o', a)]) off v = (if off = o' then a else last_write ws off v)"
  by (simp_all add: last_write_def)

lemma last_write_append: "last_write (ws @ ws') off v = last_write ws' off (last_write ws off v)"
  by (simp add: last_write_def map_add_def split: option.splits)

text \<open>\<open>cowns\<close> holds the placed cowns \<open>c0\<close> after the writes \<open>ws\<close>.\<close>

definition written :: "(nat \<Rightarrow> Cown option) \<Rightarrow> (nat \<times> u64) list \<Rightarrow> nat \<Rightarrow> Cown option" where
  "written c0 ws off = map_option (\<lambda>c. c\<lparr>last_slot := last_write ws off (last_slot c)\<rparr>) (c0 off)"

lemma written_Nil [simp]: "written c0 [] = c0"
  by (rule ext) (simp add: written_def option.map_ident)

lemma written_snoc:
  "c0 o' = Some c \<Longrightarrow> (written c0 ws)(o' \<mapsto> c\<lparr>last_slot := a\<rparr>) = written c0 (ws @ [(o', a)])"
  by (rule ext) (simp add: written_def)

lemma written_append: "written (written c0 ws) ws' = written c0 (ws @ ws')"
  by (rule ext) (simp add: written_def last_write_append option.map_comp comp_def)

text \<open>An exchange returns what the writes before it left there.\<close>

lemma exchange_slots_written:
  assumes "\<forall>i<ROWS_PER_TX. c0 (cown_offset (ei_indices e ! i)) \<noteq> None"
  shows "exchange_slots (ei_base e) (ei_indices e) c0 = Inr (written c0 (exchange_writes e),
    map (\<lambda>i. last_write (take i (exchange_writes e)) (cown_offset (ei_indices e ! i))
      (last_slot (the (c0 (cown_offset (ei_indices e ! i)))))) [0..<ROWS_PER_TX])"
proof -
  let ?ws = "exchange_writes e" and ?o = "\<lambda>i. cown_offset (ei_indices e ! i)"
  let ?P = "\<lambda>k s. s = (written c0 (take k ?ws), map (\<lambda>i. last_write (take i ?ws) (?o i) (last_slot (the (c0 (?o i))))) [0..<k])"
  have step: "\<exists>s'. exchange_slot (ei_base e) (make_slots (ei_indices e)) i s = Inr s' \<and> ?P (Suc i) s'"
    if i: "i < ROWS_PER_TX" and s: "?P i s" for i s
  proof -
    obtain c where c: "c0 (?o i) = Some c" using assms i by blast
    have tk: "take (Suc i) ?ws = take i ?ws @ [(?o i, slot_addr (ei_base e) i)]"
      using i by (simp add: exchange_writes_def take_Suc_conv_app_nth)
    have "vec_at (make_slots (ei_indices e)) i = Inr (new_Slot (?o i))" using i by (simp add: vec_at_def make_slots_def)
    then show ?thesis using c s written_snoc [of c0 "?o i" c "take i ?ws", OF c]
      by (simp add: exchange_slot_def new_Slot_def tk written_def [of c0 "take i ?ws" "?o i"])
  qed
  from rfold_upt_total [of ?P "(c0, [])" ROWS_PER_TX] step have
    "\<exists>s'. exchange_slots (ei_base e) (ei_indices e) c0 = Inr s' \<and> ?P ROWS_PER_TX s'"
    unfolding exchange_slots_def by simp
  then show ?thesis by (simp add: exchange_writes_def)
qed

definition exchange_ok :: "exchange_input \<Rightarrow> bool" where
  "exchange_ok e \<longleftrightarrow> length (ei_draws e) = ROWS_PER_TX \<and> length (ei_ret0 e) = ROWS_PER_TX \<and>
     distinct (ei_draws e) \<and> set (ei_draws e) \<inter> set (ei_ret0 e) = {} \<and> (\<forall>d\<in>set (ei_draws e). d < EX_DB_SIZE)"

lemma exchange_ok_indices: "exchange_ok e \<Longrightarrow> ei_indices e = ei_draws e"
  by (simp add: exchange_ok_def ei_indices_def gen_txn_distinct)

lemma exchange_ok_placed:
  assumes "exchange_ok e" and "i < ROWS_PER_TX"
  shows "place_cowns EX_DB_SIZE (cown_offset (ei_indices e ! i)) \<noteq> None"
proof -
  have lt: "ei_draws e ! i < EX_DB_SIZE" using assms by (simp add: exchange_ok_def)
  then have "cown_offset (ei_draws e ! i) = 1024 * (ei_draws e ! i)" by (intro cown_offset_eq) (simp add: EX_DB_SIZE_def)
  then show ?thesis using lt exchange_ok_indices [OF assms(1)] by (auto simp: place_cowns_at EX_DB_SIZE_def)
qed

lemma written_dom: "written c0 ws off = None \<longleftrightarrow> c0 off = None"
  by (simp add: written_def)

text \<open>
  The program ends when every transaction draws ten different cowns; it logs one duration per transaction,
  and in the end every cown holds the slot last exchanged into it.
\<close>

lemma exchange_run:
  assumes "\<forall>b<n. exchange_ok (env b)"
  shows "rfold (\<lambda>b. exchange_txn ticks (env b)) [0..<n] (place_cowns EX_DB_SIZE, []) =
    Inr (written (place_cowns EX_DB_SIZE) (concat (map (\<lambda>b. exchange_writes (env b)) [0..<n])),
      map (\<lambda>b. ticks (ei_time_now (env b) - ei_time_prev (env b))) [0..<n])"
  using assms
proof (induction n)
  case (Suc n)
  let ?c = "written (place_cowns EX_DB_SIZE) (concat (map (\<lambda>b. exchange_writes (env b)) [0..<n]))"
  have "\<forall>i<ROWS_PER_TX. ?c (cown_offset (ei_indices (env n) ! i)) \<noteq> None"
    using exchange_ok_placed Suc.prems by (simp add: written_dom)
  from exchange_slots_written [OF this] show ?case
    using Suc by (simp add: rfold_append exchange_txn_def written_append)
qed simp

lemma exchange_main_ok:
  assumes "\<forall>b<EX_BATCH_SIZE. exchange_ok (env b)"
  shows "exchange_main ticks True env =
    Inr (written (place_cowns EX_DB_SIZE) (concat (map (\<lambda>b. exchange_writes (env b)) [0..<EX_BATCH_SIZE])),
      concat (map (\<lambda>b. print_value (ticks (ei_time_now (env b) - ei_time_prev (env b)))) [0..<EX_BATCH_SIZE]))"
  using assms by (simp add: exchange_main_def exchange_run comp_def)

text \<open>A cown no transaction names keeps its null pointer.\<close>

lemma exchange_main_untouched:
  assumes "\<forall>b<EX_BATCH_SIZE. exchange_ok (env b)" and "exchange_main ticks True env = Inr (cowns, out)"
    and "c < EX_DB_SIZE" and "\<forall>b<EX_BATCH_SIZE. c \<notin> set (ei_draws (env b))"
  shows "cowns (1024 * c) = Some new_Cown"
proof -
  let ?ws = "concat (map (\<lambda>b. exchange_writes (env b)) [0..<EX_BATCH_SIZE])"
  have placed: "place_cowns EX_DB_SIZE (1024 * c) = Some new_Cown"
    using assms(3) by (auto simp: place_cowns_at EX_DB_SIZE_def)
  have "1024 * c \<noteq> cown_offset (ei_indices (env b) ! i)" if "b < EX_BATCH_SIZE" "i < ROWS_PER_TX" for b i
  proof -
    have ok: "exchange_ok (env b)" using assms(1) that by simp
    then have m: "ei_draws (env b) ! i \<in> set (ei_draws (env b))" using that by (simp add: exchange_ok_def)
    with ok have "ei_draws (env b) ! i < EX_DB_SIZE" by (simp add: exchange_ok_def)
    then have "cown_offset (ei_indices (env b) ! i) = 1024 * (ei_draws (env b) ! i)"
      using exchange_ok_indices [OF ok] by (simp add: cown_offset_eq EX_DB_SIZE_def)
    then show ?thesis using m assms(4) that by auto
  qed
  then have "map_of (rev ?ws) (1024 * c) = None"
    unfolding map_of_eq_None_iff by (fastforce simp: exchange_writes_def)
  moreover have "cowns = written (place_cowns EX_DB_SIZE) ?ws"
    using assms(2) exchange_main_ok [OF assms(1), of ticks] by simp
  ultimately show ?thesis using placed by (simp add: written_def last_write_def new_Cown_def)
qed

end
