(* ===== verification/Pipe_Profile.thy ===== *)
theory Pipe_Profile
  imports Pipeline Hpage Args
begin

text \<open>
  The pipeline profiler \<^verbatim>\<open>app/pipeline-profile\<close>: a chain of cores, each of which goes through the same
  records in batches of eight and hands a token to the next core through a ring, until each has
  processed forty million records.  The state is that of all cores and rings; \<open>prof_step\<close> is one
  action of one core (a batch, a successful \<open>push\<close>, a \<open>pop\<close>), in any interleaving.  The locale
  \<open>record_process\<close> is what the cores need of a transaction; reading and writing satisfy it.
\<close>

section \<open>Records and cores\<close>

definition BATCH_SZ :: nat where
  "BATCH_SZ = 8"

definition TERMINATION_COUNT :: int where
  "TERMINATION_COUNT = 40000000"

definition sizeof_TxnMarshalled :: nat where
  "sizeof_TxnMarshalled = 64"

type_synonym process = "nat \<Rightarrow> mem \<Rightarrow> (nat \<times> mem) result"

definition ReadTxn_process :: process where
  "ReadTxn_process input m = rmap (\<lambda>_. (sizeof_TxnMarshalled, m)) (load_u64 input m)"

definition WriteTxn_process :: process where
  "WriteTxn_process input m = rmap (Pair sizeof_TxnMarshalled) (store_u64 input 1 m)"

text \<open>Where a core stands in its loop: at the head, before its \<open>push\<close>, before its \<open>pop\<close>.\<close>

datatype phase = Running | Pushing | Popping

record prof_worker =
  pw_cnt :: int
  pw_processed :: int
  pw_head :: nat
  pw_phase :: phase

definition new_worker :: prof_worker where
  "new_worker = \<lparr>pw_cnt = 0, pw_processed = 0, pw_head = 0, pw_phase = Running\<rparr>"

definition pw_dispatch_one :: "process \<Rightarrow> prof_worker \<times> mem \<Rightarrow> (prof_worker \<times> mem) result" where
  "pw_dispatch_one P s = (case s of (w, m) \<Rightarrow>
     rmap (\<lambda>(ret, m'). (w\<lparr>pw_head := pw_head w + ret, pw_cnt := pw_cnt w + 1\<rparr>, m')) (P (pw_head w) m))"

definition pw_dispatch_batch :: "process \<Rightarrow> int \<Rightarrow> prof_worker \<Rightarrow> mem \<Rightarrow> (prof_worker \<times> mem) result" where
  "pw_dispatch_batch P rc w m =
     (let w1 = (if pw_cnt w > rc - int BATCH_SZ then w\<lparr>pw_head := 0, pw_cnt := 0\<rparr> else w) in
      rmap (\<lambda>(w2, m2). (w2\<lparr>pw_processed := pw_processed w2 + int BATCH_SZ\<rparr>, m2))
        (rfold (\<lambda>_. pw_dispatch_one P) [0..<BATCH_SZ] (w1, m)))"

definition pw_terminate :: "prof_worker \<Rightarrow> bool" where
  "pw_terminate w \<longleftrightarrow> pw_processed w \<ge> TERMINATION_COUNT"

section \<open>The chain of cores\<close>

text \<open>Core \<open>0\<close> is the first core; core \<open>j + 1\<close> reads ring \<open>j\<close>; the last core counts and prints.\<close>

record 'q prof =
  pp_mem :: mem
  pp_cores :: "prof_worker list"
  pp_rings :: "'q list"
  pp_tx_cnt :: int
  pp_prints :: "int list"

definition count_batch :: "'q prof \<Rightarrow> 'q prof" where
  "count_batch s =
     (if pp_tx_cnt s \<ge> 1000000 then s\<lparr>pp_tx_cnt := 0, pp_prints := pp_prints s @ [pp_tx_cnt s + 1]\<rparr>
      else s\<lparr>pp_tx_cnt := pp_tx_cnt s + 1\<rparr>)"

inductive prof_step :: "'q spsc \<Rightarrow> process \<Rightarrow> int \<Rightarrow> 'q prof \<Rightarrow> 'q prof \<Rightarrow> bool"
  for Q :: "'q spsc" and P :: process and rc :: int where
  step_first: "pp_cores s ! 0 = w \<Longrightarrow> pw_phase w = Running \<Longrightarrow> \<not> pw_terminate w \<Longrightarrow>
    pw_dispatch_batch P rc w (pp_mem s) = Inr (w', m) \<Longrightarrow>
    prof_step Q P rc s (s\<lparr>pp_mem := m, pp_cores := (pp_cores s)[0 := w'\<lparr>pw_phase := Pushing\<rparr>]\<rparr>)"
| step_core: "Suc j < length (pp_cores s) \<Longrightarrow> pp_cores s ! Suc j = w \<Longrightarrow> pw_phase w = Running \<Longrightarrow> \<not> pw_terminate w \<Longrightarrow>
    q_front Q (pp_rings s ! j) \<noteq> None \<Longrightarrow> pw_dispatch_batch P rc w (pp_mem s) = Inr (w', m) \<Longrightarrow>
    prof_step Q P rc s (s\<lparr>pp_mem := m, pp_cores := (pp_cores s)[Suc j :=
      w'\<lparr>pw_phase := if Suc (Suc j) = length (pp_cores s) then Popping else Pushing\<rparr>]\<rparr>)"
| step_push: "Suc i < length (pp_cores s) \<Longrightarrow> pp_cores s ! i = w \<Longrightarrow> pw_phase w = Pushing \<Longrightarrow>
    q_push Q (int BATCH_SZ) (pp_rings s ! i) = Some q \<Longrightarrow>
    prof_step Q P rc s (s\<lparr>pp_rings := (pp_rings s)[i := q],
      pp_cores := (pp_cores s)[i := w\<lparr>pw_phase := if i = 0 then Running else Popping\<rparr>]\<rparr>)"
| step_pop: "Suc j < length (pp_cores s) \<Longrightarrow> pp_cores s ! Suc j = w \<Longrightarrow> pw_phase w = Popping \<Longrightarrow>
    prof_step Q P rc s ((if Suc (Suc j) = length (pp_cores s) then count_batch else (\<lambda>s. s))
      (s\<lparr>pp_rings := (pp_rings s)[j := q_pop Q (pp_rings s ! j)],
         pp_cores := (pp_cores s)[Suc j := w\<lparr>pw_phase := Running\<rparr>]\<rparr>))"

inductive_cases prof_stepE: "prof_step Q P rc s t"

text \<open>Runs with the number of their actions.\<close>

inductive prof_run :: "'q spsc \<Rightarrow> process \<Rightarrow> int \<Rightarrow> 'q prof \<Rightarrow> nat \<Rightarrow> 'q prof \<Rightarrow> bool"
  for Q :: "'q spsc" and P :: process and rc :: int and s0 :: "'q prof" where
  prof_start: "prof_run Q P rc s0 0 s0"
| prof_next: "prof_run Q P rc s0 k s \<Longrightarrow> prof_step Q P rc s t \<Longrightarrow> prof_run Q P rc s0 (Suc k) t"

definition runPipeline :: "nat \<Rightarrow> 'q \<Rightarrow> mem \<Rightarrow> 'q prof" where
  "runPipeline cnt ring m =
     \<lparr>pp_mem = m, pp_cores = replicate (cnt + 2) new_worker, pp_rings = replicate (cnt + 1) ring, pp_tx_cnt = 0, pp_prints = []\<rparr>"

text \<open>\<open>main\<close>: the arguments, a thousand zeroed records, the pipeline.\<close>

definition ent_cnt :: nat where
  "ent_cnt = 1000"

definition zero_records :: "mem \<Rightarrow> mem result" where
  "zero_records m = rfold (\<lambda>i. store_u64 (i * sizeof_TxnMarshalled) 0) [0..<ent_cnt] m"

definition profile_main :: "hpage_env \<Rightarrow> 'q \<Rightarrow> string list \<Rightarrow> (process \<times> 'q prof) result" where
  "profile_main H ring argv =
     (if length argv \<noteq> 3 then Inl BadArgument
      else rbind (atoi (argv ! 1)) (\<lambda>coreCnt.
        if coreCnt < 2 then Inl BadArgument
        else if argv ! 2 \<noteq> ''read'' \<and> argv ! 2 \<noteq> ''write'' then Inl BadArgument
        else rbind (aligned_alloc_hpage H (ent_cnt * sizeof_TxnMarshalled)) (\<lambda>(_, m0).
          rmap (\<lambda>m. (if argv ! 2 = ''read'' then ReadTxn_process else WriteTxn_process,
                     runPipeline (nat (coreCnt - 2)) ring m)) (zero_records m0))))"

section \<open>The contract of a transaction\<close>

text \<open>The position of a core between two batches.\<close>

definition core_ok :: "int \<Rightarrow> prof_worker \<Rightarrow> bool" where
  "core_ok rc w \<longleftrightarrow> 0 \<le> pw_cnt w \<and> pw_cnt w \<le> rc \<and> pw_head w = 64 * nat (pw_cnt w)"

text \<open>
  How many batches a core has done, pushed on and popped, and the tokens of a ring: those pushed by
  the core before it and not popped by the core after it.
\<close>

definition batches :: "prof_worker \<Rightarrow> nat" where
  "batches w = nat (pw_processed w) div 8"

definition pushed :: "prof_worker \<Rightarrow> nat" where
  "pushed w = (if pw_phase w = Pushing then batches w - 1 else batches w)"

definition popped :: "prof_worker \<Rightarrow> nat" where
  "popped w = (if pw_phase w = Running then batches w else batches w - 1)"

definition finished :: "prof_worker \<Rightarrow> bool" where
  "finished w \<longleftrightarrow> pw_phase w = Running \<and> batches w = 5000000"

definition core_inv :: "int \<Rightarrow> prof_worker \<Rightarrow> bool" where
  "core_inv rc w \<longleftrightarrow> core_ok rc w \<and> pw_processed w = 8 * int (batches w) \<and> batches w \<le> 5000000 \<and>
     (pw_phase w \<noteq> Running \<longrightarrow> 0 < batches w)"

definition link :: "int list \<Rightarrow> prof_worker \<Rightarrow> prof_worker \<Rightarrow> bool" where
  "link tokens w w' \<longleftrightarrow> length tokens + popped w' = pushed w \<and> (pw_phase w' \<noteq> Running \<longrightarrow> tokens \<noteq> [])"

definition links :: "('q \<Rightarrow> int list) \<Rightarrow> 'q list \<Rightarrow> prof_worker list \<Rightarrow> bool" where
  "links items R C \<longleftrightarrow> (\<forall>j. Suc j < length C \<longrightarrow> link (items (R ! j)) (C ! j) (C ! Suc j))"

definition prof_inv :: "int \<Rightarrow> ('q \<Rightarrow> int list) \<Rightarrow> 'q prof \<Rightarrow> bool" where
  "prof_inv rc items s \<longleftrightarrow> 2 \<le> length (pp_cores s) \<and> Suc (length (pp_rings s)) = length (pp_cores s) \<and>
     64 * nat rc \<le> length (pp_mem s) \<and> (\<forall>w\<in>set (pp_cores s). core_inv rc w) \<and>
     pw_phase (pp_cores s ! 0) \<noteq> Popping \<and> pw_phase (last (pp_cores s)) \<noteq> Pushing \<and> links items (pp_rings s) (pp_cores s)"

lemma links_update:
  assumes "links items R C" and "i < length C"
    and "\<And>j. j \<noteq> i \<Longrightarrow> Suc j \<noteq> i \<Longrightarrow> R' ! j = R ! j"
    and "\<And>j. i = Suc j \<Longrightarrow> link (items (R' ! j)) (C ! j) w"
    and "Suc i < length C \<Longrightarrow> link (items (R' ! i)) w (C ! Suc i)"
  shows "links items R' (C[i := w])"
  using assms by (auto simp: links_def nth_list_update)

lemma linksD: "links items R C \<Longrightarrow> Suc j < length C \<Longrightarrow> link (items (R ! j)) (C ! j) (C ! Suc j)"
  by (simp add: links_def)

text \<open>What remains to be done: at most three actions for each batch.\<close>

definition core_work :: "prof_worker \<Rightarrow> nat" where
  "core_work w = 3 * (5000000 - batches w) + (case pw_phase w of Running \<Rightarrow> 0 | Pushing \<Rightarrow> 2 | Popping \<Rightarrow> 1)"

definition prof_work :: "'q prof \<Rightarrow> nat" where
  "prof_work s = sum_list (map core_work (pp_cores s))"

lemma work_update:
  assumes "i < length C" and "core_work w < core_work (C ! i)"
  shows "sum_list (map core_work (C[i := w])) < sum_list (map core_work C)"
proof -
  have "core_work (C ! i) \<le> sum_list (map core_work C)" using assms(1) elem_le_sum_list [of i "map core_work C"] by simp
  then show ?thesis using assms by (simp add: map_update sum_list_update)
qed

lemma core_work_simps:
  "core_work (w\<lparr>pw_phase := Running\<rparr>) = 3 * (5000000 - batches w)"
  "core_work (w\<lparr>pw_phase := Pushing\<rparr>) = 3 * (5000000 - batches w) + 2"
  "core_work (w\<lparr>pw_phase := Popping\<rparr>) = 3 * (5000000 - batches w) + 1"
  by (simp_all add: core_work_def batches_def)

lemma batches_phase [simp]: "batches (w\<lparr>pw_phase := p\<rparr>) = batches w"
  by (simp add: batches_def)

lemma core_ok_phase [simp]: "core_ok rc (w\<lparr>pw_phase := p\<rparr>) = core_ok rc w"
  by (simp add: core_ok_def)

locale record_process =
  fixes P :: process
  assumes process_ok: "off + 64 \<le> length m \<Longrightarrow> \<exists>m'. P off m = Inr (64, m') \<and> length m' = length m"
begin

lemma dispatch_loop:
  assumes "pw_head w + 64 * n \<le> length m"
  shows "\<exists>m'. rfold (\<lambda>_. pw_dispatch_one P) [0..<n] (w, m) =
    Inr (w\<lparr>pw_head := pw_head w + 64 * n, pw_cnt := pw_cnt w + int n\<rparr>, m') \<and> length m' = length m"
  using assms
proof (induction n)
  case (Suc n)
  then obtain m1 where m1: "rfold (\<lambda>_. pw_dispatch_one P) [0..<n] (w, m) =
      Inr (w\<lparr>pw_head := pw_head w + 64 * n, pw_cnt := pw_cnt w + int n\<rparr>, m1)" "length m1 = length m" by auto
  obtain m2 where m2: "P (pw_head w + 64 * n) m1 = Inr (64, m2)" "length m2 = length m1"
    using process_ok [of "pw_head w + 64 * n" m1] m1(2) Suc.prems by auto
  have "pw_dispatch_one P (w\<lparr>pw_head := pw_head w + 64 * n, pw_cnt := pw_cnt w + int n\<rparr>, m1) =
      Inr (w\<lparr>pw_head := pw_head w + 64 * Suc n, pw_cnt := pw_cnt w + int (Suc n)\<rparr>, m2)"
    using m2(1) by (simp add: pw_dispatch_one_def add.commute add.left_commute)
  then show ?case using m1 m2(2) by (simp add: rfold_append)
qed simp

lemma dispatch_batch_ok:
  assumes "core_ok rc w" and "8 \<le> rc" and "64 * nat rc \<le> length m"
  shows "\<exists>w' m'. pw_dispatch_batch P rc w m = Inr (w', m') \<and> length m' = length m \<and> core_ok rc w' \<and>
    pw_processed w' = pw_processed w + 8"
proof -
  let ?w = "if pw_cnt w > rc - 8 then w\<lparr>pw_head := 0, pw_cnt := 0\<rparr> else w"
  have w: "0 \<le> pw_cnt ?w" "pw_cnt ?w + 8 \<le> rc" "pw_head ?w = 64 * nat (pw_cnt ?w)" "pw_processed ?w = pw_processed w"
    using assms(1,2) by (auto simp: core_ok_def)
  then have "pw_head ?w + 64 * 8 \<le> length m" using assms(3) by linarith
  then obtain m' where "rfold (\<lambda>_. pw_dispatch_one P) [0..<8] (?w, m) =
      Inr (?w\<lparr>pw_head := pw_head ?w + 64 * 8, pw_cnt := pw_cnt ?w + int 8\<rparr>, m')" "length m' = length m"
    using dispatch_loop by blast
  moreover have "nat (pw_cnt ?w + 8) = nat (pw_cnt ?w) + 8" using w(1) by simp
  ultimately show ?thesis using w by (simp add: pw_dispatch_batch_def BATCH_SZ_def core_ok_def Let_def)
qed

text \<open>One batch of a core that has not finished.\<close>

lemma batch_facts:
  assumes "core_inv rc w" and "8 \<le> rc" and "64 * nat rc \<le> length m" and "\<not> pw_terminate w"
  shows "\<exists>w' m'. pw_dispatch_batch P rc w m = Inr (w', m') \<and> length m' = length m \<and> core_ok rc w' \<and>
    pw_processed w' = 8 * int (batches w') \<and> batches w' = Suc (batches w) \<and> batches w' \<le> 5000000"
proof -
  have ok: "core_ok rc w" using assms(1) by (simp add: core_inv_def)
  obtain w' m' where d: "pw_dispatch_batch P rc w m = Inr (w', m')" "length m' = length m" "core_ok rc w'"
      "pw_processed w' = pw_processed w + 8"
    using dispatch_batch_ok [OF ok assms(2,3)] by blast
  have "batches w' = Suc (batches w)" using d(4) assms(1) by (simp add: batches_def core_inv_def nat_add_distrib)
  moreover have "batches w < 5000000" using assms(1,4) by (simp add: core_inv_def pw_terminate_def TERMINATION_COUNT_def)
  ultimately show ?thesis using d assms(1) by (auto simp: core_inv_def)
qed

text \<open>Every action keeps the invariant and leaves less to do.\<close>

lemma core_inv_of: "prof_inv rc items s \<Longrightarrow> i < length (pp_cores s) \<Longrightarrow> core_inv rc (pp_cores s ! i)"
  by (simp add: prof_inv_def)

lemma prof_inv_update:
  assumes "prof_inv rc items s" and "i < length (pp_cores s)" and "core_inv rc w" and "length m = length (pp_mem s)"
    and "length R = length (pp_rings s)" and "i = 0 \<Longrightarrow> pw_phase w \<noteq> Popping"
    and "Suc i = length (pp_cores s) \<Longrightarrow> pw_phase w \<noteq> Pushing"
    and "links items R ((pp_cores s)[i := w])" and "core_work w < core_work (pp_cores s ! i)"
  shows "prof_inv rc items (s\<lparr>pp_mem := m, pp_rings := R, pp_cores := (pp_cores s)[i := w]\<rparr>) \<and>
    prof_work (s\<lparr>pp_mem := m, pp_rings := R, pp_cores := (pp_cores s)[i := w]\<rparr>) < prof_work s"
proof -
  have "pp_cores s \<noteq> []" using assms(2) by auto
  then have "last ((pp_cores s)[i := w]) = (if Suc i = length (pp_cores s) then w else last (pp_cores s))"
    using assms(2) by (auto simp: last_list_update)
  then show ?thesis
    using assms work_update [OF assms(2,9)] set_update_subset_insert [of "pp_cores s" i w]
    by (auto simp: prof_inv_def prof_work_def nth_list_update)
qed

lemma count_batch_inv:
  "prof_inv rc items (count_batch s) = prof_inv rc items s" "prof_work (count_batch s) = prof_work s"
  by (simp_all add: count_batch_def prof_inv_def prof_work_def)

lemma batch_step:
  assumes inv: "prof_inv rc items s" and rc: "8 \<le> rc" and i: "i < length (pp_cores s)"
    and run: "pw_phase (pp_cores s ! i) = Running" "\<not> pw_terminate (pp_cores s ! i)"
    and d: "pw_dispatch_batch P rc (pp_cores s ! i) (pp_mem s) = Inr (w', m)"
    and p: "p = (if Suc i = length (pp_cores s) then Popping else Pushing)"
    and ring: "\<And>j. i = Suc j \<Longrightarrow> items (pp_rings s ! j) \<noteq> []"
  shows "prof_inv rc items (s\<lparr>pp_mem := m, pp_cores := (pp_cores s)[i := w'\<lparr>pw_phase := p\<rparr>]\<rparr>) \<and>
    prof_work (s\<lparr>pp_mem := m, pp_cores := (pp_cores s)[i := w'\<lparr>pw_phase := p\<rparr>]\<rparr>) < prof_work s"
proof -
  let ?w = "pp_cores s ! i" and ?w' = "w'\<lparr>pw_phase := p\<rparr>"
  have mem: "64 * nat rc \<le> length (pp_mem s)" and lk: "links items (pp_rings s) (pp_cores s)" and two: "2 \<le> length (pp_cores s)"
    using inv by (simp_all add: prof_inv_def)
  have b: "length m = length (pp_mem s)" "core_ok rc w'" "pw_processed w' = 8 * int (batches w')"
      "batches w' = Suc (batches ?w)" "batches w' \<le> 5000000"
    using batch_facts [OF core_inv_of [OF inv i] rc mem run(2)] d by auto
  have ci: "core_inv rc ?w'" using b by (simp add: core_inv_def)
  have ne: "p \<noteq> Running" by (simp add: p)
  have pp: "popped ?w' = popped ?w" "Suc i < length (pp_cores s) \<Longrightarrow> pushed ?w' = pushed ?w"
    using b(4) run(1) ne by (simp_all add: popped_def pushed_def p)
  have "links items (pp_rings s) ((pp_cores s)[i := ?w'])"
  proof (rule links_update [OF lk i])
    fix j assume "i = Suc j"
    then show "link (items (pp_rings s ! j)) (pp_cores s ! j) ?w'"
      using linksD [OF lk, of j] ring i pp(1) by (simp add: link_def)
  next
    assume "Suc i < length (pp_cores s)"
    then show "link (items (pp_rings s ! i)) ?w' (pp_cores s ! Suc i)" using linksD [OF lk] pp(2) by (simp add: link_def)
  qed simp
  moreover have "core_work ?w' < core_work ?w"
    using b(4,5) run(1) by (cases p) (simp_all add: core_work_simps, simp_all add: core_work_def)
  ultimately show ?thesis
    using prof_inv_update [OF inv i ci b(1), of "pp_rings s"] two by (auto simp: p)
qed

lemma push_step:
  assumes inv: "prof_inv rc items s" and Q: "spsc_ok Q items" and i: "Suc i < length (pp_cores s)"
    and ph: "pw_phase (pp_cores s ! i) = Pushing" and q: "q_push Q (int BATCH_SZ) (pp_rings s ! i) = Some q"
    and p: "p = (if i = 0 then Running else Popping)"
  shows "prof_inv rc items (s\<lparr>pp_rings := (pp_rings s)[i := q], pp_cores := (pp_cores s)[i := (pp_cores s ! i)\<lparr>pw_phase := p\<rparr>]\<rparr>) \<and>
    prof_work (s\<lparr>pp_rings := (pp_rings s)[i := q], pp_cores := (pp_cores s)[i := (pp_cores s ! i)\<lparr>pw_phase := p\<rparr>]\<rparr>) < prof_work s"
proof -
  let ?w = "pp_cores s ! i" let ?w' = "?w\<lparr>pw_phase := p\<rparr>" and ?R = "(pp_rings s)[i := q]"
  have lk: "links items (pp_rings s) (pp_cores s)" and len: "Suc (length (pp_rings s)) = length (pp_cores s)"
    using inv by (simp_all add: prof_inv_def)
  have ci: "core_inv rc ?w" using core_inv_of [OF inv] i by simp
  then have ci': "core_inv rc ?w'" and b: "0 < batches ?w" using ph by (auto simp: core_inv_def)
  have "links items ?R ((pp_cores s)[i := ?w'])"
  proof (rule links_update [OF lk])
    fix j assume j: "i = Suc j"
    then have "popped ?w' = popped ?w" "p = Popping" using ph by (simp_all add: popped_def p)
    then show "link (items (?R ! j)) (pp_cores s ! j) ?w'" using linksD [OF lk, of j] j i ph by (simp add: link_def)
  next
    have "pushed ?w' = Suc (pushed ?w)" using ph b by (simp add: pushed_def p)
    then show "link (items (?R ! i)) ?w' (pp_cores s ! Suc i)"
      using linksD [OF lk i] spsc_pushD [OF Q q] i len by (simp add: link_def)
  qed (use i in auto)
  moreover have "core_work ?w' < core_work ?w" using ph by (cases "i = 0") (simp_all add: p core_work_simps, simp_all add: core_work_def)
  ultimately show ?thesis
    using prof_inv_update [OF inv _ ci' refl, of i ?R] i by (auto simp: p)
qed

lemma pop_step:
  assumes inv: "prof_inv rc items s" and Q: "spsc_ok Q items" and j: "Suc j < length (pp_cores s)"
    and ph: "pw_phase (pp_cores s ! Suc j) = Popping"
  shows "let t = s\<lparr>pp_rings := (pp_rings s)[j := q_pop Q (pp_rings s ! j)],
        pp_cores := (pp_cores s)[Suc j := (pp_cores s ! Suc j)\<lparr>pw_phase := Running\<rparr>]\<rparr> in
    prof_inv rc items t \<and> prof_work t < prof_work s"
proof -
  let ?w = "pp_cores s ! Suc j" let ?w' = "?w\<lparr>pw_phase := Running\<rparr>"
  let ?R = "(pp_rings s)[j := q_pop Q (pp_rings s ! j)]"
  have lk: "links items (pp_rings s) (pp_cores s)" and len: "Suc (length (pp_rings s)) = length (pp_cores s)"
    using inv by (simp_all add: prof_inv_def)
  have ci: "core_inv rc ?w" using core_inv_of [OF inv j] .
  then have ci': "core_inv rc ?w'" and b: "0 < batches ?w" using ph by (auto simp: core_inv_def)
  have same: "pushed ?w' = pushed ?w" "popped ?w' = Suc (popped ?w)" using ph b by (simp_all add: pushed_def popped_def)
  obtain x xs where x: "items (pp_rings s ! j) = x # xs"
    using linksD [OF lk j] ph by (auto simp: link_def neq_Nil_conv)
  have "links items ?R ((pp_cores s)[Suc j := ?w'])"
  proof (rule links_update [OF lk j])
    fix k assume "Suc j = Suc k"
    then show "link (items (?R ! k)) (pp_cores s ! k) ?w'"
      using linksD [OF lk j] same(2) spsc_popD [OF Q x] x j len by (simp add: link_def)
  next
    assume "Suc (Suc j) < length (pp_cores s)"
    then show "link (items (?R ! Suc j)) ?w' (pp_cores s ! Suc (Suc j))"
      using linksD [OF lk, of "Suc j"] same(1) by (simp add: link_def)
  qed auto
  moreover have "core_work ?w' < core_work ?w" using ph by (simp add: core_work_simps) (simp add: core_work_def)
  ultimately show ?thesis
    using prof_inv_update [OF inv j ci' refl, of ?R] by (simp add: Let_def)
qed

lemma prof_inv_step:
  assumes "prof_inv rc items s" and "spsc_ok Q items" and "8 \<le> rc" and "prof_step Q P rc s t"
  shows "prof_inv rc items t \<and> prof_work t < prof_work s"
  using assms(4)
proof cases
  case (step_first w w' m)
  have "0 < length (pp_cores s)" "Suc 0 \<noteq> length (pp_cores s)" using assms(1) by (auto simp: prof_inv_def)
  then show ?thesis using batch_step [OF assms(1,3), of 0 w' m Pushing] step_first by simp
next
  case (step_core j w w' m)
  have "items (pp_rings s ! j) \<noteq> []" using step_core(6) assms(2) by (auto simp: spsc_ok_def)
  then show ?thesis using batch_step [OF assms(1,3) step_core(2), of w' m] step_core by auto
next
  case (step_push i w q)
  then show ?thesis using push_step [OF assms(1,2) step_push(2)] by simp
next
  case (step_pop j w)
  then show ?thesis using pop_step [OF assms(1,2) step_pop(2)] by (simp add: Let_def count_batch_inv)
qed

text \<open>
  A core that has not finished, and whose ring to the next core is empty, can act or waits for a core
  before it that can.
\<close>

lemma unfinished_can_act:
  assumes inv: "prof_inv rc items s" and Q: "spsc_ok Q items" and rc: "8 \<le> rc"
  shows "i < length (pp_cores s) \<Longrightarrow> \<not> finished (pp_cores s ! i) \<Longrightarrow>
    (Suc i < length (pp_cores s) \<longrightarrow> items (pp_rings s ! i) = []) \<Longrightarrow> \<exists>t. prof_step Q P rc s t"
proof (induction i)
  case 0
  let ?w = "pp_cores s ! 0"
  have mem: "64 * nat rc \<le> length (pp_mem s)" and two: "Suc 0 < length (pp_cores s)" and np: "pw_phase ?w \<noteq> Popping"
    using inv by (auto simp: prof_inv_def)
  note ci = core_inv_of [OF inv 0(1)]
  show ?case
  proof (cases "pw_phase ?w = Running")
    case True
    then have "\<not> pw_terminate ?w"
      using 0(2) ci by (auto simp: finished_def core_inv_def pw_terminate_def TERMINATION_COUNT_def)
    then show ?thesis using batch_facts [OF ci rc mem] step_first [OF refl True] by blast
  next
    case False
    then have "pw_phase ?w = Pushing" using np by (cases "pw_phase ?w") auto
    then show ?thesis using spsc_emptyD [OF Q] 0(3) two step_push [of 0 s ?w] by blast
  qed
next
  case (Suc j)
  let ?w = "pp_cores s ! Suc j"
  have mem: "64 * nat rc \<le> length (pp_mem s)" and lk: "links items (pp_rings s) (pp_cores s)"
    and nl: "pw_phase (last (pp_cores s)) \<noteq> Pushing" using inv by (simp_all add: prof_inv_def)
  note ci = core_inv_of [OF inv Suc.prems(1)]
  show ?case
  proof (cases "pw_phase ?w")
    case Running
    then have nt: "\<not> pw_terminate ?w" and lt: "batches ?w < 5000000"
      using Suc.prems(2) ci by (auto simp: finished_def core_inv_def pw_terminate_def TERMINATION_COUNT_def)
    show ?thesis
    proof (cases "items (pp_rings s ! j) = []")
      case True
      then have "pushed (pp_cores s ! j) < 5000000"
        using linksD [OF lk Suc.prems(1)] Running lt by (simp add: link_def popped_def)
      then have "\<not> finished (pp_cores s ! j)" by (auto simp: finished_def pushed_def)
      then show ?thesis using Suc.IH Suc.prems(1) True by simp
    next
      case False
      then have "q_front Q (pp_rings s ! j) \<noteq> None" using Q by (auto simp: spsc_ok_def split: list.splits)
      then show ?thesis using batch_facts [OF ci rc mem nt] step_core [OF Suc.prems(1) refl Running nt] by blast
    qed
  next
    case Pushing
    then have "Suc (Suc j) < length (pp_cores s)"
      using nl Suc.prems(1) by (metis Suc_lessI diff_Suc_1 last_conv_nth length_0_conv not_less_zero)
    then show ?thesis using Suc.prems(3) spsc_emptyD [OF Q] step_push [OF _ refl Pushing] by blast
  next
    case Popping
    then show ?thesis using step_pop [OF Suc.prems(1) refl] by blast
  qed
qed

lemma prof_can_act:
  assumes inv: "prof_inv rc items s" and Q: "spsc_ok Q items" and rc: "8 \<le> rc" and "\<exists>i<length (pp_cores s). \<not> finished (pp_cores s ! i)"
  shows "\<exists>t. prof_step Q P rc s t"
proof -
  let ?U = "{i. i < length (pp_cores s) \<and> \<not> finished (pp_cores s ! i)}"
  have fin: "finite ?U" and ne: "?U \<noteq> {}" using assms(4) by auto
  let ?i = "Max ?U"
  have i: "?i < length (pp_cores s)" "\<not> finished (pp_cores s ! ?i)" using Max_in [OF fin ne] by auto
  have "items (pp_rings s ! ?i) = []" if nxt: "Suc ?i < length (pp_cores s)"
  proof -
    have "Suc ?i \<notin> ?U" using Max_ge [OF fin] Suc_n_not_le_n by blast
    then have "finished (pp_cores s ! Suc ?i)" using nxt by blast
    then have "popped (pp_cores s ! Suc ?i) = 5000000" by (simp add: finished_def popped_def)
    moreover have "pushed (pp_cores s ! ?i) \<le> 5000000"
      using core_inv_of [OF inv i(1)] by (auto simp: core_inv_def pushed_def)
    moreover have "link (items (pp_rings s ! ?i)) (pp_cores s ! ?i) (pp_cores s ! Suc ?i)"
      by (rule linksD [OF _ nxt]) (use inv in \<open>simp add: prof_inv_def\<close>)
    ultimately have "length (items (pp_rings s ! ?i)) = 0" unfolding link_def by linarith
    then show ?thesis by simp
  qed
  then show ?thesis using unfinished_can_act [OF inv Q rc i] by blast
qed

lemma prof_run_facts:
  assumes "prof_run Q P rc s0 k s" and "prof_inv rc items s0" and "spsc_ok Q items" and "8 \<le> rc"
  shows "prof_inv rc items s \<and> k + prof_work s \<le> prof_work s0"
  using assms
proof (induction rule: prof_run.induct)
  case (prof_next k s t)
  then have "prof_inv rc items s" "k + prof_work s \<le> prof_work s0" by auto
  with prof_inv_step [OF this(1) prof_next.prems(2,3) prof_next.hyps(2)] show ?case by linarith
qed simp

end

interpretation reading: record_process ReadTxn_process
  by unfold_locales (auto simp: ReadTxn_process_def load_u64_def load_def sizeof_TxnMarshalled_def)

interpretation writing: record_process WriteTxn_process
  by unfold_locales (auto simp: WriteTxn_process_def store_u64_def store_def sizeof_TxnMarshalled_def)

section \<open>The program\<close>

lemma runPipeline_inv:
  assumes "items ring = []" and "64 * nat rc \<le> length m" and "8 \<le> rc"
  shows "prof_inv rc items (runPipeline cnt ring m)" "prof_work (runPipeline cnt ring m) = 15000000 * (cnt + 2)"
proof -
  have "core_inv rc new_worker" using assms(3) by (simp add: core_inv_def core_ok_def new_worker_def batches_def)
  moreover have "link [] new_worker new_worker" by (simp add: link_def new_worker_def pushed_def popped_def batches_def)
  ultimately show "prof_inv rc items (runPipeline cnt ring m)"
    using assms by (auto simp: prof_inv_def runPipeline_def links_def new_worker_def simp del: replicate_Suc)
  show "prof_work (runPipeline cnt ring m) = 15000000 * (cnt + 2)"
    by (simp add: prof_work_def runPipeline_def core_work_def new_worker_def batches_def sum_list_replicate del: replicate_Suc)
qed

lemma zero_records_length:
  assumes "zero_records m = Inr m'"
  shows "length m' = length m"
  using assms unfolding zero_records_def
  by (rule rfold_upt_inv [where P = "\<lambda>_ m'. length m' = length m"]) (auto simp: store_u64_def store_def split: if_splits)

lemma zero_records_ok:
  assumes "ent_cnt * sizeof_TxnMarshalled \<le> length m"
  shows "\<exists>m'. zero_records m = Inr m'"
proof -
  have "\<exists>m'. rfold (\<lambda>i. store_u64 (i * sizeof_TxnMarshalled) 0) [0..<ent_cnt] m = Inr m' \<and> length m' = length m"
  proof (rule rfold_total)
    fix i and m1 :: mem
    assume "i \<in> set [0..<ent_cnt]" "length m1 = length m"
    then have "i * sizeof_TxnMarshalled + 8 \<le> length m1"
      using assms by (simp add: ent_cnt_def sizeof_TxnMarshalled_def)
    then show "\<exists>s'. store_u64 (i * sizeof_TxnMarshalled) 0 m1 = Inr s' \<and> length s' = length m"
      using \<open>length m1 = length m\<close> by (simp add: store_u64_def store_def)
  qed simp
  then show ?thesis by (auto simp: zero_records_def)
qed

lemma profile_main_facts:
  assumes "profile_main H ring argv = Inr (P, s0)"
  shows "\<exists>cnt m. s0 = runPipeline cnt ring m \<and> 64000 \<le> length m \<and> (P = ReadTxn_process \<or> P = WriteTxn_process)"
proof -
  obtain c b m0 m where c: "atoi (argv ! 1) = Inr c" "aligned_alloc_hpage H (ent_cnt * sizeof_TxnMarshalled) = Inr (b, m0)"
    "zero_records m0 = Inr m" "s0 = runPipeline (nat (c - 2)) ring m" "P = ReadTxn_process \<or> P = WriteTxn_process"
    using assms by (auto simp: profile_main_def result_simps split: if_splits)
  have "64000 \<le> length m"
    using aligned_alloc_hpage_length [OF c(2)] alloc_sz_bounds(1) [of "ent_cnt * sizeof_TxnMarshalled"]
      zero_records_length [OF c(3)] by (simp add: ent_cnt_def sizeof_TxnMarshalled_def)
  with c(4,5) show ?thesis by blast
qed

section \<open>Properties\<close>

text \<open>
  C17. The profiler ends under every schedule.  For rings that keep their documented contract, a run of
  any number of cores, reading or writing, has at most fifteen million actions for each core; no core
  ever leaves the records; and a run that cannot go on is one in which every core has processed exactly
  forty million records.
\<close>

theorem profile_pipeline_terminates:
  assumes "spsc_ok Q items" and "items ring = []" and "profile_main H ring argv = Inr (P, s0)"
    and "prof_run Q P 1000 s0 k s"
  shows "k \<le> 15000000 * length (pp_cores s0) \<and>
    (\<forall>w\<in>set (pp_cores s). \<not> pw_terminate w \<longrightarrow> (\<exists>r. pw_dispatch_batch P 1000 w (pp_mem s) = Inr r)) \<and>
    ((\<exists>t. prof_step Q P 1000 s t) \<or>
     (\<forall>w\<in>set (pp_cores s). pw_phase w = Running \<and> pw_processed w = TERMINATION_COUNT))"
proof -
  obtain cnt m where s0: "s0 = runPipeline cnt ring m" "64000 \<le> length m" and P: "P = ReadTxn_process \<or> P = WriteTxn_process"
    using profile_main_facts [OF assms(3)] by blast
  have rp: "record_process P" using P reading.record_process_axioms writing.record_process_axioms by auto
  have inv0: "prof_inv 1000 items s0" "prof_work s0 = 15000000 * length (pp_cores s0)"
    using runPipeline_inv [of items ring 1000 m cnt, OF assms(2)] s0 by (simp_all add: runPipeline_def)
  note f = record_process.prof_run_facts [OF rp assms(4) inv0(1) assms(1)]
  then have inv: "prof_inv 1000 items s" and k: "k \<le> 15000000 * length (pp_cores s0)" using inv0(2) by auto
  have "\<exists>r. pw_dispatch_batch P 1000 w (pp_mem s) = Inr r" if "w \<in> set (pp_cores s)" "\<not> pw_terminate w" for w
    using record_process.batch_facts [OF rp, of 1000 w "pp_mem s"] inv that by (auto simp: prof_inv_def)
  moreover have "\<forall>w\<in>set (pp_cores s). pw_phase w = Running \<and> pw_processed w = TERMINATION_COUNT"
    if "\<nexists>t. prof_step Q P 1000 s t"
  proof -
    have "\<forall>i<length (pp_cores s). finished (pp_cores s ! i)"
      using record_process.prof_can_act [OF rp inv assms(1)] that by auto
    then show ?thesis
      using inv by (auto simp: prof_inv_def all_set_conv_all_nth finished_def core_inv_def TERMINATION_COUNT_def)
  qed
  ultimately show ?thesis using k by blast
qed

theorem profile_pipeline_terminates_witness:
  "\<exists>P s0. profile_main \<lparr>he_alloc = \<lambda>_. 0x200000, he_old = \<lambda>_. 0, he_pagemap = \<lambda>_. Some 0x8000000000000001,
       he_kpageflags = \<lambda>_. Some 0x400000\<rparr> [] [''profile'', decimal 3, ''write''] = Inr (P, s0) \<and>
     (\<forall>k s. prof_run list_ring P 1000 s0 k s \<longrightarrow> k \<le> 45000000)"
proof -
  let ?H = "\<lparr>he_alloc = \<lambda>_. 0x200000, he_old = \<lambda>_. 0, he_pagemap = \<lambda>_. Some 0x8000000000000001,
       he_kpageflags = \<lambda>_. Some 0x400000\<rparr> :: hpage_env"
  let ?argv = "[''profile'', decimal 3, ''write'']"
  have "PAGEMAP_PRESENT 0x8000000000000001" "PAGEMAP_PFN 0x8000000000000001 = 1" "(0x400000 :: u64) AND push_bit 22 1 \<noteq> 0"
    by (simp_all add: PAGEMAP_PRESENT_def PAGEMAP_PFN_def push_bit_eq_mult)
  then have "pages_huge ?H 0x200000 n" for n by (simp add: pages_huge_def check_huge_page_def)
  then have a: "aligned_alloc_hpage ?H (ent_cnt * sizeof_TxnMarshalled) =
      Inr (0x200000, replicate (alloc_sz (ent_cnt * sizeof_TxnMarshalled)) 0)" by (intro aligned_alloc_hpage_ok) simp_all
  obtain m where m: "zero_records (replicate (alloc_sz (ent_cnt * sizeof_TxnMarshalled)) 0) = Inr m"
    using zero_records_ok by (metis alloc_sz_bounds(1) length_replicate less_imp_le)
  have s: "profile_main ?H [] ?argv = Inr (WriteTxn_process, runPipeline 1 [] m)"
    using a m by (simp add: profile_main_def atoi_decimal)
  show ?thesis
    using s profile_pipeline_terminates [OF list_ring_ok _ s] by (auto simp: runPipeline_def)
qed

end
