(* ===== verification/Fast_Hash_Map.thy ===== *)
theory Fast_Hash_Map
  imports Prelude
begin

text \<open>
  The hash map of the prefetching experiments, \<^verbatim>\<open>app/prefetch/hashmap/hashmap.hpp\<close>: buckets that are
  unsorted vectors, insertion, removal and lookup, and the three routines that look up a vector of
  values, one plain and two that compute the buckets ahead of the lookups and prefetch them.
  \<open>std::hash\<close> is the argument \<open>hash\<close>.  The locale \<open>value_set\<close> is the interface of a set of values; the
  map interprets it, and the lookups of a vector are shown equal to membership.
\<close>

section \<open>simple\_hash\_map\_entry\<close>

definition entry_find :: "'t \<Rightarrow> 't list \<Rightarrow> bool" where
  "entry_find v m_values \<longleftrightarrow> v \<in> set m_values"

definition entry_insert :: "'t \<Rightarrow> 't list \<Rightarrow> bool \<times> 't list" where
  "entry_insert v m_values = (if entry_find v m_values then (False, m_values) else (True, m_values @ [v]))"

text \<open>\<open>std::iter_swap(it, m_values.rbegin())\<close> with the position \<open>it\<close> of the value, then \<open>pop_back\<close>.\<close>

definition entry_remove :: "'t \<Rightarrow> 't list \<Rightarrow> bool \<times> 't list" where
  "entry_remove v m_values =
     (let it = length (takeWhile (\<lambda>x. x \<noteq> v) m_values) in
      if it < length m_values
      then (True, butlast (m_values[it := last m_values, length m_values - 1 := m_values ! it]))
      else (False, m_values))"

section \<open>fast\_hash\_map\<close>

record 't fast_hash_map =
  m_values :: "'t list list"
  m_size :: u64

definition new_fast_hash_map :: "u64 \<Rightarrow> 't fast_hash_map" where
  "new_fast_hash_map sz = \<lparr>m_values = replicate (unat sz) [], m_size = sz\<rparr>"

definition get_entry :: "('t \<Rightarrow> u64) \<Rightarrow> 't fast_hash_map \<Rightarrow> 't \<Rightarrow> nat result" where
  "get_entry hash m v = (if m_size m = 0 then Inl DivByZero else Inr (unat (hash v mod m_size m)))"

definition hm_insert :: "('t \<Rightarrow> u64) \<Rightarrow> 't \<Rightarrow> 't fast_hash_map \<Rightarrow> (bool \<times> 't fast_hash_map) result" where
  "hm_insert hash v m =
     rbind (get_entry hash m v) (\<lambda>entry.
     rbind (vec_at (m_values m) entry) (\<lambda>b.
       Inr (fst (entry_insert v b), m\<lparr>m_values := (m_values m)[entry := snd (entry_insert v b)]\<rparr>)))"

definition hm_remove :: "('t \<Rightarrow> u64) \<Rightarrow> 't \<Rightarrow> 't fast_hash_map \<Rightarrow> (bool \<times> 't fast_hash_map) result" where
  "hm_remove hash v m =
     rbind (get_entry hash m v) (\<lambda>entry.
     rbind (vec_at (m_values m) entry) (\<lambda>b.
       Inr (fst (entry_remove v b), m\<lparr>m_values := (m_values m)[entry := snd (entry_remove v b)]\<rparr>)))"

definition hm_find_in :: "'t fast_hash_map \<Rightarrow> nat \<Rightarrow> 't \<Rightarrow> bool result" where
  "hm_find_in m entry v = rmap (entry_find v) (vec_at (m_values m) entry)"

definition hm_find :: "('t \<Rightarrow> u64) \<Rightarrow> 't fast_hash_map \<Rightarrow> 't \<Rightarrow> bool result" where
  "hm_find hash m v = rbind (get_entry hash m v) (\<lambda>entry. hm_find_in m entry v)"

text \<open>\<open>result[i] = find(values[i])\<close>.\<close>

definition find_at :: "('t \<Rightarrow> u64) \<Rightarrow> 't fast_hash_map \<Rightarrow> 't list \<Rightarrow> nat \<Rightarrow> bool list \<Rightarrow> bool list result" where
  "find_at hash m values i result =
     rbind (vec_at values i) (\<lambda>v. rbind (hm_find hash m v) (\<lambda>r. vec_put i r result))"

definition find_multiple_simple :: "('t \<Rightarrow> u64) \<Rightarrow> 't fast_hash_map \<Rightarrow> 't list \<Rightarrow> bool list result" where
  "find_multiple_simple hash m values =
     rfold (find_at hash m values) [0..<length values] (replicate (length values) False)"

text \<open>
  \<open>find_multiple_interleave\<close>: the ring buffer \<open>hashes\<close> is computed for the first \<open>look_ahead\<close> values,
  the loop looks up value \<open>i\<close> with its buffered bucket and buffers the bucket of value \<open>i + look_ahead\<close>,
  and the last \<open>look_ahead\<close> values are looked up plainly.  \<open>hashes0\<close> is the uninitialised array.
\<close>

definition hash_at :: "('t \<Rightarrow> u64) \<Rightarrow> 't fast_hash_map \<Rightarrow> 't list \<Rightarrow> nat \<Rightarrow> nat \<Rightarrow> nat list \<Rightarrow> nat list result" where
  "hash_at hash m values j k hashes =
     rbind (vec_at values j) (\<lambda>v. rbind (get_entry hash m v) (\<lambda>entry. vec_put k entry hashes))"

definition found_at :: "'t fast_hash_map \<Rightarrow> 't list \<Rightarrow> nat list \<Rightarrow> nat \<Rightarrow> nat \<Rightarrow> bool list \<Rightarrow> bool list result" where
  "found_at m values hashes j k result =
     rbind (vec_at hashes k) (\<lambda>entry. rbind (vec_at values j) (\<lambda>v.
     rbind (hm_find_in m entry v) (\<lambda>r. vec_put j r result)))"

definition interleave_step ::
  "('t \<Rightarrow> u64) \<Rightarrow> 't fast_hash_map \<Rightarrow> nat \<Rightarrow> 't list \<Rightarrow> nat \<Rightarrow> nat list \<times> bool list \<Rightarrow> (nat list \<times> bool list) result" where
  "interleave_step hash m look_ahead values i s = (case s of (hashes, result) \<Rightarrow>
     rbind (found_at m values hashes i (i mod length hashes) result) (\<lambda>result'.
     rbind (hash_at hash m values (i + look_ahead) ((i + look_ahead) mod length hashes) hashes) (\<lambda>hashes'.
       Inr (hashes', result'))))"

definition find_multiple_interleave ::
  "('t \<Rightarrow> u64) \<Rightarrow> nat list \<Rightarrow> 't fast_hash_map \<Rightarrow> 't list \<Rightarrow> bool list result" where
  "find_multiple_interleave hash hashes0 m values =
     (let look_ahead = length hashes0; n = length values in
      rbind (rfold (\<lambda>i. hash_at hash m values i i) [0..<look_ahead] hashes0) (\<lambda>hashes.
      rbind (rfold (interleave_step hash m look_ahead values) [0..<n - look_ahead]
               (hashes, replicate n False)) (\<lambda>(_, result).
        rfold (find_at hash m values) [n - look_ahead..<n] result)))"

text \<open>\<open>find_multiple_batch\<close>: whole batches of \<open>look_ahead\<close> values, then the rest plainly.\<close>

definition batch_step ::
  "('t \<Rightarrow> u64) \<Rightarrow> 't fast_hash_map \<Rightarrow> nat \<Rightarrow> 't list \<Rightarrow> nat \<Rightarrow> nat list \<times> bool list \<Rightarrow> (nat list \<times> bool list) result" where
  "batch_step hash m look_ahead values i s = (case s of (hashes, result) \<Rightarrow>
     rbind (rfold (\<lambda>k. hash_at hash m values (i + k) k) [0..<look_ahead] hashes) (\<lambda>hashes'.
     rbind (rfold (\<lambda>k. found_at m values hashes' (i + k) k) [0..<look_ahead] result) (\<lambda>result'.
       Inr (hashes', result'))))"

definition find_multiple_batch ::
  "('t \<Rightarrow> u64) \<Rightarrow> nat list \<Rightarrow> 't fast_hash_map \<Rightarrow> 't list \<Rightarrow> bool list result" where
  "find_multiple_batch hash hashes0 m values =
     (let look_ahead = length hashes0; n = length values in
      if look_ahead = 0 then Inl DivByZero
      else let len = (n div look_ahead) * look_ahead in
        rbind (rfold (\<lambda>b. batch_step hash m look_ahead values (b * look_ahead)) [0..<n div look_ahead]
                 (hashes0, replicate n False)) (\<lambda>(_, result).
          rfold (find_at hash m values) [len..<n] result))"

section \<open>The set of values\<close>

definition hm_set :: "'t fast_hash_map \<Rightarrow> 't set" where
  "hm_set m = \<Union> (set ` set (m_values m))"

definition hm_inv :: "('t \<Rightarrow> u64) \<Rightarrow> 't fast_hash_map \<Rightarrow> bool" where
  "hm_inv hash m \<longleftrightarrow> m_size m \<noteq> 0 \<and> length (m_values m) = unat (m_size m) \<and>
     (\<forall>i<length (m_values m). distinct (m_values m ! i) \<and>
        (\<forall>x\<in>set (m_values m ! i). unat (hash x mod m_size m) = i))"

text \<open>The interface of a set of values, as the experiments use it.\<close>

locale value_set =
  fixes ins :: "'t \<Rightarrow> 's \<Rightarrow> (bool \<times> 's) result"
    and rem :: "'t \<Rightarrow> 's \<Rightarrow> (bool \<times> 's) result"
    and look :: "'s \<Rightarrow> 't \<Rightarrow> bool result"
    and inv :: "'s \<Rightarrow> bool"
    and elems :: "'s \<Rightarrow> 't set"
  assumes look_ok: "inv s \<Longrightarrow> look s v = Inr (v \<in> elems s)"
    and ins_ok: "inv s \<Longrightarrow> \<exists>s'. ins v s = Inr (v \<notin> elems s, s') \<and> inv s' \<and> elems s' = insert v (elems s)"
    and rem_ok: "inv s \<Longrightarrow> \<exists>s'. rem v s = Inr (v \<in> elems s, s') \<and> inv s' \<and> elems s' = elems s - {v}"
begin

lemma ins_all:
  assumes "inv s"
  shows "\<exists>s'. rfold (\<lambda>v s. rmap snd (ins v s)) vs s = Inr s' \<and> inv s' \<and> elems s' = elems s \<union> set vs"
  using assms
proof (induction vs arbitrary: s)
  case (Cons v vs)
  then obtain s1 where s1: "ins v s = Inr (v \<notin> elems s, s1)" "inv s1" "elems s1 = insert v (elems s)"
    using ins_ok by blast
  with Cons.IH [OF s1(2)] show ?case by auto
qed auto

lemma ins_look:
  assumes "inv s" and "ins v s = Inr (b, s')"
  shows "look s' w = (if w = v then Inr True else look s w)"
  using ins_ok [OF assms(1), of v] assms(2) look_ok [OF assms(1), of w] by (auto simp: look_ok)

lemma rem_look:
  assumes "inv s" and "rem v s = Inr (b, s')"
  shows "look s' w = (if w = v then Inr False else look s w)"
  using rem_ok [OF assms(1), of v] assms(2) look_ok [OF assms(1), of w] by (auto simp: look_ok)

end

section \<open>Single operations\<close>

lemma entry_insert_set: "set (snd (entry_insert v b)) = insert v (set b)" "fst (entry_insert v b) \<longleftrightarrow> v \<notin> set b"
  and entry_insert_distinct: "distinct b \<Longrightarrow> distinct (snd (entry_insert v b))"
  by (auto simp: entry_insert_def entry_find_def)

lemma entry_remove_absent: "v \<notin> set b \<Longrightarrow> entry_remove v b = (False, b)"
proof -
  assume "v \<notin> set b"
  then have "takeWhile (\<lambda>x. x \<noteq> v) b = b" by (auto simp: takeWhile_eq_all_conv)
  then have it: "length (takeWhile (\<lambda>x. x \<noteq> v) b) = length b" by (rule arg_cong)
  show ?thesis by (simp add: entry_remove_def it)
qed

text \<open>Swapping with the last element and popping it.\<close>

lemma swap_pop_last: "butlast ((xs @ [v])[length xs := v, length (xs @ [v]) - 1 := v]) = xs"
  by (simp add: list_update_append)

lemma swap_pop_inner:
  "butlast ((xs @ v # ys @ [z])[length xs := z, length (xs @ v # ys @ [z]) - 1 := v]) = xs @ z # ys"
  by (simp add: list_update_append butlast_append)

lemma entry_remove_split:
  assumes "v \<notin> set xs"
  shows "entry_remove v (xs @ v # ys) = (True, if ys = [] then xs else xs @ last ys # butlast ys)"
proof -
  have it: "length (takeWhile (\<lambda>x. x \<noteq> v) (xs @ v # ys)) = length xs"
    using assms by (subst takeWhile_append2) auto
  show ?thesis
  proof (cases ys rule: rev_cases)
    case Nil
    then show ?thesis using it swap_pop_last [of xs v] by (simp add: entry_remove_def)
  next
    case (snoc zs z)
    then show ?thesis using it swap_pop_inner [of xs v zs z] by (simp add: entry_remove_def nth_append)
  qed
qed

lemma entry_remove_ok:
  assumes "distinct b"
  shows "fst (entry_remove v b) \<longleftrightarrow> v \<in> set b" and "set (snd (entry_remove v b)) = set b - {v}"
    and "distinct (snd (entry_remove v b))"
proof -
  have "(fst (entry_remove v b) \<longleftrightarrow> v \<in> set b) \<and> set (snd (entry_remove v b)) = set b - {v} \<and>
      distinct (snd (entry_remove v b))"
  proof (cases "v \<in> set b")
    case False
    then show ?thesis using assms by (simp add: entry_remove_absent)
  next
    case True
    then obtain xs ys where b: "b = xs @ v # ys" "v \<notin> set xs" using split_list_first by metis
    show ?thesis
    proof (cases ys rule: rev_cases)
      case Nil
      then show ?thesis using assms b by (simp add: entry_remove_split)
    next
      case (snoc zs z)
      then show ?thesis using assms b by (auto simp: entry_remove_split)
    qed
  qed
  then show "fst (entry_remove v b) \<longleftrightarrow> v \<in> set b" and "set (snd (entry_remove v b)) = set b - {v}"
    and "distinct (snd (entry_remove v b))" by auto
qed

lemma get_entry_ok:
  assumes "hm_inv hash m"
  shows "get_entry hash m v = Inr (unat (hash v mod m_size m))"
    and "unat (hash v mod m_size m) < length (m_values m)"
proof -
  have "m_size m \<noteq> 0" using assms by (simp add: hm_inv_def)
  then show "get_entry hash m v = Inr (unat (hash v mod m_size m))" by (simp add: get_entry_def)
  show "unat (hash v mod m_size m) < length (m_values m)"
    using assms \<open>m_size m \<noteq> 0\<close> by (simp add: hm_inv_def unat_mod unat_gt_0)
qed

lemma hm_set_bucket:
  assumes "hm_inv hash m"
  shows "v \<in> hm_set m \<longleftrightarrow> v \<in> set (m_values m ! unat (hash v mod m_size m))"
proof
  assume "v \<in> hm_set m"
  then obtain i where i: "i < length (m_values m)" "v \<in> set (m_values m ! i)"
    unfolding hm_set_def by (metis UN_E in_set_conv_nth)
  then have "unat (hash v mod m_size m) = i" using assms by (simp add: hm_inv_def)
  with i show "v \<in> set (m_values m ! unat (hash v mod m_size m))" by simp
next
  assume "v \<in> set (m_values m ! unat (hash v mod m_size m))"
  then show "v \<in> hm_set m" using get_entry_ok(2) [OF assms, of v] by (auto simp: hm_set_def)
qed

lemma hm_find_in_ok:
  assumes "hm_inv hash m"
  shows "hm_find_in m (unat (hash v mod m_size m)) v = Inr (v \<in> hm_set m)"
  using get_entry_ok(2) [OF assms, of v] by (simp add: hm_find_in_def entry_find_def hm_set_bucket [OF assms])

lemma hm_find_ok: "hm_inv hash m \<Longrightarrow> hm_find hash m v = Inr (v \<in> hm_set m)"
  by (simp add: hm_find_def get_entry_ok hm_find_in_ok)

text \<open>A bucket replaced by one with the right elements.\<close>

lemma hm_update_bucket:
  assumes inv: "hm_inv hash m" and e: "e = unat (hash v mod m_size m)"
    and b: "distinct b" "set b - {v} = set (m_values m ! e) - {v}"
  shows "hm_inv hash (m\<lparr>m_values := (m_values m)[e := b]\<rparr>)"
    and "hm_set (m\<lparr>m_values := (m_values m)[e := b]\<rparr>) = (hm_set m - {v}) \<union> (set b \<inter> {v})"
proof -
  let ?m = "m\<lparr>m_values := (m_values m)[e := b]\<rparr>"
  have el: "e < length (m_values m)" using get_entry_ok(2) [OF inv] e by simp
  have "unat (hash x mod m_size m) = e" if "x \<in> set b" for x
    using that b(2) inv el e unfolding hm_inv_def by (cases "x = v") blast+
  then show inv': "hm_inv hash ?m" using inv b(1) el by (auto simp: hm_inv_def nth_list_update)
  show "hm_set ?m = (hm_set m - {v}) \<union> (set b \<inter> {v})"
  proof (rule set_eqI)
    fix x
    have "x \<in> set b \<longleftrightarrow> x \<in> set (m_values m ! e)" if "x \<noteq> v" using that b(2) by blast
    then show "x \<in> hm_set ?m \<longleftrightarrow> x \<in> (hm_set m - {v}) \<union> (set b \<inter> {v})"
      using el e hm_set_bucket [OF inv', of x] hm_set_bucket [OF inv, of x]
      by (cases "x = v"; cases "unat (hash x mod m_size m) = e") simp_all
  qed
qed

interpretation hm: value_set "hm_insert hash" "hm_remove hash" "hm_find hash" "hm_inv hash" hm_set
  for hash :: "'t \<Rightarrow> u64"
proof
  fix m :: "'t fast_hash_map" and v
  assume inv: "hm_inv hash m"
  let ?e = "unat (hash v mod m_size m)"
  let ?b = "m_values m ! ?e"
  have el: "?e < length (m_values m)" and ge: "get_entry hash m v = Inr ?e"
    using get_entry_ok [OF inv] by auto
  have bkt: "v \<in> hm_set m \<longleftrightarrow> v \<in> set ?b" and d: "distinct ?b"
    using hm_set_bucket [OF inv] inv el by (auto simp: hm_inv_def)
  show "hm_find hash m v = Inr (v \<in> hm_set m)" using hm_find_ok [OF inv] .
  have i: "set (snd (entry_insert v ?b)) - {v} = set ?b - {v}" by (auto simp: entry_insert_set)
  show "\<exists>s'. hm_insert hash v m = Inr (v \<notin> hm_set m, s') \<and> hm_inv hash s' \<and> hm_set s' = insert v (hm_set m)"
    using hm_update_bucket [OF inv refl entry_insert_distinct [OF d] i] ge el bkt
    by (auto simp: hm_insert_def entry_insert_set)
  have r: "set (snd (entry_remove v ?b)) - {v} = set ?b - {v}" by (auto simp: entry_remove_ok [OF d])
  show "\<exists>s'. hm_remove hash v m = Inr (v \<in> hm_set m, s') \<and> hm_inv hash s' \<and> hm_set s' = hm_set m - {v}"
    using hm_update_bucket [OF inv refl entry_remove_ok(3) [OF d] r] ge el bkt
    by (auto simp: hm_remove_def entry_remove_ok [OF d])
qed

lemma new_map_inv: "sz \<noteq> 0 \<Longrightarrow> hm_inv hash (new_fast_hash_map sz) \<and> hm_set (new_fast_hash_map sz) = {}"
  by (auto simp: hm_inv_def hm_set_def new_fast_hash_map_def)

section \<open>Lookups of a vector\<close>

definition entry_of :: "('t \<Rightarrow> u64) \<Rightarrow> 't fast_hash_map \<Rightarrow> 't \<Rightarrow> nat" where
  "entry_of hash m v = unat (hash v mod m_size m)"

lemma find_at_ok:
  assumes "hm_inv hash m" and "i < length values" and "i < length result"
  shows "find_at hash m values i result = Inr (result[i := (values ! i \<in> hm_set m)])"
  using assms by (simp add: find_at_def hm_find_ok)

lemma hash_at_ok:
  assumes "hm_inv hash m" and "j < length values" and "k < length hashes"
  shows "hash_at hash m values j k hashes = Inr (hashes[k := entry_of hash m (values ! j)])"
  using assms by (simp add: hash_at_def get_entry_ok(1) entry_of_def)

lemma found_at_ok:
  assumes "hm_inv hash m" and "k < length hashes" and "hashes ! k = entry_of hash m (values ! j)"
    and "j < length values" and "j < length result"
  shows "found_at m values hashes j k result = Inr (result[j := (values ! j \<in> hm_set m)])"
  using assms hm_find_in_ok [OF assms(1), of "values ! j"] by (simp add: found_at_def entry_of_def)

lemma find_rest:
  assumes "hm_inv hash m" and "a \<le> length values" and "length result = length values"
    and "take a result = map (\<lambda>v. v \<in> hm_set m) (take a values)"
  shows "rfold (find_at hash m values) [a..<length values] result = Inr (map (\<lambda>v. v \<in> hm_set m) values)"
proof -
  have "rfold (find_at hash m values) [a..<length values] result =
      Inr (take a result @ map (\<lambda>i. values ! i \<in> hm_set m) [a..<length values] @ drop (length values) result)"
    by (rule rfold_fill [where n = "length values"]) (use assms in \<open>auto simp: find_at_ok\<close>)
  also have "map (\<lambda>i. values ! i \<in> hm_set m) [a..<length values] = map (\<lambda>v. v \<in> hm_set m) (drop a values)"
    by (auto intro!: nth_equalityI)
  finally show ?thesis using assms by (simp flip: map_append)
qed

lemma simple_ok:
  "hm_inv hash m \<Longrightarrow> find_multiple_simple hash m values = Inr (map (\<lambda>v. v \<in> hm_set m) values)"
  unfolding find_multiple_simple_def by (rule find_rest) simp_all

text \<open>The state of the interleaved loop: the buckets of the next \<open>look_ahead\<close> values are buffered.\<close>

definition looked_up :: "'t fast_hash_map \<Rightarrow> 't list \<Rightarrow> nat \<Rightarrow> bool list \<Rightarrow> bool" where
  "looked_up m values i result \<longleftrightarrow> length result = length values \<and>
     take i result = map (\<lambda>v. v \<in> hm_set m) (take i values)"

lemma looked_up_0: "looked_up m values 0 (replicate (length values) False)"
  by (simp add: looked_up_def)

lemma looked_up_Suc:
  assumes "looked_up m values i result" and "i < length values"
  shows "looked_up m values (Suc i) (result[i := (values ! i \<in> hm_set m)])"
  using assms by (simp add: looked_up_def take_Suc_conv_app_nth)

definition buffered :: "('t \<Rightarrow> u64) \<Rightarrow> 't fast_hash_map \<Rightarrow> 't list \<Rightarrow> nat \<Rightarrow> nat \<Rightarrow> nat list \<Rightarrow> bool" where
  "buffered hash m values L i hashes \<longleftrightarrow> length hashes = L \<and>
     (\<forall>j. i \<le> j \<and> j < i + L \<longrightarrow> hashes ! (j mod L) = entry_of hash m (values ! j))"

lemma mod_window: "i < j \<Longrightarrow> j < i + L \<Longrightarrow> j mod L \<noteq> (i :: nat) mod L"
proof
  assume j: "i < j" "j < i + L" and eq: "j mod L = i mod L"
  then have "L dvd j - i" using mod_eq_dvd_iff_nat [of i j L] by simp
  with j show False using nat_dvd_not_less [of "j - i" L] by simp
qed

lemma interleave_step_ok:
  assumes inv: "hm_inv hash m" and L: "0 < L" and i: "i + L < length values"
    and s: "buffered hash m values L i hashes" "looked_up m values i result"
  shows "\<exists>h r. interleave_step hash m L values i (hashes, result) = Inr (h, r) \<and>
    buffered hash m values L (Suc i) h \<and> looked_up m values (Suc i) r"
proof -
  have len: "length hashes = L" "length result = length values" using s by (auto simp: buffered_def looked_up_def)
  have "i \<le> i \<and> i < i + L" using L by simp
  then have "hashes ! (i mod L) = entry_of hash m (values ! i)" using s(1) unfolding buffered_def by blast
  then have f: "found_at m values hashes i (i mod L) result = Inr (result[i := (values ! i \<in> hm_set m)])"
    using inv L i len by (intro found_at_ok) auto
  have h: "hash_at hash m values (i + L) ((i + L) mod L) hashes =
      Inr (hashes[i mod L := entry_of hash m (values ! (i + L))])"
    using hash_at_ok [OF inv, of "i + L" "values" "(i + L) mod L" hashes] L i len by simp
  have "buffered hash m values L (Suc i) (hashes[i mod L := entry_of hash m (values ! (i + L))])"
    unfolding buffered_def
  proof (intro conjI allI impI)
    fix j assume j: "Suc i \<le> j \<and> j < Suc i + L"
    show "hashes[i mod L := entry_of hash m (values ! (i + L))] ! (j mod L) = entry_of hash m (values ! j)"
    proof (cases "j = i + L")
      case True
      then show ?thesis using L len by simp
    next
      case False
      with j have "i < j" "j < i + L" by auto
      then show ?thesis using mod_window [of i j L] s(1) by (auto simp: buffered_def)
    qed
  qed (use len in simp)
  moreover have "looked_up m values (Suc i) (result[i := (values ! i \<in> hm_set m)])"
    using looked_up_Suc [OF s(2)] i by simp
  ultimately show ?thesis using f h len by (simp add: interleave_step_def)
qed

lemma first_hashes:
  assumes "hm_inv hash m" and "length hashes = L" and "i + L \<le> length values"
  shows "rfold (\<lambda>k. hash_at hash m values (i + k) k) [0..<L] hashes =
    Inr (map (\<lambda>k. entry_of hash m (values ! (i + k))) [0..<L])"
proof -
  have "rfold (\<lambda>k. hash_at hash m values (i + k) k) [0..<L] hashes =
      Inr (take 0 hashes @ map (\<lambda>k. entry_of hash m (values ! (i + k))) [0..<L] @ drop L hashes)"
    by (rule rfold_fill [where n = L]) (use assms in \<open>auto intro!: hash_at_ok\<close>)
  then show ?thesis using assms by simp
qed

lemma interleave_ok:
  assumes inv: "hm_inv hash m" and L: "0 < length hashes0" "length hashes0 \<le> length values"
  shows "find_multiple_interleave hash hashes0 m values = Inr (map (\<lambda>v. v \<in> hm_set m) values)"
proof -
  let ?L = "length hashes0"
  let ?hs = "map (\<lambda>k. entry_of hash m (values ! k)) [0..<?L]"
  have h: "rfold (\<lambda>i. hash_at hash m values i i) [0..<?L] hashes0 = Inr ?hs"
    using first_hashes [OF inv refl, of 0 hashes0 "values"] L by simp
  have "\<exists>s'. rfold (interleave_step hash m ?L values) [0..<length values - ?L] (?hs, replicate (length values) False) = Inr s' \<and>
      (case s' of (h, r) \<Rightarrow> buffered hash m values ?L (length values - ?L) h \<and> looked_up m values (length values - ?L) r)"
  proof (rule rfold_upt_total)
    show "case (?hs, replicate (length values) False) of (h, r) \<Rightarrow> buffered hash m values ?L 0 h \<and> looked_up m values 0 r"
      by (simp add: buffered_def looked_up_0)
  next
    fix i s
    assume "i < length values - ?L" and "case s of (h, r) \<Rightarrow> buffered hash m values ?L i h \<and> looked_up m values i r"
    then show "\<exists>s'. interleave_step hash m ?L values i s = Inr s' \<and>
        (case s' of (h, r) \<Rightarrow> buffered hash m values ?L (Suc i) h \<and> looked_up m values (Suc i) r)"
      using interleave_step_ok [OF inv L(1), of i "values"] by (cases s) force
  qed
  then obtain h' r where lp: "rfold (interleave_step hash m ?L values) [0..<length values - ?L]
      (?hs, replicate (length values) False) = Inr (h', r)" and r: "looked_up m values (length values - ?L) r" by auto
  show ?thesis using h lp find_rest [OF inv, of "length values - ?L" "values" r] r
    by (simp add: find_multiple_interleave_def looked_up_def)
qed

lemma interleave_short:
  assumes inv: "hm_inv hash m" and L: "length values < length hashes0"
  shows "find_multiple_interleave hash hashes0 m values = Inl OutOfBounds"
proof -
  let ?n = "length values"
  have split: "[0..<length hashes0] = [0..<?n] @ ?n # [Suc ?n..<length hashes0]"
    using L upt_add_eq_append [of 0 ?n "length hashes0 - ?n"] by (simp add: upt_conv_Cons)
  have "rfold (\<lambda>i. hash_at hash m values i i) [0..<?n] hashes0 =
      Inr (take 0 hashes0 @ map (\<lambda>i. entry_of hash m (values ! i)) [0..<?n] @ drop ?n hashes0)"
    by (rule rfold_fill [where n = "length hashes0"]) (use assms in \<open>auto intro!: hash_at_ok\<close>)
  then have "rfold (\<lambda>i. hash_at hash m values i i) [0..<length hashes0] hashes0 = Inl OutOfBounds"
    by (simp add: split rfold_append hash_at_def vec_at_def)
  then show ?thesis by (simp add: find_multiple_interleave_def)
qed

lemma batch_step_ok:
  assumes inv: "hm_inv hash m" and L: "length hashes = L" and i: "i + L \<le> length values"
    and s: "looked_up m values i result"
  shows "\<exists>h r. batch_step hash m L values i (hashes, result) = Inr (h, r) \<and> length h = L \<and>
    looked_up m values (i + L) r"
proof -
  let ?hs = "map (\<lambda>k. entry_of hash m (values ! (i + k))) [0..<L]"
  have len: "length result = length values" using s by (simp add: looked_up_def)
  have "rfold (\<lambda>k. found_at m values ?hs (i + k) k) [0..<L] result =
      rfold (\<lambda>j. found_at m values ?hs j (j - i)) [i..<i + L] result"
    using rfold_map [of "\<lambda>j. found_at m values ?hs j (j - i)" "\<lambda>k. k + i" "[0..<L]"]
    by (simp add: map_add_upt add.commute)
  also have "\<dots> = Inr (take i result @ map (\<lambda>j. values ! j \<in> hm_set m) [i..<i + L] @ drop (i + L) result)"
    by (rule rfold_fill [where n = "length values"]) (use inv i len in \<open>auto intro!: found_at_ok\<close>)
  finally have f: "rfold (\<lambda>k. found_at m values ?hs (i + k) k) [0..<L] result = \<dots>" .
  have "map (\<lambda>j. values ! j \<in> hm_set m) [i..<i + L] = map (\<lambda>v. v \<in> hm_set m) (take L (drop i values))"
    using i by (auto intro!: nth_equalityI)
  then have "looked_up m values (i + L) (take i result @ map (\<lambda>j. values ! j \<in> hm_set m) [i..<i + L] @ drop (i + L) result)"
    using s i len by (auto simp: looked_up_def take_add)
  then show ?thesis using first_hashes [OF inv L i] f by (simp add: batch_step_def)
qed

lemma batch_ok:
  assumes inv: "hm_inv hash m" and L: "0 < length hashes0"
  shows "find_multiple_batch hash hashes0 m values = Inr (map (\<lambda>v. v \<in> hm_set m) values)"
proof -
  let ?L = "length hashes0"
  let ?k = "length values div ?L"
  have "\<exists>s'. rfold (\<lambda>b. batch_step hash m ?L values (b * ?L)) [0..<?k] (hashes0, replicate (length values) False) = Inr s' \<and>
      (case s' of (h, r) \<Rightarrow> length h = ?L \<and> looked_up m values (?k * ?L) r)"
  proof (rule rfold_upt_total [where P = "\<lambda>b (h :: nat list, r). length h = ?L \<and> looked_up m values (b * ?L) r"])
    show "case (hashes0, replicate (length values) False) of (h, r) \<Rightarrow> length h = ?L \<and> looked_up m values (0 * ?L) r"
      by (simp add: looked_up_0)
  next
    fix b and s :: "nat list \<times> bool list"
    assume "b < ?k" and s: "case s of (h, r) \<Rightarrow> length h = ?L \<and> looked_up m values (b * ?L) r"
    then have "Suc b * ?L \<le> ?k * ?L" by (intro mult_le_mono1) simp
    also have "\<dots> \<le> length values" by (simp add: div_times_less_eq_dividend)
    finally show "\<exists>s'. batch_step hash m ?L values (b * ?L) s = Inr s' \<and>
        (case s' of (h, r) \<Rightarrow> length h = ?L \<and> looked_up m values (Suc b * ?L) r)"
      using batch_step_ok [OF inv, of "fst s" ?L "b * ?L" "values" "snd s"] s by (cases s) (auto simp: add.commute)
  qed
  then obtain h r where lp: "rfold (\<lambda>b. batch_step hash m ?L values (b * ?L)) [0..<?k]
      (hashes0, replicate (length values) False) = Inr (h, r)" and r: "looked_up m values (?k * ?L) r" by auto
  show ?thesis using lp find_rest [OF inv, of "?k * ?L" "values" r] r L
    by (simp add: find_multiple_batch_def looked_up_def div_times_less_eq_dividend)
qed

section \<open>The benchmark\<close>

text \<open>
  The benchmarks of \<^verbatim>\<open>benchmark.cpp\<close> fill a map of \<open>SIZE\<close> buckets with the numbers below \<open>SIZE\<close> and look
  up random numbers of that range.
\<close>

definition bm_map :: "(int \<Rightarrow> u64) \<Rightarrow> nat \<Rightarrow> int fast_hash_map result" where
  "bm_map hash SIZE =
     rfold (\<lambda>i m. rmap snd (hm_insert hash i m)) (map int [0..<SIZE]) (new_fast_hash_map (of_nat SIZE))"

lemma bm_map_ok:
  assumes "0 < SIZE" and "SIZE < 2 ^ 31"
  shows "\<exists>m. bm_map hash SIZE = Inr m \<and> hm_inv hash m \<and> hm_set m = {0..<int SIZE}"
proof -
  have "unat (of_nat SIZE :: u64) = SIZE" using assms by (intro unat_of_nat_small) simp
  then have "(of_nat SIZE :: u64) \<noteq> 0" using assms(1) by (metis less_irrefl unat_0)
  then have n: "hm_inv hash (new_fast_hash_map (of_nat SIZE))" "hm_set (new_fast_hash_map (of_nat SIZE) :: int fast_hash_map) = {}"
    using new_map_inv [of "of_nat SIZE" hash] by auto
  show ?thesis using hm.ins_all [OF n(1), of "map int [0..<SIZE]"] n(2)
    by (simp add: bm_map_def image_int_atLeastLessThan)
qed

section \<open>Properties\<close>

text \<open>
  C22. The map is a set of values: \<open>insert\<close> reports whether the value is new and makes it found,
  \<open>remove\<close> reports whether it was there and makes it not found, both change the answer of \<open>find\<close> for no
  other value, and the buckets stay well formed.
\<close>

theorem hash_map_operations:
  assumes "hm_inv hash m"
  shows "\<exists>m1 m2. hm_insert hash v m = Inr (hm_find hash m v = Inr False, m1) \<and> hm_inv hash m1 \<and>
     (\<forall>w. hm_find hash m1 w = (if w = v then Inr True else hm_find hash m w)) \<and>
     hm_remove hash v m = Inr (hm_find hash m v = Inr True, m2) \<and> hm_inv hash m2 \<and>
     (\<forall>w. hm_find hash m2 w = (if w = v then Inr False else hm_find hash m w))"
proof -
  obtain m1 where m1: "hm_insert hash v m = Inr (v \<notin> hm_set m, m1)" "hm_inv hash m1"
    using hm.ins_ok [OF assms] by blast
  obtain m2 where m2: "hm_remove hash v m = Inr (v \<in> hm_set m, m2)" "hm_inv hash m2"
    using hm.rem_ok [OF assms] by blast
  show ?thesis
    using m1 m2 hm.ins_look [OF assms m1(1)] hm.rem_look [OF assms m2(1)] hm_find_ok [OF assms, of v] by simp
qed

theorem hash_map_operations_witness:
  "\<exists>m1 m2. hm_insert (\<lambda>v :: nat. of_nat v) 5 (new_fast_hash_map 2) = Inr (True, m1) \<and>
     hm_find (\<lambda>v. of_nat v) m1 5 = Inr True \<and> hm_find (\<lambda>v. of_nat v) m1 3 = Inr False \<and>
     hm_remove (\<lambda>v :: nat. of_nat v) 5 (new_fast_hash_map 2) = Inr (False, m2)"
proof -
  let ?m = "new_fast_hash_map 2 :: nat fast_hash_map" and ?h = "\<lambda>v :: nat. of_nat v :: u64"
  have i: "hm_inv ?h ?m" and e: "hm_set ?m = {}" using new_map_inv [of 2 ?h] by auto
  have n: "hm_find ?h ?m v = Inr False" for v using hm_find_ok [OF i] e by simp
  show ?thesis using hash_map_operations [OF i, of 5] by (auto simp: n)
qed

text \<open>
  C21. The prefetching lookups of a vector give the answers of the plain one, which are membership:
  the batched one always, the interleaved one for at least as many values as it looks ahead; for
  fewer values the interleaved one reads outside the vector.
\<close>

theorem prefetching_lookups_agree:
  assumes "hm_inv hash m" and "hashes0 \<noteq> []"
  shows "find_multiple_simple hash m values = Inr (map (\<lambda>v. hm_find hash m v = Inr True) values) \<and>
    find_multiple_batch hash hashes0 m values = find_multiple_simple hash m values \<and>
    find_multiple_interleave hash hashes0 m values =
      (if length hashes0 \<le> length values then find_multiple_simple hash m values else Inl OutOfBounds)"
  using simple_ok [OF assms(1), of "values"] batch_ok [OF assms(1), of hashes0 "values"]
    interleave_ok [OF assms(1), of hashes0 "values"] interleave_short [OF assms(1), of "values" hashes0] assms(2)
  by (simp add: hm_find_ok [OF assms(1)])

theorem prefetching_lookups_agree_witness:
  "\<exists>m. bm_map word_of_int 3 = Inr m \<and>
     find_multiple_interleave word_of_int [0, 0] m [1, 7, 2, 0] = Inr [True, False, True, True] \<and>
     find_multiple_batch word_of_int [0, 0] m [1, 7, 2] = Inr [True, False, True] \<and>
     find_multiple_interleave word_of_int [0, 0] m [1] = Inl OutOfBounds"
proof -
  obtain m where m: "bm_map word_of_int 3 = Inr m" "hm_inv word_of_int m" "hm_set m = {0..<3}"
    using bm_map_ok [of 3 word_of_int] by auto
  show ?thesis
    using m(1) prefetching_lookups_agree [OF m(2), of "[0, 0]" "[1, 7, 2, 0]"]
      prefetching_lookups_agree [OF m(2), of "[0, 0]" "[1, 7, 2]"] prefetching_lookups_agree [OF m(2), of "[0, 0]" "[1]"]
    by (simp add: hm_find_ok [OF m(2)] m(3))
qed

end
