(* ===== verification/Bin_Search.thy ===== *)
theory Bin_Search
  imports Prelude
begin

text \<open>
  The binary searches of the prefetching experiments: \<^verbatim>\<open>app/prefetch/bin_search/bin_search.cpp\<close>, and
  \<^verbatim>\<open>naive.h\<close> and \<^verbatim>\<open>sm.h\<close> of \<^verbatim>\<open>app/prefetch/coro_bin_search\<close>.  The last one is a search cut into steps, a
  state machine that runs one step of one of several searches at a time so that the cache misses of
  different searches overlap.  Pointers into the array are offsets.  Prefetches have no effect.
\<close>

section \<open>binarySearch\<close>

text \<open>
  \<open>int\<close> arithmetic: \<open>low + high\<close> is undefined when it does not fit 32 bits.  Both are at least 0
  there, so that the quotient rounds as in C++.
\<close>

function bs_loop :: "int list \<Rightarrow> int \<Rightarrow> int \<Rightarrow> int \<Rightarrow> int result" where
  "bs_loop array key low high =
     (if low \<le> high
      then if low + high \<ge> 2 ^ 31 then Inl Overflow
           else let mid = (low + high) div 2 in
             if mid < 0 \<or> int (length array) \<le> mid then Inl OutOfBounds
             else if array ! nat mid < key then bs_loop array key (mid + 1) high
             else if array ! nat mid = key then Inr mid
             else bs_loop array key low (mid - 1)
      else Inr (- 1))"
  by pat_completeness auto
termination by (relation "measure (\<lambda>(array, key, low, high). nat (high - low + 1))") auto

declare bs_loop.simps [simp del]

definition binarySearch :: "int list \<Rightarrow> int \<Rightarrow> int \<Rightarrow> int result" where
  "binarySearch array number_of_elements key = bs_loop array key 0 (number_of_elements - 1)"

text \<open>
  One iteration of \<open>BM_BinarySearch\<close>: the numbers from 0, searched for the values of \<open>rand()\<close> modulo
  their count.
\<close>

definition bm_array :: "nat \<Rightarrow> int list" where
  "bm_array SIZE = map int [0..<SIZE]"

definition BM_BinarySearch :: "nat \<Rightarrow> nat list \<Rightarrow> int list result" where
  "BM_BinarySearch SIZE rands =
     (if SIZE = 0 \<and> rands \<noteq> [] then Inl DivByZero
      else rfold (\<lambda>key rs. rmap (\<lambda>r. rs @ [r]) (binarySearch (bm_array SIZE) (int SIZE) key))
        (map (\<lambda>r. int (r mod SIZE)) rands) [])"

section \<open>naive\_binary\_search\<close>

text \<open>The loop on \<open>first\<close> and \<open>len\<close>; both are narrowed before the test for equality.\<close>

definition narrow :: "int \<Rightarrow> int \<Rightarrow> nat \<Rightarrow> nat \<Rightarrow> nat \<times> nat" where
  "narrow middle_key val first len =
     (let half = len div 2 in
      if middle_key < val then (first + half + 1, len - half - 1) else (first, half))"

lemma narrow_less: "0 < len \<Longrightarrow> snd (narrow x val first len) < len"
  by (auto simp: narrow_def Let_def)

function naive_loop :: "int list \<Rightarrow> int \<Rightarrow> nat \<Rightarrow> nat \<Rightarrow> bool result" where
  "naive_loop v val first len =
     (if 0 < len
      then let middle = first + len div 2 in
           if middle < length v
           then if v ! middle = val then Inr True
                else naive_loop v val (fst (narrow (v ! middle) val first len)) (snd (narrow (v ! middle) val first len))
           else Inl OutOfBounds
      else Inr False)"
  by pat_completeness auto
termination by (relation "measure (\<lambda>(v, val, first, len). len)") (auto simp: narrow_def Let_def)

declare naive_loop.simps [simp del]

definition naive_binary_search :: "int list \<Rightarrow> int \<Rightarrow> bool result" where
  "naive_binary_search v val = naive_loop v val 0 (length v)"

text \<open>\<open>testNaive\<close> of \<^verbatim>\<open>nanotest.cpp\<close>.\<close>

definition testNaive :: "int list \<Rightarrow> int list \<Rightarrow> nat result" where
  "testNaive v lookups =
     rfold (\<lambda>key found. rmap (\<lambda>b. if b then Suc found else found) (naive_binary_search v key)) lookups 0"

section \<open>The state machine\<close>

datatype fstate = KEEP_GOING | FOUND | NOT_FOUND | EMPTY

record frame =
  fr_first :: nat
  fr_last :: nat
  fr_middle :: nat
  fr_len :: nat
  fr_half :: nat
  fr_val :: int
  fr_state :: fstate

text \<open>\<open>size_t\<close> subtraction.\<close>

definition size_sub :: "nat \<Rightarrow> nat \<Rightarrow> nat" where
  "size_sub a b = (a + 2 ^ 64 - b) mod 2 ^ 64"

definition frame_init :: "nat \<Rightarrow> nat \<Rightarrow> int \<Rightarrow> frame \<Rightarrow> frame" where
  "frame_init first endp key f =
     (let f1 = f\<lparr>fr_val := key, fr_first := first, fr_last := endp, fr_len := endp - first\<rparr> in
      if fr_len f1 = 0 then f1\<lparr>fr_state := NOT_FOUND\<rparr>
      else f1\<lparr>fr_half := fr_len f1 div 2, fr_middle := first + fr_len f1 div 2, fr_state := KEEP_GOING\<rparr>)"

definition frame_run :: "int list \<Rightarrow> frame \<Rightarrow> (bool \<times> frame) result" where
  "frame_run v f = rbind (vec_at v (fr_middle f)) (\<lambda>x.
     let f1 = (if x < fr_val f
               then f\<lparr>fr_first := Suc (fr_middle f), fr_len := size_sub (size_sub (fr_len f) (fr_half f)) 1\<rparr>
               else f\<lparr>fr_len := fr_half f\<rparr>) in
     if x = fr_val f then Inr (True, f1\<lparr>fr_state := FOUND\<rparr>)
     else if 0 < fr_len f1
     then Inr (False, f1\<lparr>fr_half := fr_len f1 div 2, fr_middle := fr_first f1 + fr_len f1 div 2\<rparr>)
     else Inr (True, f1\<lparr>fr_state := NOT_FOUND\<rparr>))"

partial_function (option) sm_loop :: "int list \<Rightarrow> frame \<Rightarrow> frame result option" where
  "sm_loop v f =
     (if fr_state f = KEEP_GOING
      then case frame_run v f of Inl e \<Rightarrow> Some (Inl e) | Inr (_, f') \<Rightarrow> sm_loop v f'
      else Some (Inr f))"

text \<open>\<open>f0\<close> is the uninitialised part of the frame.\<close>

definition sm_binary_search :: "frame \<Rightarrow> int list \<Rightarrow> int \<Rightarrow> bool result option" where
  "sm_binary_search f0 v key =
     map_option (rmap (\<lambda>f. fr_state f = FOUND)) (sm_loop v (frame_init 0 (length v) key (f0\<lparr>fr_state := EMPTY\<rparr>)))"

section \<open>SmMultiLookup\<close>

text \<open>The frames, the index of the current frame and the number of keys found.\<close>

record multi =
  ml_f :: "frame list"
  ml_i :: nat
  ml_result :: nat

definition ml_next :: "nat \<Rightarrow> nat \<Rightarrow> nat" where
  "ml_next N i = (if i = 0 then N else i - 1)"

text \<open>\<open>fr->init(beg, end, key)\<close> and the step to the next frame.\<close>

definition ml_start :: "int list \<Rightarrow> nat \<Rightarrow> int \<Rightarrow> multi \<Rightarrow> multi" where
  "ml_start v N key s = s\<lparr>ml_f := (ml_f s)[ml_i s := frame_init 0 (length v) key (ml_f s ! ml_i s)],
     ml_i := ml_next N (ml_i s)\<rparr>"

definition count_found :: "frame \<Rightarrow> nat \<Rightarrow> nat" where
  "count_found f result = (if fr_state f = FOUND then Suc result else result)"

text \<open>The loop \<open>for (;;)\<close>: run the current frame; when it has ended give it the next key.\<close>

partial_function (option) ml_find_slot :: "int list \<Rightarrow> nat \<Rightarrow> int \<Rightarrow> multi \<Rightarrow> multi result option" where
  "ml_find_slot v N key s =
     (if ml_i s < length (ml_f s)
      then case frame_run v (ml_f s ! ml_i s) of
             Inl e \<Rightarrow> Some (Inl e)
           | Inr (ended, f') \<Rightarrow>
               (let s1 = s\<lparr>ml_f := (ml_f s)[ml_i s := f']\<rparr> in
                if ended then Some (Inr (ml_start v N key (s1\<lparr>ml_result := count_found f' (ml_result s)\<rparr>)))
                else ml_find_slot v N key (s1\<lparr>ml_i := ml_next N (ml_i s)\<rparr>))
      else Some (Inl OutOfBounds))"

definition ml_key :: "int list \<Rightarrow> nat \<Rightarrow> int \<Rightarrow> multi \<Rightarrow> multi result option" where
  "ml_key v N key s =
     (if ml_i s < length (ml_f s)
      then if fr_state (ml_f s ! ml_i s) \<noteq> KEEP_GOING then Some (Inr (ml_start v N key s))
           else ml_find_slot v N key s
      else Some (Inl OutOfBounds))"

fun ml_keys :: "int list \<Rightarrow> nat \<Rightarrow> int list \<Rightarrow> multi \<Rightarrow> multi result option" where
  "ml_keys v N [] s = Some (Inr s)"
| "ml_keys v N (key # keys) s = (case ml_key v N key s of
     None \<Rightarrow> None | Some (Inl e) \<Rightarrow> Some (Inl e) | Some (Inr s') \<Rightarrow> ml_keys v N keys s')"

text \<open>The loop that runs the frames left over: one pass over all frames, until none had work.\<close>

definition ml_pass_step :: "int list \<Rightarrow> nat \<Rightarrow> frame list \<times> nat \<times> bool \<Rightarrow> (frame list \<times> nat \<times> bool) result" where
  "ml_pass_step v i s = (case s of (f, result, moreWork) \<Rightarrow>
     if fr_state (f ! i) = KEEP_GOING
     then rbind (frame_run v (f ! i)) (\<lambda>(ended, f').
       Inr (f[i := f'], if ended then count_found f' result else result, True))
     else Inr s)"

partial_function (option) ml_finish :: "int list \<Rightarrow> frame list \<Rightarrow> nat \<Rightarrow> nat result option" where
  "ml_finish v f result = (case rfold (ml_pass_step v) [0..<length f] (f, result, False) of
       Inl e \<Rightarrow> Some (Inl e)
     | Inr (f', result', moreWork) \<Rightarrow> if moreWork then ml_finish v f' result' else Some (Inr result'))"

text \<open>\<open>&v[0]\<close> needs a vector that is not empty.\<close>

definition SmMultiLookup :: "frame \<Rightarrow> int list \<Rightarrow> int list \<Rightarrow> nat \<Rightarrow> nat result option" where
  "SmMultiLookup f0 v lookups streams =
     (let f = replicate streams (f0\<lparr>fr_state := EMPTY\<rparr>); N = size_sub streams 1 in
      if v = [] then Some (Inl OutOfBounds)
      else case ml_keys v N lookups \<lparr>ml_f = f, ml_i = N, ml_result = 0\<rparr> of
             None \<Rightarrow> None
           | Some (Inl e) \<Rightarrow> Some (Inl e)
           | Some (Inr s) \<Rightarrow> ml_finish v (ml_f s) (ml_result s))"

section \<open>Narrowing keeps the answer\<close>

definition in_window :: "int list \<Rightarrow> nat \<Rightarrow> nat \<Rightarrow> int \<Rightarrow> bool" where
  "in_window v first len val \<longleftrightarrow> (\<exists>i. first \<le> i \<and> i < first + len \<and> v ! i = val)"

lemma in_window_empty [simp]: "\<not> in_window v first 0 val"
  by (simp add: in_window_def)

lemma in_window_all: "in_window v 0 (length v) val \<longleftrightarrow> val \<in> set v"
  by (auto simp: in_window_def in_set_conv_nth)

lemma in_window_mono:
  assumes "in_window v a k val" and "a' \<le> a" and "a + k \<le> a' + k'"
  shows "in_window v a' k' val"
proof -
  from assms(1) obtain i where "a \<le> i" "i < a + k" "v ! i = val" by (auto simp: in_window_def)
  with assms(2,3) show ?thesis unfolding in_window_def by (intro exI [of _ i]) auto
qed

lemma in_window_right:
  assumes "sorted v" and "first + len \<le> length v" and "half < len" and "v ! (first + half) < val"
  shows "in_window v (first + half + 1) (len - half - 1) val \<longleftrightarrow> in_window v first len val"
proof
  assume "in_window v first len val"
  then obtain i where i: "first \<le> i" "i < first + len" "v ! i = val" by (auto simp: in_window_def)
  have "\<not> i \<le> first + half"
    using sorted_nth_mono [OF assms(1), of i "first + half"] assms(2-4) i(3) by auto
  with i assms(3) show "in_window v (first + half + 1) (len - half - 1) val"
    unfolding in_window_def by (intro exI [of _ i]) auto
qed (use assms(3) in \<open>auto elim!: in_window_mono\<close>)

lemma in_window_left:
  assumes "sorted v" and "first + len \<le> length v" and "half < len" and "val < v ! (first + half)"
  shows "in_window v first half val \<longleftrightarrow> in_window v first len val"
proof
  assume "in_window v first len val"
  then obtain i where i: "first \<le> i" "i < first + len" "v ! i = val" by (auto simp: in_window_def)
  have "\<not> first + half \<le> i"
    using sorted_nth_mono [OF assms(1), of "first + half" i] assms(2,4) i(2,3) by auto
  with i show "in_window v first half val" by (auto simp: in_window_def)
qed (use assms(3) in \<open>auto elim!: in_window_mono\<close>)

lemma in_window_hit: "half < len \<Longrightarrow> v ! (first + half) = val \<Longrightarrow> in_window v first len val"
  unfolding in_window_def by (intro exI [of _ "first + half"]) auto

lemma naive_loop_ok:
  assumes "sorted v" and "first + len \<le> length v"
  shows "naive_loop v val first len = Inr (in_window v first len val)"
  using assms(2)
proof (induction len arbitrary: first rule: less_induct)
  case (less len)
  show ?case
  proof (cases "len = 0")
    case True
    then show ?thesis by (simp add: naive_loop.simps)
  next
    case False
    let ?h = "len div 2"
    have h: "?h < len" "first + ?h < length v" using False less.prems by auto
    consider "v ! (first + ?h) = val" | "v ! (first + ?h) < val" | "val < v ! (first + ?h)" by linarith
    then show ?thesis
    proof cases
      case 1
      then show ?thesis using h False in_window_hit [of ?h len v first val] by (simp add: naive_loop.simps [of v val first])
    next
      case 2
      then show ?thesis
        using less.IH [of "len - ?h - 1" "first + ?h + 1"] less.prems h False in_window_right [OF assms(1) less.prems h(1)]
        by (simp add: naive_loop.simps [of v val first] narrow_def Let_def)
    next
      case 3
      then show ?thesis
        using less.IH [of ?h first] less.prems h False in_window_left [OF assms(1) less.prems h(1)]
        by (simp add: naive_loop.simps [of v val first] narrow_def Let_def)
    qed
  qed
qed

lemma naive_ok: "sorted v \<Longrightarrow> naive_binary_search v val = Inr (val \<in> set v)"
  using naive_loop_ok [of v 0 "length v" val] by (simp add: naive_binary_search_def in_window_all)

definition hits :: "int list \<Rightarrow> int list \<Rightarrow> nat" where
  "hits v lookups = length (filter (\<lambda>key. key \<in> set v) lookups)"

lemma testNaive_ok:
  assumes "sorted v"
  shows "testNaive v lookups = Inr (hits v lookups)"
proof -
  have "rfold (\<lambda>key found. rmap (\<lambda>b. if b then Suc found else found) (naive_binary_search v key)) lookups n =
      Inr (n + hits v lookups)" for n
    by (induction lookups arbitrary: n) (simp_all add: naive_ok [OF assms] hits_def)
  from this [of 0] show ?thesis by (simp add: testNaive_def)
qed

section \<open>binarySearch\<close>

definition search_result :: "int list \<Rightarrow> int \<Rightarrow> int \<Rightarrow> bool" where
  "search_result array key r \<longleftrightarrow>
     (if key \<in> set array then 0 \<le> r \<and> r < int (length array) \<and> array ! nat r = key else r = - 1)"

lemma bs_loop_ok:
  assumes "sorted array" and "length array \<le> 2 ^ 30" and "0 \<le> low" and "high < int (length array)" and "low \<le> high + 1"
    and "key \<in> set array \<longleftrightarrow> in_window array (nat low) (nat (high - low + 1)) key"
  shows "\<exists>r. bs_loop array key low high = Inr r \<and> search_result array key r"
  using assms
proof (induction array key low high rule: bs_loop.induct)
  case (1 array key low high)
  show ?case
  proof (cases "low \<le> high")
    case False
    then show ?thesis using 1(7,8) by (auto simp: bs_loop.simps search_result_def)
  next
    case True
    let ?m = "(low + high) div 2"
    let ?h = "nat ?m - nat low"
    have m: "low \<le> ?m" "?m \<le> high" "0 \<le> ?m" "?m < int (length array)" "low + high < 2 ^ 31"
      using True 1(5,6) 1(4) by auto
    have w: "nat low + nat (high - low + 1) \<le> length array" "?h < nat (high - low + 1)" "nat low + ?h = nat ?m"
      using m True 1(5,6) by auto
    note sm = bs_loop.simps [of array key low high]
    consider "array ! nat ?m < key" | "array ! nat ?m = key" | "key < array ! nat ?m" by linarith
    then show ?thesis
    proof cases
      case c: 1
      have "in_window array (nat (?m + 1)) (nat (high - (?m + 1) + 1)) key \<longleftrightarrow> key \<in> set array"
        using in_window_right [OF 1(3) w(1,2), of key] c w(3) m True 1(5,8) by (simp add: nat_diff_distrib nat_add_distrib algebra_simps)
      then have "\<exists>r. bs_loop array key (?m + 1) high = Inr r \<and> search_result array key r"
        using 1(1) [OF True _ refl] m c 1(3-) by auto
      then show ?thesis using c m True by (simp add: sm Let_def)
    next
      case 2
      then have "key \<in> set array" using m by (metis nth_mem nat_less_iff)
      then show ?thesis using 2 m True by (simp add: sm Let_def search_result_def)
    next
      case c: 3
      have "in_window array (nat low) (nat (?m - 1 - low + 1)) key \<longleftrightarrow> key \<in> set array"
        using in_window_left [OF 1(3) w(1,2), of key] c w(3) m True 1(5,8) by (simp add: nat_diff_distrib)
      then have "\<exists>r. bs_loop array key low (?m - 1) = Inr r \<and> search_result array key r"
        using 1(2) [OF True _ refl] m c 1(3-) by auto
      then show ?thesis using c m True by (simp add: sm Let_def)
    qed
  qed
qed

section \<open>One step of the state machine\<close>

lemma size_sub_le: "b \<le> a \<Longrightarrow> a < 2 ^ 64 \<Longrightarrow> size_sub a b = a - b"
proof -
  assume "b \<le> a" "a < 2 ^ 64"
  then have "(a + 2 ^ 64 - b) mod 2 ^ 64 = (a - b + 2 ^ 64) mod 2 ^ 64" by simp
  also have "\<dots> = a - b" using \<open>a < 2 ^ 64\<close> by (subst mod_add_self2) simp
  finally show ?thesis by (simp add: size_sub_def)
qed

definition frame_ok :: "int list \<Rightarrow> frame \<Rightarrow> bool" where
  "frame_ok v f \<longleftrightarrow> (fr_state f = KEEP_GOING \<longrightarrow> 0 < fr_len f \<and> fr_first f + fr_len f \<le> length v \<and>
     fr_half f = fr_len f div 2 \<and> fr_middle f = fr_first f + fr_half f)"

text \<open>The hits a frame still has to report, and the steps it can still make at most.\<close>

definition pending :: "int list \<Rightarrow> frame \<Rightarrow> nat" where
  "pending v f = (if fr_state f = KEEP_GOING \<and> in_window v (fr_first f) (fr_len f) (fr_val f) then 1 else 0)"

definition frame_work :: "frame \<Rightarrow> nat" where
  "frame_work f = (if fr_state f = KEEP_GOING then fr_len f else 0)"

lemma frame_init_ok:
  assumes "v \<noteq> []"
  shows "fr_state (frame_init 0 (length v) key f) = KEEP_GOING" and "frame_ok v (frame_init 0 (length v) key f)"
    and "pending v (frame_init 0 (length v) key f) = (if key \<in> set v then 1 else 0)"
  using assms by (simp_all add: frame_init_def frame_ok_def pending_def in_window_all)

lemma frame_run_ok:
  assumes v: "sorted v" "length v < 2 ^ 64" and f: "frame_ok v f" "fr_state f = KEEP_GOING"
  shows "\<exists>ended f'. frame_run v f = Inr (ended, f') \<and> frame_ok v f' \<and> frame_work f' < frame_work f \<and>
    (ended \<longleftrightarrow> fr_state f' \<noteq> KEEP_GOING) \<and> (\<forall>r. count_found f' r + pending v f' = r + pending v f)"
proof -
  let ?a = "fr_first f" and ?n = "fr_len f" and ?h = "fr_len f div 2"
  have n: "0 < ?n" "?a + ?n \<le> length v" "fr_half f = ?h" "fr_middle f = ?a + ?h" "?h < ?n"
    using f by (auto simp: frame_ok_def)
  have lt: "?a + ?h < length v" using n by simp
  have sub: "size_sub (size_sub ?n ?h) 1 = ?n - ?h - 1"
    using n v(2) by (simp add: size_sub_le)
  note defs = frame_run_def Let_def frame_ok_def frame_work_def pending_def count_found_def
  consider "v ! (?a + ?h) = fr_val f" | "v ! (?a + ?h) < fr_val f" | "fr_val f < v ! (?a + ?h)" by linarith
  then show ?thesis
  proof cases
    case 1
    then show ?thesis using n f lt in_window_hit [OF n(5) 1] by (auto simp: defs)
  next
    case 2
    then show ?thesis using n f lt in_window_right [OF v(1) n(2,5) 2] sub
      by (cases "?n - ?h - 1 = 0") (auto simp: defs)
  next
    case 3
    then show ?thesis using n f lt in_window_left [OF v(1) n(2,5) 3]
      by (cases "?h = 0") (auto simp: defs)
  qed
qed

lemma sm_loop_ok:
  assumes v: "sorted v" "length v < 2 ^ 64" and f: "frame_ok v f" "fr_state f \<noteq> EMPTY"
  shows "\<exists>f'. sm_loop v f = Some (Inr f') \<and> (if fr_state f' = FOUND then 1 else 0) =
    pending v f + (if fr_state f = FOUND then 1 else 0)"
  using f
proof (induction "frame_work f" arbitrary: f rule: less_induct)
  case less
  show ?case
  proof (cases "fr_state f = KEEP_GOING")
    case False
    then show ?thesis by (simp add: sm_loop.simps [of v f] pending_def)
  next
    case True
    then obtain b f' where r: "frame_run v f = Inr (b, f')" "frame_ok v f'" "frame_work f' < frame_work f"
        "\<forall>r. count_found f' r + pending v f' = r + pending v f"
      using frame_run_ok [OF v less.prems(1)] by blast
    then have "fr_state f' \<noteq> EMPTY" using True by (auto simp: frame_run_def Let_def result_simps split: if_splits)
    from less.hyps [OF r(3,2) this] r(4) [rule_format, of 0] True r(1) show ?thesis
      by (auto simp: sm_loop.simps [of v f] count_found_def split: if_splits)
  qed
qed

lemma sm_ok:
  assumes "sorted v" and "length v < 2 ^ 64"
  shows "sm_binary_search f0 v key = Some (Inr (key \<in> set v))"
proof (cases "v = []")
  case True
  then show ?thesis by (simp add: sm_binary_search_def frame_init_def) (subst sm_loop.simps, simp)
next
  case False
  let ?f = "frame_init 0 (length v) key (f0\<lparr>fr_state := EMPTY\<rparr>)"
  note i = frame_init_ok [OF False, of key "f0\<lparr>fr_state := EMPTY\<rparr>"]
  have "fr_state ?f \<noteq> EMPTY" using i(1) by simp
  from sm_loop_ok [OF assms i(2) this] obtain f' where l: "sm_loop v ?f = Some (Inr f')"
    and c: "(if fr_state f' = FOUND then 1 else 0) = pending v ?f + (if fr_state ?f = FOUND then 1 else 0)" by blast
  have "fr_state f' = FOUND \<longleftrightarrow> key \<in> set v" using c unfolding i(1,3) by (auto split: if_splits)
  then show ?thesis unfolding sm_binary_search_def l by simp
qed

section \<open>Many searches at once\<close>

lemma sum_list_replace:
  "i < length xs \<Longrightarrow> sum_list (map g (xs[i := y])) + g (xs ! i) = sum_list (map g xs) + (g y :: nat)"
proof (induction xs arbitrary: i)
  case (Cons x xs)
  then show ?case by (cases i) (auto simp: algebra_simps)
qed simp

abbreviation all_pending :: "int list \<Rightarrow> frame list \<Rightarrow> nat" where
  "all_pending v f \<equiv> sum_list (map (pending v) f)"

abbreviation all_work :: "frame list \<Rightarrow> nat" where
  "all_work f \<equiv> sum_list (map frame_work f)"

definition busy :: "int list \<Rightarrow> nat \<Rightarrow> multi \<Rightarrow> bool" where
  "busy v N s \<longleftrightarrow> length (ml_f s) = Suc N \<and> ml_i s \<le> N \<and>
     (\<forall>f\<in>set (ml_f s). fr_state f = KEEP_GOING \<and> frame_ok v f)"

definition filling :: "int list \<Rightarrow> nat \<Rightarrow> multi \<Rightarrow> bool" where
  "filling v N s \<longleftrightarrow> length (ml_f s) = Suc N \<and> ml_i s \<le> N \<and>
     (\<forall>j\<le>N. if j \<le> ml_i s then fr_state (ml_f s ! j) = EMPTY
            else fr_state (ml_f s ! j) = KEEP_GOING \<and> frame_ok v (ml_f s ! j))"

lemma ml_next_le: "i \<le> N \<Longrightarrow> ml_next N i \<le> N"
  by (auto simp: ml_next_def)

lemma ml_start_busy:
  assumes "v \<noteq> []" and "length (ml_f s) = Suc N" and "ml_i s \<le> N"
    and "\<forall>j\<le>N. j \<noteq> ml_i s \<longrightarrow> fr_state (ml_f s ! j) = KEEP_GOING \<and> frame_ok v (ml_f s ! j)"
  shows "busy v N (ml_start v N key s)"
  using assms(2-) by (auto simp: busy_def ml_start_def ml_next_le in_set_conv_nth nth_list_update frame_init_ok [OF assms(1)])

lemma ml_start_counts:
  assumes "v \<noteq> []" and "ml_i s < length (ml_f s)" and "pending v (ml_f s ! ml_i s) = 0"
  shows "ml_result (ml_start v N key s) + all_pending v (ml_f (ml_start v N key s)) =
    ml_result s + all_pending v (ml_f s) + (if key \<in> set v then 1 else 0)"
  using sum_list_replace [OF assms(2), of "pending v" "frame_init 0 (length v) key (ml_f s ! ml_i s)"]
    assms(3) frame_init_ok(3) [OF assms(1)] by (simp add: ml_start_def)

lemma ml_find_slot_ok:
  assumes v: "sorted v" "length v < 2 ^ 64" "v \<noteq> []" and s: "busy v N s"
  shows "\<exists>s'. ml_find_slot v N key s = Some (Inr s') \<and> busy v N s' \<and>
    ml_result s' + all_pending v (ml_f s') = ml_result s + all_pending v (ml_f s) + (if key \<in> set v then 1 else 0)"
  using s
proof (induction "all_work (ml_f s)" arbitrary: s rule: less_induct)
  case less
  let ?f = "ml_f s ! ml_i s"
  have i: "ml_i s < length (ml_f s)" and f: "frame_ok v ?f" "fr_state ?f = KEEP_GOING"
    using less.prems by (auto simp: busy_def)
  obtain b f' where r: "frame_run v ?f = Inr (b, f')" "frame_ok v f'" "frame_work f' < frame_work ?f"
      "b \<longleftrightarrow> fr_state f' \<noteq> KEEP_GOING" "\<forall>r. count_found f' r + pending v f' = r + pending v ?f"
    using frame_run_ok [OF v(1,2) f] by blast
  let ?s = "s\<lparr>ml_f := (ml_f s)[ml_i s := f']\<rparr>"
  note pend = sum_list_replace [OF i, of "pending v" f']
  show ?case
  proof (cases b)
    case True
    let ?t = "?s\<lparr>ml_result := count_found f' (ml_result s)\<rparr>"
    have "busy v N (ml_start v N key ?t)"
      using less.prems by (intro ml_start_busy [OF v(3)]) (auto simp: busy_def)
    moreover have z: "pending v f' = 0" using True r(4) by (simp add: pending_def)
    moreover have "count_found f' (ml_result s) = ml_result s + pending v ?f"
      using r(5) [rule_format, of "ml_result s"] z by simp
    ultimately show ?thesis
      using ml_start_counts [OF v(3), of ?t N key] pend i r(1) True
      by (simp add: ml_find_slot.simps [of v N key s] Let_def)
  next
    case False
    let ?t = "?s\<lparr>ml_i := ml_next N (ml_i s)\<rparr>"
    have "busy v N ?t"
      using less.prems r(2,4) False i by (auto simp: busy_def ml_next_le dest!: set_update_subset_insert [THEN subsetD])
    moreover have "all_work (ml_f ?t) < all_work (ml_f s)"
      using sum_list_replace [OF i, of frame_work f'] r(3) by simp
    moreover have "pending v f' = pending v ?f"
      using r(5) [rule_format, of 0] False r(4) by (simp add: count_found_def)
    ultimately show ?thesis
      using less.hyps [of ?t] pend r(1) i False by (simp add: ml_find_slot.simps [of v N key s] Let_def)
  qed
qed

lemma filling_start:
  assumes v: "v \<noteq> []" and s: "filling v N s"
  shows "filling v N (ml_start v N key s) \<or> busy v N (ml_start v N key s)"
proof (cases "ml_i s = 0")
  case True
  have "busy v N (ml_start v N key s)" using s True by (intro ml_start_busy [OF v]) (auto simp: filling_def)
  then show ?thesis by simp
next
  case False
  then have "filling v N (ml_start v N key s)"
    using s by (auto simp: filling_def ml_start_def ml_next_def nth_list_update frame_init_ok [OF v])
  then show ?thesis by simp
qed

lemma ml_key_ok:
  assumes v: "sorted v" "length v < 2 ^ 64" "v \<noteq> []" and s: "filling v N s \<or> busy v N s"
  shows "\<exists>s'. ml_key v N key s = Some (Inr s') \<and> (filling v N s' \<or> busy v N s') \<and>
    ml_result s' + all_pending v (ml_f s') = ml_result s + all_pending v (ml_f s) + (if key \<in> set v then 1 else 0)"
  using s
proof
  assume f: "filling v N s"
  then have i: "ml_i s < length (ml_f s)" and e: "fr_state (ml_f s ! ml_i s) = EMPTY" by (auto simp: filling_def)
  then have "ml_key v N key s = Some (Inr (ml_start v N key s))" by (simp add: ml_key_def)
  then show ?thesis
    using filling_start [OF v(3) f, of key] ml_start_counts [OF v(3) i, of N key] e by (simp add: pending_def)
next
  assume b: "busy v N s"
  then have "ml_i s < length (ml_f s)" "fr_state (ml_f s ! ml_i s) = KEEP_GOING" by (auto simp: busy_def)
  then have "ml_key v N key s = ml_find_slot v N key s" by (simp add: ml_key_def)
  then show ?thesis using ml_find_slot_ok [OF v b, of key] by auto
qed

lemma ml_keys_ok:
  assumes v: "sorted v" "length v < 2 ^ 64" "v \<noteq> []" and s: "filling v N s \<or> busy v N s"
  shows "\<exists>s'. ml_keys v N keys s = Some (Inr s') \<and> (filling v N s' \<or> busy v N s') \<and>
    ml_result s' + all_pending v (ml_f s') = ml_result s + all_pending v (ml_f s) + hits v keys"
  using s
proof (induction keys arbitrary: s)
  case Nil
  then show ?case by (simp add: hits_def)
next
  case (Cons key keys)
  then obtain s1 where s1: "ml_key v N key s = Some (Inr s1)" "filling v N s1 \<or> busy v N s1"
      "ml_result s1 + all_pending v (ml_f s1) = ml_result s + all_pending v (ml_f s) + (if key \<in> set v then 1 else 0)"
    using ml_key_ok [OF v] by blast
  from Cons.IH [OF s1(2)] s1 show ?case by (auto simp: hits_def)
qed

text \<open>One pass of the last loop, up to frame \<open>i\<close>.\<close>

definition passed :: "int list \<Rightarrow> frame list \<Rightarrow> nat \<Rightarrow> nat \<Rightarrow> frame list \<times> nat \<times> bool \<Rightarrow> bool" where
  "passed v f r i s = (case s of (f', r', moreWork) \<Rightarrow>
     length f' = length f \<and> (\<forall>x\<in>set f'. frame_ok v x) \<and> r' + all_pending v f' = r + all_pending v f \<and>
     (if moreWork then all_work f' < all_work f else f' = f \<and> (\<forall>j<i. fr_state (f ! j) \<noteq> KEEP_GOING)))"

lemma ml_pass_step_ok:
  assumes v: "sorted v" "length v < 2 ^ 64" and i: "i < length f" and s: "passed v f r i s"
  shows "\<exists>s'. ml_pass_step v i s = Inr s' \<and> passed v f r (Suc i) s'"
proof -
  obtain g r1 mw where [simp]: "s = (g, r1, mw)" by (cases s)
  have g: "i < length g" "frame_ok v (g ! i)" using s i by (auto simp: passed_def)
  show ?thesis
  proof (cases "fr_state (g ! i) = KEEP_GOING")
    case False
    then show ?thesis using s by (auto simp: ml_pass_step_def passed_def less_Suc_eq)
  next
    case True
    obtain b f' where fr: "frame_run v (g ! i) = Inr (b, f')" "frame_ok v f'" "frame_work f' < frame_work (g ! i)"
        "b \<longleftrightarrow> fr_state f' \<noteq> KEEP_GOING" "\<forall>r. count_found f' r + pending v f' = r + pending v (g ! i)"
      using frame_run_ok [OF v g(2) True] by blast
    have "(if b then count_found f' r1 else r1) + pending v f' = r1 + pending v (g ! i)"
      using fr(4) fr(5) [rule_format, of r1] by (auto simp: count_found_def)
    moreover have "all_work (g[i := f']) < all_work g"
      using sum_list_replace [OF g(1), of frame_work f'] fr(3) by simp
    moreover have "\<forall>x\<in>set (g[i := f']). frame_ok v x"
      using s fr(2) by (auto simp: passed_def dest!: set_update_subset_insert [THEN subsetD])
    ultimately show ?thesis
      using sum_list_replace [OF g(1), of "pending v" f'] s fr(1) True
      by (auto simp: ml_pass_step_def passed_def split: if_splits)
  qed
qed

lemma ml_finish_ok:
  assumes v: "sorted v" "length v < 2 ^ 64" and f: "\<forall>x\<in>set f. frame_ok v x"
  shows "ml_finish v f r = Some (Inr (r + all_pending v f))"
  using f
proof (induction "all_work f" arbitrary: f r rule: less_induct)
  case less
  have "\<exists>s'. rfold (ml_pass_step v) [0..<length f] (f, r, False) = Inr s' \<and> passed v f r (length f) s'"
    by (rule rfold_upt_total) (use less.prems ml_pass_step_ok [OF v] in \<open>auto simp: passed_def\<close>)
  then obtain g r1 mw where p: "rfold (ml_pass_step v) [0..<length f] (f, r, False) = Inr (g, r1, mw)"
      "passed v f r (length f) (g, r1, mw)" by auto
  show ?case
  proof (cases mw)
    case True
    then show ?thesis using p less.hyps [of g r1] by (simp add: ml_finish.simps [of v f r] passed_def)
  next
    case False
    then have "\<forall>x\<in>set f. fr_state x \<noteq> KEEP_GOING" using p(2) by (auto simp: passed_def in_set_conv_nth)
    then have z: "all_pending v f = 0" by (simp add: pending_def sum_list_eq_0_iff)
    have "r1 = r" using p(2) False by (auto simp: passed_def)
    then show ?thesis unfolding z using p(1) False by (simp add: ml_finish.simps [of v f r])
  qed
qed

lemma SmMultiLookup_ok:
  assumes v: "sorted v" "length v < 2 ^ 64" "v \<noteq> []" and n: "1 \<le> streams" "streams < 2 ^ 64"
  shows "SmMultiLookup f0 v lookups streams = Some (Inr (hits v lookups))"
proof -
  let ?f = "replicate streams (f0\<lparr>fr_state := EMPTY\<rparr>)" and ?N = "streams - 1"
  let ?s = "\<lparr>ml_f = ?f, ml_i = ?N, ml_result = 0\<rparr>"
  have "filling v ?N ?s" using n by (auto simp: filling_def)
  then obtain s where s: "ml_keys v ?N lookups ?s = Some (Inr s)" "filling v ?N s \<or> busy v ?N s"
      "ml_result s + all_pending v (ml_f s) = all_pending v ?f + hits v lookups"
    using ml_keys_ok [OF v, of ?N ?s lookups] by auto
  have "\<forall>x\<in>set (ml_f s). frame_ok v x"
    using s(2) by (fastforce simp: busy_def filling_def frame_ok_def in_set_conv_nth less_Suc_eq_le split: if_splits)
  moreover have "all_pending v ?f = 0" by (simp add: pending_def sum_list_replicate)
  ultimately show ?thesis
    using s(1,3) ml_finish_ok [OF v(1,2)] v(3) n by (simp add: SmMultiLookup_def size_sub_le)
qed

lemma binarySearch_ok:
  assumes "sorted array" and "length array \<le> 2 ^ 30"
  shows "\<exists>r. binarySearch array (int (length array)) key = Inr r \<and>
    (if key \<in> set array then 0 \<le> r \<and> r < int (length array) \<and> array ! nat r = key else r = - 1)"
proof -
  have "key \<in> set array \<longleftrightarrow> in_window array (nat 0) (nat (int (length array) - 1 - 0 + 1)) key"
    by (simp add: in_window_all)
  from bs_loop_ok [OF assms _ _ _ this] show ?thesis by (simp add: binarySearch_def search_result_def)
qed

text \<open>The benchmark finds every key it looks for, at the index that is the key.\<close>

lemma BM_BinarySearch_finds:
  assumes "1 \<le> SIZE" and "SIZE \<le> 2 ^ 30"
  shows "BM_BinarySearch SIZE rands = Inr (map (\<lambda>r. int (r mod SIZE)) rands)"
proof -
  have found: "binarySearch (bm_array SIZE) (int SIZE) (int k) = Inr (int k)" if "k < SIZE" for k
  proof -
    have "sorted (bm_array SIZE)" "length (bm_array SIZE) = SIZE" "int k \<in> set (bm_array SIZE)"
      using that by (auto simp: bm_array_def sorted_iff_nth_mono_less)
    with binarySearch_ok [of "bm_array SIZE" "int k"] assms(2) obtain r where
      r: "binarySearch (bm_array SIZE) (int SIZE) (int k) = Inr r" "0 \<le> r" "r < int SIZE" "bm_array SIZE ! nat r = int k" by auto
    then have "r = int k" by (simp add: bm_array_def)
    with r(1) show ?thesis by simp
  qed
  have "rfold (\<lambda>key rs. rmap (\<lambda>r. rs @ [r]) (binarySearch (bm_array SIZE) (int SIZE) key))
      (map (\<lambda>r. int (r mod SIZE)) rands) acc = Inr (acc @ map (\<lambda>r. int (r mod SIZE)) rands)" for acc
    using assms(1) by (induction rands arbitrary: acc) (simp_all add: found)
  then show ?thesis using assms(1) by (simp add: BM_BinarySearch_def)
qed

section \<open>Properties\<close>

text \<open>
  C23. \<open>binarySearch\<close> on a sorted array of at most \<open>2 ^ 30\<close> elements returns, without overflow and
  inside the array: an index of the key if the key is there, -1 otherwise.
\<close>

theorem binary_search_correct:
  assumes "sorted array" and "length array \<le> 2 ^ 30"
  shows "\<exists>r. binarySearch array (int (length array)) key = Inr r \<and>
    (if key \<in> set array then 0 \<le> r \<and> r < int (length array) \<and> array ! nat r = key else r = - 1)"
  by (rule binarySearch_ok [OF assms])

theorem binary_search_correct_witness:
  "\<exists>r. binarySearch [1, 4, 6, 9] 4 6 = Inr r \<and> 0 \<le> r \<and> r < 4 \<and> [1, 4, 6, 9 :: int] ! nat r = 6"
  using binary_search_correct [of "[1, 4, 6, 9]" 6] by simp

end
