(* ===== verification/Coro_Search.thy ===== *)
theory Coro_Search
  imports Bin_Search
begin

text \<open>
  The coroutine variant of the interleaved binary search, \<^verbatim>\<open>coro.h\<close> and \<^verbatim>\<open>coro_infra.h\<close> of
  \<^verbatim>\<open>app/prefetch/coro_bin_search\<close>.  A coroutine is the state it has at a suspension point.  At a
  \<open>co_await prefetch\<close> it appends itself to the scheduler's ring of 256 handles and control passes to the
  coroutine popped from the front; when a coroutine ends, control returns to the caller of \<open>resume\<close>.
  The ring holds the coroutine states themselves; \<open>Coro_Frames\<close> has handles to frames on a heap.
\<close>

section \<open>The coroutine\<close>

datatype coro =
    CoInitial (co_val: int)
  | CoPrefetch (co_first: nat) (co_len: nat) (co_val: int)

datatype co_outcome = Suspend coro | Return bool

text \<open>The head of the loop, up to the next \<open>co_await\<close>.\<close>

definition co_head :: "nat \<Rightarrow> nat \<Rightarrow> int \<Rightarrow> co_outcome" where
  "co_head first len val = (if 0 < len then Suspend (CoPrefetch first len val) else Return False)"

text \<open>From one suspension point to the next; \<open>Return\<close> says which of the two callbacks was called.\<close>

fun co_resume :: "int list \<Rightarrow> coro \<Rightarrow> co_outcome result" where
  "co_resume v (CoInitial val) = Inr (co_head 0 (length v) val)"
| "co_resume v (CoPrefetch first len val) =
     rbind (vec_at v (first + len div 2)) (\<lambda>x.
       if x = val then Inr (Return True)
       else Inr (co_head (fst (narrow x val first len)) (snd (narrow x val first len)) val))"

section \<open>scheduler\_queue\<close>

record 'h scheduler_queue =
  sq_head :: nat
  sq_tail :: nat
  sq_arr :: "'h option list"

definition new_scheduler_queue :: "'h scheduler_queue" where
  "new_scheduler_queue = \<lparr>sq_head = 0, sq_tail = 0, sq_arr = replicate 256 None\<rparr>"

definition push_back :: "'h \<Rightarrow> 'h scheduler_queue \<Rightarrow> 'h scheduler_queue" where
  "push_back h q = q\<lparr>sq_arr := (sq_arr q)[sq_head q := Some h], sq_head := (sq_head q + 1) mod 256\<rparr>"

definition pop_front :: "'h scheduler_queue \<Rightarrow> 'h option \<times> 'h scheduler_queue" where
  "pop_front q = (sq_arr q ! sq_tail q, q\<lparr>sq_tail := (sq_tail q + 1) mod 256\<rparr>)"

definition try_pop_front :: "'h scheduler_queue \<Rightarrow> 'h option \<times> 'h scheduler_queue" where
  "try_pop_front q = (if sq_head q \<noteq> sq_tail q then pop_front q else (None, q))"

section \<open>throttler and scheduler\<close>

record co_world =
  wd_q :: "coro scheduler_queue"
  wd_limit :: u32
  wd_found :: nat
  wd_not_found :: nat

text \<open>\<open>h.resume()\<close>, with the control transfers of \<open>await_suspend\<close>, and \<open>on_task_done\<close> at the end.\<close>

partial_function (option) co_run :: "int list \<Rightarrow> coro option \<Rightarrow> co_world \<Rightarrow> co_world result option" where
  "co_run v ho w = (case ho of
     None \<Rightarrow> Some (Inl NullPointer)
   | Some h \<Rightarrow> (case co_resume v h of
       Inl e \<Rightarrow> Some (Inl e)
     | Inr (Suspend h') \<Rightarrow> (case pop_front (push_back h' (wd_q w)) of (ho', q') \<Rightarrow> co_run v ho' (w\<lparr>wd_q := q'\<rparr>))
     | Inr (Return b) \<Rightarrow> Some (Inr (w\<lparr>wd_limit := wd_limit w + 1,
         wd_found := (if b then Suc (wd_found w) else wd_found w),
         wd_not_found := (if b then wd_not_found w else Suc (wd_not_found w))\<rparr>))))"

definition throttler_spawn :: "int list \<Rightarrow> int \<Rightarrow> co_world \<Rightarrow> co_world result option" where
  "throttler_spawn v key w =
     (case (if wd_limit w = 0
            then (case pop_front (wd_q w) of (ho, q) \<Rightarrow> co_run v ho (w\<lparr>wd_q := q\<rparr>)) else Some (Inr w)) of
        None \<Rightarrow> None
      | Some (Inl e) \<Rightarrow> Some (Inl e)
      | Some (Inr w') \<Rightarrow> Some (Inr (w'\<lparr>wd_q := push_back (CoInitial key) (wd_q w'), wd_limit := wd_limit w' - 1\<rparr>)))"

fun spawn_all :: "int list \<Rightarrow> int list \<Rightarrow> co_world \<Rightarrow> co_world result option" where
  "spawn_all v [] w = Some (Inr w)"
| "spawn_all v (key # keys) w = (case throttler_spawn v key w of
     None \<Rightarrow> None | Some (Inl e) \<Rightarrow> Some (Inl e) | Some (Inr w') \<Rightarrow> spawn_all v keys w')"

partial_function (option) scheduler_run :: "int list \<Rightarrow> co_world \<Rightarrow> co_world result option" where
  "scheduler_run v w = (case try_pop_front (wd_q w) of
     (None, _) \<Rightarrow> Some (Inr w)
   | (Some h, q) \<Rightarrow> (case co_run v (Some h) (w\<lparr>wd_q := q\<rparr>) of
       None \<Rightarrow> None | Some (Inl e) \<Rightarrow> Some (Inl e) | Some (Inr w') \<Rightarrow> scheduler_run v w'))"

text \<open>\<open>CoroMultiLookup\<close>: the number found, and whether the message about lost lookups is printed.\<close>

definition CoroMultiLookup :: "int list \<Rightarrow> int list \<Rightarrow> u32 \<Rightarrow> (nat \<times> bool) result option" where
  "CoroMultiLookup v lookups streams =
     (case spawn_all v lookups \<lparr>wd_q = new_scheduler_queue, wd_limit = streams, wd_found = 0, wd_not_found = 0\<rparr> of
        None \<Rightarrow> None
      | Some (Inl e) \<Rightarrow> Some (Inl e)
      | Some (Inr w) \<Rightarrow> map_option (rmap (\<lambda>w'. (wd_found w', wd_found w' + wd_not_found w' \<noteq> length lookups)))
          (scheduler_run v w))"

section \<open>The ring as a queue\<close>

text \<open>The interface of a queue of bounded capacity.\<close>

locale bounded_fifo =
  fixes push :: "'h \<Rightarrow> 'q \<Rightarrow> 'q" and pop :: "'q \<Rightarrow> 'h option \<times> 'q" and try_pop :: "'q \<Rightarrow> 'h option \<times> 'q"
    and ok :: "'q \<Rightarrow> bool" and items :: "'q \<Rightarrow> 'h option list" and cap :: nat
  assumes push_items: "ok q \<Longrightarrow> length (items q) < cap \<Longrightarrow> ok (push h q) \<and> items (push h q) = items q @ [Some h]"
    and pop_items: "ok q \<Longrightarrow> items q = x # xs \<Longrightarrow> \<exists>q'. pop q = (x, q') \<and> ok q' \<and> items q' = xs"
    and try_pop_items: "ok q \<Longrightarrow> try_pop q = (if items q = [] then (None, q) else pop q)"
begin

text \<open>Suspending: append oneself and take the front.\<close>

lemma rotate:
  assumes "ok q" and "length (items q) < cap"
  shows "\<exists>x q'. pop (push h q) = (x, q') \<and> ok q' \<and> x # items q' = items q @ [Some h]"
proof -
  have p: "ok (push h q)" "items (push h q) = items q @ [Some h]" using push_items [OF assms] by auto
  then obtain x xs where x: "items (push h q) = x # xs" by (cases "items q") auto
  with pop_items [OF p(1) x] p(2) show ?thesis by metis
qed

end

definition ring_ok :: "'h scheduler_queue \<Rightarrow> bool" where
  "ring_ok q \<longleftrightarrow> sq_head q < 256 \<and> sq_tail q < 256 \<and> length (sq_arr q) = 256"

definition ring_len :: "'h scheduler_queue \<Rightarrow> nat" where
  "ring_len q = (sq_head q + 256 - sq_tail q) mod 256"

definition ring_items :: "'h scheduler_queue \<Rightarrow> 'h option list" where
  "ring_items q = map (\<lambda>k. sq_arr q ! ((sq_tail q + k) mod 256)) [0..<ring_len q]"

lemma ring_len_eq:
  "ring_ok q \<Longrightarrow> ring_len q = (if sq_tail q \<le> sq_head q then sq_head q - sq_tail q else sq_head q + 256 - sq_tail q)"
  by (auto simp: ring_len_def ring_ok_def mod_if)

lemma ring_push:
  assumes "ring_ok q" and "length (ring_items q) < 255"
  shows "ring_ok (push_back h q) \<and> ring_items (push_back h q) = ring_items q @ [Some h]"
proof -
  have n: "ring_len q < 255" using assms(2) by (simp add: ring_items_def)
  have ok: "ring_ok (push_back h q)" using assms(1) by (simp add: ring_ok_def push_back_def)
  have len: "ring_len (push_back h q) = Suc (ring_len q)"
    using n assms(1) ok by (auto simp: ring_len_eq ring_ok_def push_back_def mod_if split: if_splits)
  have hd: "(sq_tail q + ring_len q) mod 256 = sq_head q"
    using assms(1) by (auto simp: ring_len_eq [OF assms(1)] ring_ok_def mod_if)
  have ne: "(sq_tail q + k) mod 256 \<noteq> sq_head q" if "k < ring_len q" for k
    using that n assms(1) by (auto simp: ring_len_eq [OF assms(1)] ring_ok_def mod_if split: if_splits)
  then have same: "(sq_arr q)[sq_head q := Some h] ! ((sq_tail q + k) mod 256) = sq_arr q ! ((sq_tail q + k) mod 256)"
    if "k < ring_len q" for k using that by (metis nth_list_update_neq)
  have "ring_items (push_back h q) = map (\<lambda>k. (sq_arr q)[sq_head q := Some h] ! ((sq_tail q + k) mod 256)) [0..<ring_len q] @ [Some h]"
    using hd assms(1) unfolding ring_items_def len by (simp add: push_back_def ring_ok_def)
  also have "\<dots> = ring_items q @ [Some h]" using same by (simp add: ring_items_def)
  finally show ?thesis using ok by simp
qed

lemma ring_pop:
  assumes "ring_ok q" and "ring_items q = x # xs"
  shows "\<exists>q'. pop_front q = (x, q') \<and> ring_ok q' \<and> ring_items q' = xs"
proof -
  let ?q = "q\<lparr>sq_tail := (sq_tail q + 1) mod 256\<rparr>"
  have n: "0 < ring_len q" using assms(2) by (cases "ring_len q") (simp_all add: ring_items_def)
  have ok: "ring_ok ?q" using assms(1) by (simp add: ring_ok_def)
  have "ring_len q = Suc (ring_len ?q)"
    using n assms(1) ok by (auto simp: ring_len_eq ring_ok_def mod_if split: if_splits)
  then have "ring_items q = sq_arr q ! (sq_tail q mod 256) # ring_items ?q"
    by (simp add: ring_items_def upt_conv_Cons map_Suc_upt [symmetric] mod_simps del: upt_Suc)
  then show ?thesis using assms ok by (simp add: pop_front_def ring_ok_def)
qed

interpretation ring: bounded_fifo push_back pop_front try_pop_front ring_ok ring_items 255
proof
  show "try_pop_front q = (if ring_items q = [] then (None, q) else pop_front q)" if "ring_ok q" for q
    using that by (auto simp: try_pop_front_def ring_items_def ring_len_eq [OF that] ring_ok_def)
qed (simp_all add: ring_push ring_pop)

section \<open>Every coroutine ends once\<close>

fun co_ok :: "int list \<Rightarrow> coro \<Rightarrow> bool" where
  "co_ok v (CoInitial val) \<longleftrightarrow> True"
| "co_ok v (CoPrefetch first len val) \<longleftrightarrow> 0 < len \<and> first + len \<le> length v"

fun co_hit :: "int list \<Rightarrow> coro \<Rightarrow> bool" where
  "co_hit v (CoInitial val) \<longleftrightarrow> val \<in> set v"
| "co_hit v (CoPrefetch first len val) \<longleftrightarrow> in_window v first len val"

fun co_work :: "int list \<Rightarrow> coro \<Rightarrow> nat" where
  "co_work v (CoInitial val) = Suc (length v)"
| "co_work v (CoPrefetch first len val) = len"

lemma co_head_cases:
  assumes "in_window v first len val \<longleftrightarrow> b" and "first + len \<le> length v"
  shows "(\<exists>c. co_head first len val = Suspend c \<and> co_ok v c \<and> co_work v c = len \<and> (co_hit v c \<longleftrightarrow> b)) \<or>
    co_head first len val = Return b"
  using assms by (cases "len = 0") (auto simp: co_head_def)

lemma co_resume_ok:
  assumes "sorted v" and "co_ok v c"
  shows "(\<exists>c'. co_resume v c = Inr (Suspend c') \<and> co_ok v c' \<and> co_work v c' < co_work v c \<and> (co_hit v c' \<longleftrightarrow> co_hit v c)) \<or>
    co_resume v c = Inr (Return (co_hit v c))"
proof (cases c)
  case (CoInitial val)
  then show ?thesis using co_head_cases [of v 0 "length v" val "val \<in> set v"] by (auto simp: in_window_all)
next
  case (CoPrefetch first len val)
  let ?h = "len div 2"
  have n: "0 < len" "first + len \<le> length v" "?h < len" "first + ?h < length v" using assms(2) CoPrefetch by auto
  consider "v ! (first + ?h) = val" | "v ! (first + ?h) < val" | "val < v ! (first + ?h)" by linarith
  then show ?thesis
  proof cases
    case 1
    then show ?thesis using n CoPrefetch in_window_hit [OF n(3) 1] by simp
  next
    case 2
    have "len - ?h - 1 < len" using n by simp
    then show ?thesis
      using 2 n CoPrefetch co_head_cases [OF in_window_right [OF assms(1) n(2,3) 2]] by (auto simp: narrow_def Let_def)
  next
    case 3
    then show ?thesis
      using n CoPrefetch co_head_cases [OF in_window_left [OF assms(1) n(2,3) 3]] by (auto simp: narrow_def Let_def)
  qed
qed

text \<open>The queue holds coroutines in a legal state; their hits and their work.\<close>

definition queued :: "int list \<Rightarrow> coro option \<Rightarrow> bool" where
  "queued v x \<longleftrightarrow> (\<exists>c. x = Some c \<and> co_ok v c)"

definition opt_hit :: "int list \<Rightarrow> coro option \<Rightarrow> nat" where
  "opt_hit v x = (case x of None \<Rightarrow> 0 | Some c \<Rightarrow> if co_hit v c then 1 else 0)"

definition opt_work :: "int list \<Rightarrow> coro option \<Rightarrow> nat" where
  "opt_work v x = (case x of None \<Rightarrow> 0 | Some c \<Rightarrow> co_work v c)"

abbreviation wd_items :: "co_world \<Rightarrow> coro option list" where
  "wd_items w \<equiv> ring_items (wd_q w)"

abbreviation wd_hits :: "int list \<Rightarrow> co_world \<Rightarrow> nat" where
  "wd_hits v w \<equiv> sum_list (map (opt_hit v) (wd_items w))"

definition world_ok :: "int list \<Rightarrow> co_world \<Rightarrow> bool" where
  "world_ok v w \<longleftrightarrow> ring_ok (wd_q w) \<and> (\<forall>x\<in>set (wd_items w). queued v x)"

definition one_ended :: "int list \<Rightarrow> coro option \<Rightarrow> co_world \<Rightarrow> co_world \<Rightarrow> bool" where
  "one_ended v x w w' \<longleftrightarrow> world_ok v w' \<and> length (wd_items w') = length (wd_items w) \<and>
     wd_limit w' = wd_limit w + 1 \<and>
     wd_found w' + wd_not_found w' = Suc (wd_found w + wd_not_found w) \<and>
     wd_found w' + wd_hits v w' = wd_found w + wd_hits v w + opt_hit v x"

lemma co_run_ok:
  assumes v: "sorted v" and w: "world_ok v w" "queued v x" "length (wd_items w) < 255"
  shows "\<exists>w'. co_run v x w = Some (Inr w') \<and> one_ended v x w w'"
  using w
proof (induction "opt_work v x + sum_list (map (opt_work v) (wd_items w))" arbitrary: x w rule: less_induct)
  case less
  obtain c where x: "x = Some c" "co_ok v c" using less.prems(2) by (auto simp: queued_def)
  consider c' where "co_resume v c = Inr (Suspend c')" "co_ok v c'" "co_work v c' < co_work v c" "co_hit v c' \<longleftrightarrow> co_hit v c"
    | "co_resume v c = Inr (Return (co_hit v c))" using co_resume_ok [OF v x(2)] by blast
  then show ?case
  proof cases
    case 2
    then show ?thesis using x less.prems(1)
      by (simp add: co_run.simps [of v "Some c" w] one_ended_def world_ok_def opt_hit_def)
  next
    case (1 c')
    obtain y q where q: "pop_front (push_back c' (wd_q w)) = (y, q)" "ring_ok q" "y # ring_items q = wd_items w @ [Some c']"
      using ring.rotate [of "wd_q w" c'] less.prems by (auto simp: world_ok_def)
    let ?w = "w\<lparr>wd_q := q\<rparr>"
    have all: "\<forall>z\<in>set (y # ring_items q). queued v z"
      using less.prems(1) 1(2) by (auto simp: q(3) world_ok_def queued_def)
    have ok: "world_ok v ?w" "queued v y" using q(2) all by (auto simp: world_ok_def)
    have len: "length (ring_items q) = length (wd_items w)" using arg_cong [OF q(3), of length] by simp
    have sums: "g y + sum_list (map g (ring_items q)) = sum_list (map g (wd_items w)) + g (Some c')" for g :: "_ \<Rightarrow> nat"
      using arg_cong [OF q(3), of "\<lambda>xs. sum_list (map g xs)"] by simp
    have "opt_work v y + sum_list (map (opt_work v) (wd_items ?w)) < opt_work v x + sum_list (map (opt_work v) (wd_items w))"
      using sums [of "opt_work v"] 1(3) x by (simp add: opt_work_def)
    from less.hyps [OF this ok] len less.prems(3) obtain w' where w': "co_run v y ?w = Some (Inr w')" "one_ended v y ?w w'"
      by auto
    have "co_run v x w = co_run v y ?w" using x 1(1) q(1) by (simp add: co_run.simps [of v "Some c" w])
    moreover have "one_ended v x w w'"
      using w'(2) sums [of "opt_hit v"] len x 1(4) by (simp add: one_ended_def opt_hit_def)
    ultimately show ?thesis using w'(1) by simp
  qed
qed

section \<open>Spawning and running\<close>

definition spawned_ok :: "int list \<Rightarrow> nat \<Rightarrow> nat \<Rightarrow> nat \<Rightarrow> co_world \<Rightarrow> bool" where
  "spawned_ok v streams k h w \<longleftrightarrow> world_ok v w \<and> unat (wd_limit w) + length (wd_items w) = streams \<and>
     wd_found w + wd_not_found w + length (wd_items w) = k \<and> wd_found w + wd_hits v w = h"

lemma pop_nonempty:
  assumes "world_ok v w" and "wd_items w \<noteq> []"
  shows "\<exists>x q. pop_front (wd_q w) = (x, q) \<and> world_ok v (w\<lparr>wd_q := q\<rparr>) \<and> queued v x \<and> wd_items w = x # ring_items q"
proof -
  obtain x xs where x: "wd_items w = x # xs" using assms(2) by (cases "wd_items w") auto
  with assms(1) ring.pop_items [of "wd_q w" x xs] show ?thesis by (auto simp: world_ok_def)
qed

lemma pop_run:
  assumes v: "sorted v" and w: "spawned_ok v streams k h w" "wd_items w \<noteq> []" and s: "streams \<le> 255"
  shows "\<exists>x q w'. pop_front (wd_q w) = (x, q) \<and> queued v x \<and> co_run v x (w\<lparr>wd_q := q\<rparr>) = Some (Inr w') \<and>
    spawned_ok v streams k h w' \<and> length (wd_items w) = Suc (length (wd_items w'))"
proof -
  obtain x q where p: "pop_front (wd_q w) = (x, q)" "world_ok v (w\<lparr>wd_q := q\<rparr>)" "queued v x" "wd_items w = x # ring_items q"
    using pop_nonempty [of v w] w by (auto simp: spawned_ok_def)
  have len: "length (ring_items q) < 255" and lim: "unat (wd_limit w) < 255"
    using w p(4) s by (auto simp: spawned_ok_def)
  obtain w' where w': "co_run v x (w\<lparr>wd_q := q\<rparr>) = Some (Inr w')" "one_ended v x (w\<lparr>wd_q := q\<rparr>) w'"
    using co_run_ok [OF v p(2,3)] len by auto
  have "unat (wd_limit w + 1) = Suc (unat (wd_limit w))" using lim by (subst unat_add_small) simp_all
  then show ?thesis using w p w' by (auto simp: spawned_ok_def one_ended_def)
qed

lemma throttler_spawn_ok:
  assumes v: "sorted v" and w: "spawned_ok v streams k h w" and s: "1 \<le> streams" "streams \<le> 255"
  shows "\<exists>w'. throttler_spawn v key w = Some (Inr w') \<and>
    spawned_ok v streams (Suc k) (h + (if key \<in> set v then 1 else 0)) w'"
proof -
  obtain w1 where w1: "(if wd_limit w = 0 then (case pop_front (wd_q w) of (ho, q) \<Rightarrow> co_run v ho (w\<lparr>wd_q := q\<rparr>))
      else Some (Inr w)) = Some (Inr w1)" "spawned_ok v streams k h w1" "wd_limit w1 \<noteq> 0"
  proof (cases "wd_limit w = 0")
    case True
    then have "wd_items w \<noteq> []" using w s by (auto simp: spawned_ok_def)
    from pop_run [OF v w this s(2)] obtain x q w' where p: "pop_front (wd_q w) = (x, q)"
      "co_run v x (w\<lparr>wd_q := q\<rparr>) = Some (Inr w')" "spawned_ok v streams k h w'"
      "length (wd_items w) = Suc (length (wd_items w'))" by blast
    have "wd_limit w' \<noteq> 0" using p(3,4) w True by (auto simp: spawned_ok_def)
    then show ?thesis using that p True by simp
  qed (use w that in simp)
  have pos: "1 \<le> unat (wd_limit w1)" using w1(3) by (simp add: Suc_le_eq unat_gt_0)
  then have lt: "length (wd_items w1) < 255" using w1(2) s by (simp add: spawned_ok_def)
  let ?w = "w1\<lparr>wd_q := push_back (CoInitial key) (wd_q w1), wd_limit := wd_limit w1 - 1\<rparr>"
  have push: "ring_ok (push_back (CoInitial key) (wd_q w1))"
    "ring_items (push_back (CoInitial key) (wd_q w1)) = wd_items w1 @ [Some (CoInitial key)]"
    using ring.push_items [of "wd_q w1" "CoInitial key"] lt w1(2) by (auto simp: spawned_ok_def world_ok_def)
  from pos have "spawned_ok v streams (Suc k) (h + (if key \<in> set v then 1 else 0)) ?w"
    using w1(2) push unat_pred [of "wd_limit w1"] by (auto simp: spawned_ok_def world_ok_def queued_def opt_hit_def)
  then show ?thesis using w1(1) by (simp add: throttler_spawn_def)
qed

lemma spawn_all_ok:
  assumes v: "sorted v" and w: "spawned_ok v streams k h w" and s: "1 \<le> streams" "streams \<le> 255"
  shows "\<exists>w'. spawn_all v keys w = Some (Inr w') \<and> spawned_ok v streams (k + length keys) (h + hits v keys) w'"
  using w
proof (induction keys arbitrary: k h w)
  case Nil
  then show ?case by (simp add: hits_def)
next
  case (Cons key keys)
  obtain w1 where w1: "throttler_spawn v key w = Some (Inr w1)"
      "spawned_ok v streams (Suc k) (h + (if key \<in> set v then 1 else 0)) w1"
    using throttler_spawn_ok [OF v Cons.prems s] by blast
  from Cons.IH [OF w1(2)] w1(1) show ?case by (auto simp: hits_def)
qed

lemma scheduler_run_ok:
  assumes v: "sorted v" and w: "spawned_ok v streams k h w" and s: "streams \<le> 255"
  shows "\<exists>w'. scheduler_run v w = Some (Inr w') \<and> spawned_ok v streams k h w' \<and> wd_items w' = []"
  using w
proof (induction "length (wd_items w)" arbitrary: w)
  case 0
  then have "try_pop_front (wd_q w) = (None, wd_q w)"
    using ring.try_pop_items [of "wd_q w"] by (auto simp: spawned_ok_def world_ok_def)
  then show ?case using 0 by (simp add: scheduler_run.simps [of v w])
next
  case (Suc n)
  then have ne: "wd_items w \<noteq> []" by auto
  from pop_run [OF v Suc.prems ne s] obtain x q w1 where p: "pop_front (wd_q w) = (x, q)" "queued v x"
    "co_run v x (w\<lparr>wd_q := q\<rparr>) = Some (Inr w1)" "spawned_ok v streams k h w1" "length (wd_items w) = Suc (length (wd_items w1))"
    by blast
  have "try_pop_front (wd_q w) = (x, q)"
    using ring.try_pop_items [of "wd_q w"] ne Suc.prems p(1) by (simp add: spawned_ok_def world_ok_def)
  then have "scheduler_run v w = scheduler_run v w1"
    using p(2,3) by (auto simp: scheduler_run.simps [of v w] queued_def)
  then show ?case using Suc.hyps(1) [OF _ p(4)] Suc.hyps(2) p(5) by simp
qed

lemma CoroMultiLookup_ok:
  assumes "sorted v" and "1 \<le> unat streams" and "unat streams \<le> 255"
  shows "CoroMultiLookup v lookups streams = Some (Inr (hits v lookups, False))"
proof -
  let ?w = "\<lparr>wd_q = new_scheduler_queue, wd_limit = streams, wd_found = 0, wd_not_found = 0\<rparr>"
  have "spawned_ok v (unat streams) 0 0 ?w"
    by (simp add: spawned_ok_def world_ok_def ring_ok_def ring_items_def ring_len_def new_scheduler_queue_def)
  from spawn_all_ok [OF assms(1) this assms(2,3), of lookups] obtain w1 where
    w1: "spawn_all v lookups ?w = Some (Inr w1)" "spawned_ok v (unat streams) (length lookups) (hits v lookups) w1" by auto
  from scheduler_run_ok [OF assms(1) w1(2) assms(3)] obtain w2 where
    w2: "scheduler_run v w1 = Some (Inr w2)" "spawned_ok v (unat streams) (length lookups) (hits v lookups) w2" "wd_items w2 = []" by blast
  show ?thesis using w1(1) w2 by (simp add: CoroMultiLookup_def spawned_ok_def)
qed

section \<open>A full ring\<close>

text \<open>Spawning while the limit lasts only fills the ring.\<close>

lemma spawn_all_fills:
  assumes "length keys \<le> unat (wd_limit w)" and "sq_head (wd_q w) < 256"
  shows "\<exists>w'. spawn_all v keys w = Some (Inr w') \<and> sq_head (wd_q w') = (sq_head (wd_q w) + length keys) mod 256 \<and>
    sq_tail (wd_q w') = sq_tail (wd_q w) \<and> wd_found w' = wd_found w \<and> wd_not_found w' = wd_not_found w"
  using assms
proof (induction keys arbitrary: w)
  case (Cons key keys)
  let ?w = "w\<lparr>wd_q := push_back (CoInitial key) (wd_q w), wd_limit := wd_limit w - 1\<rparr>"
  have l: "wd_limit w \<noteq> 0" using Cons.prems(1) by auto
  then have "throttler_spawn v key w = Some (Inr ?w)" by (simp add: throttler_spawn_def)
  moreover have "length keys \<le> unat (wd_limit ?w)"
    using Cons.prems(1) unat_pred [of "wd_limit w"] by simp
  ultimately show ?case using Cons.IH [of ?w] by (auto simp: push_back_def mod_simps)
qed simp

lemma full_ring_looks_empty:
  assumes "length lookups = 256"
  shows "CoroMultiLookup v lookups 256 = Some (Inr (0, True))"
proof -
  let ?w = "\<lparr>wd_q = new_scheduler_queue, wd_limit = 256, wd_found = 0, wd_not_found = 0\<rparr>"
  obtain w' where w': "spawn_all v lookups ?w = Some (Inr w')" "sq_head (wd_q w') = 0" "sq_tail (wd_q w') = 0"
      "wd_found w' = 0" "wd_not_found w' = 0"
    using spawn_all_fills [of lookups ?w v] assms by (auto simp: new_scheduler_queue_def)
  have "scheduler_run v w' = Some (Inr w')" using w' by (simp add: scheduler_run.simps [of v w'] try_pop_front_def)
  then show ?thesis using w' assms by (simp add: CoroMultiLookup_def)
qed

end
