(* ===== verification/Nano_Test.thy ===== *)
theory Nano_Test
  imports Coro_Search Args
begin

text \<open>
  The test program of the binary searches, \<^verbatim>\<open>app/prefetch/coro_bin_search/nanotest.cpp\<close>: the sorted array
  and the random lookups, the table of sizes, the choice of the algorithm and the comparison of the
  sum with the expected one.  \<open>draws\<close> are the numbers of the C++ generator behind \<^verbatim>\<open>rng.h\<close>.
\<close>

section \<open>Test state\<close>

record test_param =
  tp_SizeInBytes :: nat
  tp_LookupSize :: nat
  tp_Repeat :: nat
  tp_ExpectedResult :: int

definition test_params :: "string \<Rightarrow> test_param option" where
  "test_params name =
     (if name = ''quick'' then Some \<lparr>tp_SizeInBytes = 16 * 1024, tp_LookupSize = 1024, tp_Repeat = 1, tp_ExpectedResult = 505\<rparr>
      else if name = ''l1'' then Some \<lparr>tp_SizeInBytes = 16 * 1024, tp_LookupSize = 1024, tp_Repeat = 10000, tp_ExpectedResult = 5050000\<rparr>
      else if name = ''l2'' then Some \<lparr>tp_SizeInBytes = 200 * 1024, tp_LookupSize = 1024 * 1024, tp_Repeat = 50, tp_ExpectedResult = 26225050\<rparr>
      else if name = ''l3'' then Some \<lparr>tp_SizeInBytes = 6 * 1024 * 1024, tp_LookupSize = 1024 * 1024, tp_Repeat = 50, tp_ExpectedResult = 26215900\<rparr>
      else if name = ''big'' then Some \<lparr>tp_SizeInBytes = 256 * 1024 * 1024, tp_LookupSize = 1024 * 1024, tp_Repeat = 5, tp_ExpectedResult = 2624940\<rparr>
      else None)"

definition state_v :: "nat \<Rightarrow> int list" where
  "state_v ByteCount = map (\<lambda>i. int i + int i) [0..<ByteCount div 4]"

text \<open>
  The range-based loop over \<open>rng\<close>: the iterator counts down to that of \<open>end()\<close>, and each dereference
  draws the next number of the generator.
\<close>

fun rng_values :: "nat \<Rightarrow> nat \<Rightarrow> (nat \<Rightarrow> int) \<Rightarrow> int list" where
  "rng_values 0 k draws = []"
| "rng_values (Suc cnt) k draws = draws k # rng_values cnt (Suc k) draws"

definition state_lookups :: "nat \<Rightarrow> (nat \<Rightarrow> int) \<Rightarrow> int list" where
  "state_lookups LookupCount draws = rng_values LookupCount 0 draws"

section \<open>main\<close>

text \<open>\<open>None\<close> stands for a run that does not end.\<close>

definition run_test :: "string \<Rightarrow> frame \<Rightarrow> int list \<Rightarrow> int list \<Rightarrow> int \<Rightarrow> nat result option" where
  "run_test algo f0 v lookups streams =
     (if algo = ''coro'' then map_option (rmap fst) (CoroMultiLookup v lookups (word_of_int streams))
      else if algo = ''naive'' then Some (testNaive v lookups)
      else if algo = ''sm'' then SmMultiLookup f0 v lookups (nat streams)
      else Some (Inl BadArgument))"

fun repeat_test :: "nat \<Rightarrow> nat result option \<Rightarrow> nat \<Rightarrow> nat result option" where
  "repeat_test 0 result acc = Some (Inr acc)"
| "repeat_test (Suc n) result acc = (case result of
     None \<Rightarrow> None | Some (Inl e) \<Rightarrow> Some (Inl e) | Some (Inr r) \<Rightarrow> repeat_test n result (acc + r))"

text \<open>The sum printed and the exit status.\<close>

definition nanotest_main :: "frame \<Rightarrow> (nat \<Rightarrow> int) \<Rightarrow> string list \<Rightarrow> (nat \<times> int) result option" where
  "nanotest_main f0 draws argv =
     (if length argv \<noteq> 4 then Some (Inl BadArgument)
      else if argv ! 1 \<notin> {''coro'', ''naive'', ''sm''} then Some (Inl BadArgument)
      else case test_params (argv ! 2) of
        None \<Rightarrow> Some (Inl BadArgument)
      | Some p \<Rightarrow> (case atoi (argv ! 3) of
          Inl e \<Rightarrow> Some (Inl e)
        | Inr streams \<Rightarrow>
            if streams < 1 then Some (Inl BadArgument)
            else map_option (rmap (\<lambda>acc. (acc, if int acc = tp_ExpectedResult p then 0 else 1)))
              (repeat_test (tp_Repeat p)
                 (run_test (argv ! 1) f0 (state_v (tp_SizeInBytes p)) (state_lookups (tp_LookupSize p) draws) streams) 0)))"

section \<open>The algorithms agree\<close>

lemma rng_values_eq: "rng_values cnt k draws = map draws [k..<k + cnt]"
  by (induction cnt arbitrary: k) (simp_all add: upt_conv_Cons del: upt_Suc)

lemma state_v_sorted: "sorted (state_v n)"
  by (simp add: state_v_def sorted_iff_nth_mono_less)

lemma state_v_bounds: "test_params name = Some p \<Longrightarrow> state_v (tp_SizeInBytes p) \<noteq> [] \<and> length (state_v (tp_SizeInBytes p)) < 2 ^ 64"
  by (auto simp: test_params_def state_v_def split: if_splits)

lemma run_test_ok:
  assumes "sorted v" and "v \<noteq> []" and "length v < 2 ^ 64" and "1 \<le> streams" and "streams \<le> 255"
    and "algo \<in> {''coro'', ''naive'', ''sm''}"
  shows "run_test algo f0 v lookups streams = Some (Inr (hits v lookups))"
proof -
  have u: "unat (word_of_int streams :: u32) = nat streams"
    using assms(4,5) by (simp add: unat_eq_nat_uint uint_word_of_int)
  show ?thesis
    using assms CoroMultiLookup_ok [of v "word_of_int streams" lookups] SmMultiLookup_ok [of v "nat streams" f0 lookups]
      testNaive_ok [of v lookups] by (auto simp: run_test_def u nat_le_iff)
qed

lemma repeat_test_ok: "repeat_test n (Some (Inr r)) acc = Some (Inr (acc + n * r))"
  by (induction n arbitrary: acc) simp_all

text \<open>
  C20. The three search algorithms are equivalent: on a sorted vector, with one to 255 streams, the
  interleaved state machine and the interleaved coroutines return, and count exactly the keys the
  plain search finds, which are those in the vector; no lookup is lost.
\<close>

theorem interleaved_searches_agree:
  assumes "sorted v" and "v \<noteq> []" and "length v < 2 ^ 64" and "1 \<le> unat streams" and "unat streams \<le> 255"
  shows "testNaive v lookups = Inr (length (filter (\<lambda>key. key \<in> set v) lookups)) \<and>
    SmMultiLookup f0 v lookups (unat streams) = Some (testNaive v lookups) \<and>
    CoroMultiLookup v lookups streams = Some (rmap (\<lambda>n. (n, False)) (testNaive v lookups))"
  using assms CoroMultiLookup_ok [of v streams lookups] SmMultiLookup_ok [of v "unat streams" f0 lookups]
    testNaive_ok [of v lookups] by (simp add: hits_def)

definition sample_frame :: frame where
  "sample_frame = \<lparr>fr_first = 0, fr_last = 0, fr_middle = 0, fr_len = 0, fr_half = 0, fr_val = 0, fr_state = EMPTY\<rparr>"

theorem interleaved_searches_agree_witness:
  "SmMultiLookup sample_frame [2, 3, 5, 8] [3, 4, 8, 8, 9] 2 = Some (Inr 3) \<and>
   CoroMultiLookup [2, 3, 5, 8] [3, 4, 8, 8, 9] 2 = Some (Inr (3, False))"
  using interleaved_searches_agree [of "[2, 3, 5, 8]" 2 "[3, 4, 8, 8, 9]" sample_frame] by (auto simp: numeral_3_eq_3)

text \<open>
  The exit status of the test program does not depend on the algorithm: with one to 255 streams
  all three end, with the same sum and status.
\<close>

theorem nanotest_status_same:
  assumes "a \<in> {''coro'', ''naive'', ''sm''}" and "b \<in> {''coro'', ''naive'', ''sm''}"
    and "test_params name = Some p" and "1 \<le> n" and "n \<le> 255"
  shows "nanotest_main f0 draws [prog, a, name, decimal n] = nanotest_main f0 draws [prog, b, name, decimal n] \<and>
    (\<exists>acc status. nanotest_main f0 draws [prog, a, name, decimal n] = Some (Inr (acc, status)))"
proof -
  have "nanotest_main f0 draws [prog, c, name, decimal n] = Some (Inr
      (let h = tp_Repeat p * hits (state_v (tp_SizeInBytes p)) (state_lookups (tp_LookupSize p) draws) in
       (h, if int h = tp_ExpectedResult p then 0 else 1)))" if c: "c \<in> {''coro'', ''naive'', ''sm''}" for c
    using run_test_ok [OF state_v_sorted _ _ _ _ c] state_v_bounds [OF assms(3)] assms(3-5) atoi_decimal [of n] c
    by (auto simp: nanotest_main_def Let_def repeat_test_ok)
  from this [OF assms(1)] this [OF assms(2)] show ?thesis by (simp add: Let_def)
qed

theorem nanotest_status_same_witness:
  "nanotest_main sample_frame (\<lambda>i. int i) [''nanotest'', ''coro'', ''quick'', decimal 8] =
   nanotest_main sample_frame (\<lambda>i. int i) [''nanotest'', ''sm'', ''quick'', decimal 8]"
  using nanotest_status_same [of "''coro''" "''sm''" "''quick''" _ 8 sample_frame "\<lambda>i. int i" "''nanotest''"]
  by (simp add: test_params_def)



end
