(* ===== verification/Coro_Frames.thy ===== *)
theory Coro_Frames
  imports Coro_Search
begin

text \<open>
  The coroutine search with its frames on a heap, \<^verbatim>\<open>app/prefetch/coro_bin_search/coro_infra.h\<close>: the caching
  allocator, the promise with its owner, the ring of handles.  A handle is the address of a frame; the
  use of a frame that is not allocated is \<open>OutOfBounds\<close>, that of a null handle or owner \<open>NullPointer\<close>.
  The scheduler and the allocator are global and live on from call to call.  The search is shown to
  refine the one of \<open>Coro_Search\<close>, whose ring holds the states of the coroutines.
\<close>

section \<open>tcalloc\<close>

text \<open>
  The allocator of coroutine frames: a list of free blocks with the sizes they were freed with; the
  first one is reused when it is \<^emph>\<open>at most\<close> as large as the request.  \<open>fresh\<close> is what \<open>malloc\<close> returns.
\<close>

record tcalloc =
  tc_root :: "(nat \<times> nat) list"
  tc_last_size_allocated :: nat
  tc_total :: nat
  tc_alloc_count :: nat

definition tc_alloc :: "nat \<Rightarrow> nat \<Rightarrow> tcalloc \<Rightarrow> nat \<times> tcalloc" where
  "tc_alloc fresh sz a = (case tc_root a of
     (blk, bsz) # rest \<Rightarrow> if bsz \<le> sz then (blk, a\<lparr>tc_root := rest\<rparr>)
       else (fresh, a\<lparr>tc_alloc_count := Suc (tc_alloc_count a), tc_total := tc_total a + sz, tc_last_size_allocated := sz\<rparr>)
   | [] \<Rightarrow> (fresh, a\<lparr>tc_alloc_count := Suc (tc_alloc_count a), tc_total := tc_total a + sz, tc_last_size_allocated := sz\<rparr>))"

definition tc_free :: "nat \<Rightarrow> nat \<Rightarrow> tcalloc \<Rightarrow> tcalloc" where
  "tc_free p sz a = a\<lparr>tc_root := (p, sz) # tc_root a\<rparr>"

text \<open>The destructor: the blocks given back with \<open>::free\<close>, in order.\<close>

definition tc_destroy :: "tcalloc \<Rightarrow> nat list" where
  "tc_destroy a = map fst (tc_root a)"

definition new_tcalloc :: tcalloc where
  "new_tcalloc = \<lparr>tc_root = [], tc_last_size_allocated = 0, tc_total = 0, tc_alloc_count = 0\<rparr>"

section \<open>root\_task and throttler\<close>

text \<open>A frame: the state of the coroutine and whether the promise's \<open>owner\<close> is set.\<close>

record co_frame =
  cf_state :: coro
  cf_owner :: bool

record heap_world =
  hw_heap :: "nat \<Rightarrow> co_frame option"
  hw_allocator :: tcalloc
  hw_q :: "nat scheduler_queue"
  hw_limit :: u32
  hw_found :: nat
  hw_not_found :: nat

text \<open>
  The call of \<open>CoroBinarySearch\<close>: a frame of \<open>sz\<close> bytes is allocated and the coroutine suspended at its
  start.  \<open>malloc k\<close> is what the \<open>k\<close>-th call of \<open>malloc\<close> returns.
\<close>

definition new_coro :: "(nat \<Rightarrow> nat) \<Rightarrow> nat \<Rightarrow> int \<Rightarrow> heap_world \<Rightarrow> nat \<times> heap_world" where
  "new_coro malloc sz key w =
     (case tc_alloc (malloc (tc_alloc_count (hw_allocator w))) sz (hw_allocator w) of (p, a) \<Rightarrow>
       (p, w\<lparr>hw_heap := (hw_heap w)(p \<mapsto> \<lparr>cf_state = CoInitial key, cf_owner = False\<rparr>), hw_allocator := a\<rparr>))"

definition set_owner :: "nat \<Rightarrow> heap_world \<Rightarrow> heap_world result" where
  "set_owner p w = (case hw_heap w p of
     None \<Rightarrow> Inl OutOfBounds
   | Some f \<Rightarrow> Inr (w\<lparr>hw_heap := (hw_heap w)(p \<mapsto> f\<lparr>cf_owner := True\<rparr>)\<rparr>))"

text \<open>The callback, \<open>return_void\<close> and, since \<open>final_suspend\<close> does not suspend, the deletion of the frame.\<close>

definition co_return :: "nat \<Rightarrow> bool \<Rightarrow> nat \<Rightarrow> co_frame \<Rightarrow> heap_world \<Rightarrow> heap_world result" where
  "co_return sz b p f w =
     (if \<not> cf_owner f then Inl NullPointer
      else Inr (w\<lparr>hw_limit := hw_limit w + 1,
        hw_found := (if b then Suc (hw_found w) else hw_found w),
        hw_not_found := (if b then hw_not_found w else Suc (hw_not_found w)),
        hw_heap := (hw_heap w)(p := None), hw_allocator := tc_free p sz (hw_allocator w)\<rparr>))"

partial_function (option) h_resume :: "nat \<Rightarrow> int list \<Rightarrow> nat option \<Rightarrow> heap_world \<Rightarrow> heap_world result option" where
  "h_resume sz v ho w = (case ho of
     None \<Rightarrow> Some (Inl NullPointer)
   | Some p \<Rightarrow> (case hw_heap w p of
       None \<Rightarrow> Some (Inl OutOfBounds)
     | Some f \<Rightarrow> (case co_resume v (cf_state f) of
         Inl e \<Rightarrow> Some (Inl e)
       | Inr (Suspend c) \<Rightarrow> (case pop_front (push_back p (hw_q w)) of (ho', q') \<Rightarrow>
           h_resume sz v ho' (w\<lparr>hw_heap := (hw_heap w)(p \<mapsto> f\<lparr>cf_state := c\<rparr>), hw_q := q'\<rparr>))
       | Inr (Return b) \<Rightarrow> Some (co_return sz b p f w))))"

text \<open>The argument of \<open>spawn\<close> is a new coroutine, made before the body runs.\<close>

definition h_spawn :: "(nat \<Rightarrow> nat) \<Rightarrow> nat \<Rightarrow> int list \<Rightarrow> int \<Rightarrow> heap_world \<Rightarrow> heap_world result option" where
  "h_spawn malloc sz v key w = (case new_coro malloc sz key w of (p, w0) \<Rightarrow>
     (case (if hw_limit w0 = 0
            then (case pop_front (hw_q w0) of (ho, q) \<Rightarrow> h_resume sz v ho (w0\<lparr>hw_q := q\<rparr>)) else Some (Inr w0)) of
        None \<Rightarrow> None
      | Some (Inl e) \<Rightarrow> Some (Inl e)
      | Some (Inr w1) \<Rightarrow> Some (rmap (\<lambda>w2. w2\<lparr>hw_q := push_back p (hw_q w2), hw_limit := hw_limit w2 - 1\<rparr>) (set_owner p w1))))"

fun h_spawn_all :: "(nat \<Rightarrow> nat) \<Rightarrow> nat \<Rightarrow> int list \<Rightarrow> int list \<Rightarrow> heap_world \<Rightarrow> heap_world result option" where
  "h_spawn_all malloc sz v [] w = Some (Inr w)"
| "h_spawn_all malloc sz v (key # keys) w = (case h_spawn malloc sz v key w of
     None \<Rightarrow> None | Some (Inl e) \<Rightarrow> Some (Inl e) | Some (Inr w') \<Rightarrow> h_spawn_all malloc sz v keys w')"

partial_function (option) h_run :: "nat \<Rightarrow> int list \<Rightarrow> heap_world \<Rightarrow> heap_world result option" where
  "h_run sz v w = (case try_pop_front (hw_q w) of
     (None, _) \<Rightarrow> Some (Inr w)
   | (Some h, q) \<Rightarrow> (case h_resume sz v (Some h) (w\<lparr>hw_q := q\<rparr>) of
       None \<Rightarrow> None | Some (Inl e) \<Rightarrow> Some (Inl e) | Some (Inr w') \<Rightarrow> h_run sz v w'))"

text \<open>\<open>CoroMultiLookup\<close>; the destructor of the throttler runs the scheduler once more.\<close>

definition h_lookup :: "(nat \<Rightarrow> nat) \<Rightarrow> nat \<Rightarrow> int list \<Rightarrow> int list \<Rightarrow> u32 \<Rightarrow> heap_world \<Rightarrow> ((nat \<times> bool) \<times> heap_world) result option" where
  "h_lookup malloc sz v lookups streams w =
     (case h_spawn_all malloc sz v lookups (w\<lparr>hw_limit := streams, hw_found := 0, hw_not_found := 0\<rparr>) of
        None \<Rightarrow> None
      | Some (Inl e) \<Rightarrow> Some (Inl e)
      | Some (Inr w1) \<Rightarrow> (case h_run sz v w1 of
          None \<Rightarrow> None
        | Some (Inl e) \<Rightarrow> Some (Inl e)
        | Some (Inr w2) \<Rightarrow>
            map_option (rmap (\<lambda>w3. ((hw_found w2, hw_found w2 + hw_not_found w2 \<noteq> length lookups), w3))) (h_run sz v w2)))"

section \<open>Blocks\<close>

text \<open>
  Blocks handed out and not yet returned, by address, with the size of the request.  As long as all
  requests have one size, as the frames of one coroutine type have, blocks in use never overlap free
  ones and every reused block is large enough.
\<close>

definition tc_inv :: "nat \<Rightarrow> tcalloc \<Rightarrow> nat set \<Rightarrow> bool" where
  "tc_inv sz a used \<longleftrightarrow> distinct (map fst (tc_root a)) \<and> snd ` set (tc_root a) \<subseteq> {sz} \<and>
     used \<inter> fst ` set (tc_root a) = {}"

lemma tc_alloc_ok:
  assumes "tc_inv sz a used" and "fresh \<notin> used" and "fresh \<notin> fst ` set (tc_root a)"
    and "tc_alloc fresh sz a = (p, a')"
  shows "p \<notin> used \<and> tc_inv sz a' (insert p used) \<and> (p \<noteq> fresh \<longrightarrow> (p, sz) \<in> set (tc_root a))"
proof (cases "tc_root a")
  case Nil
  then show ?thesis using assms by (auto simp: tc_inv_def tc_alloc_def)
next
  case (Cons b rest)
  have b: "b = (fst b, sz)" "fst b \<notin> used" using assms(1) Cons by (auto simp: tc_inv_def prod_eq_iff)
  then have "p = fst b" "a' = a\<lparr>tc_root := rest\<rparr>" using assms(4) Cons by (auto simp: tc_alloc_def split: prod.splits if_splits)
  then show ?thesis using assms(1) Cons b by (simp add: tc_inv_def)
qed

lemma tc_free_ok: "tc_inv sz a used \<Longrightarrow> p \<in> used \<Longrightarrow> tc_inv sz (tc_free p sz a) (used - {p})"
  by (auto simp: tc_inv_def tc_free_def)

lemma tc_reuses_small: "fst (tc_alloc fresh 64 (tc_free p 16 a)) = p"
  by (simp add: tc_alloc_def tc_free_def)

text \<open>Every block \<open>malloc\<close> returned is a live frame or on the free list, and there are at most \<open>n\<close>.\<close>

definition mem_ok :: "(nat \<Rightarrow> nat) \<Rightarrow> nat \<Rightarrow> nat \<Rightarrow> tcalloc \<Rightarrow> nat set \<Rightarrow> bool" where
  "mem_ok malloc sz n a live \<longleftrightarrow> tc_inv sz a live \<and> live \<union> fst ` set (tc_root a) = malloc ` {..<tc_alloc_count a} \<and>
     tc_total a = sz * tc_alloc_count a \<and> tc_alloc_count a \<le> n"

lemma mem_ok_free:
  assumes "mem_ok malloc sz n a live" and "p \<in> live"
  shows "mem_ok malloc sz n (tc_free p sz a) (live - {p})"
proof -
  have "live - {p} \<union> fst ` set (tc_root (tc_free p sz a)) = live \<union> fst ` set (tc_root a)"
    using assms(2) by (auto simp: tc_free_def)
  then show ?thesis using assms tc_free_ok [of sz a live p] by (simp add: mem_ok_def) (simp add: tc_free_def)
qed

lemma mem_ok_fresh: "inj malloc \<Longrightarrow> mem_ok malloc sz n a live \<Longrightarrow> malloc (tc_alloc_count a) \<notin> live \<union> fst ` set (tc_root a)"
  by (auto simp: mem_ok_def dest: injD)

lemma mem_ok_count: "inj malloc \<Longrightarrow> mem_ok malloc sz n a live \<Longrightarrow> tc_alloc_count a = card live + length (tc_root a)"
proof -
  assume i: "inj malloc" and m: "mem_ok malloc sz n a live"
  have "finite (live \<union> fst ` set (tc_root a))" using m by (simp add: mem_ok_def)
  then have fin: "finite live" by simp
  have "card (live \<union> fst ` set (tc_root a)) = tc_alloc_count a"
    using m i by (simp add: mem_ok_def card_image inj_on_subset)
  moreover have "card (live \<union> fst ` set (tc_root a)) = card live + card (set (map fst (tc_root a)))"
    using m fin card_Un_disjoint [of live "fst ` set (tc_root a)"] by (simp only: mem_ok_def tc_inv_def set_map) simp
  moreover have "card (set (map fst (tc_root a))) = length (tc_root a)"
    using m distinct_card [of "map fst (tc_root a)"] by (simp add: mem_ok_def tc_inv_def del: set_map)
  ultimately show ?thesis by simp
qed

lemma mem_ok_alloc:
  assumes "inj malloc" and m: "mem_ok malloc sz n a live" and "card live < n"
    and al: "tc_alloc (malloc (tc_alloc_count a)) sz a = (p, a')"
  shows "p \<notin> live \<and> mem_ok malloc sz n a' (insert p live)"
proof -
  let ?m = "malloc (tc_alloc_count a)"
  have f: "?m \<notin> live" "?m \<notin> fst ` set (tc_root a)" using mem_ok_fresh [OF assms(1) m] by auto
  have t: "p \<notin> live" "tc_inv sz a' (insert p live)"
    using tc_alloc_ok [OF _ f al] m by (auto simp: mem_ok_def)
  show ?thesis
  proof (cases "tc_root a")
    case Nil
    then have a': "p = ?m" "a' = a\<lparr>tc_alloc_count := Suc (tc_alloc_count a), tc_total := tc_total a + sz, tc_last_size_allocated := sz\<rparr>"
      using al by (auto simp: tc_alloc_def)
    have "tc_alloc_count a < n" using mem_ok_count [OF assms(1) m] Nil assms(3) by simp
    then show ?thesis using t m Nil a' by (simp add: mem_ok_def lessThan_Suc)
  next
    case (Cons b rest)
    have "snd b = sz" using m Cons by (auto simp: mem_ok_def tc_inv_def)
    then have "p = fst b" "a' = a\<lparr>tc_root := rest\<rparr>" using al Cons by (auto simp: tc_alloc_def split: prod.splits if_splits)
    then show ?thesis using t m Cons by (simp add: mem_ok_def)
  qed
qed

section \<open>The refinement\<close>

text \<open>
  \<open>as\<close> are the handles in the ring, \<open>ex\<close> the frames that are not in it (running or just made).  The
  handles name different live frames with an owner, whose states are those in the abstract ring.
\<close>

definition handles_ok :: "(nat \<Rightarrow> co_frame option) \<Rightarrow> nat list \<Rightarrow> (nat \<Rightarrow> co_frame option) \<Rightarrow> bool" where
  "handles_ok ex as heap \<longleftrightarrow> distinct as \<and> set as \<inter> dom ex = {} \<and> dom heap = set as \<union> dom ex \<and> ex \<subseteq>\<^sub>m heap \<and>
     (\<forall>p\<in>set as. \<exists>f. heap p = Some f \<and> cf_owner f)"

definition states_of :: "(nat \<Rightarrow> co_frame option) \<Rightarrow> nat list \<Rightarrow> coro option list" where
  "states_of heap as = map (\<lambda>p. map_option cf_state (heap p)) as"

definition frames_rel :: "(nat \<Rightarrow> nat) \<Rightarrow> nat \<Rightarrow> nat \<Rightarrow> (nat \<Rightarrow> co_frame option) \<Rightarrow> co_world \<Rightarrow> heap_world \<Rightarrow> bool" where
  "frames_rel malloc sz n ex w hw \<longleftrightarrow> ring_ok (wd_q w) \<and> ring_ok (hw_q hw) \<and>
     (\<exists>as. ring_items (hw_q hw) = map Some as \<and> wd_items w = states_of (hw_heap hw) as \<and> handles_ok ex as (hw_heap hw)) \<and>
     hw_limit hw = wd_limit w \<and> hw_found hw = wd_found w \<and> hw_not_found hw = wd_not_found w \<and>
     mem_ok malloc sz n (hw_allocator hw) (dom (hw_heap hw))"

lemma states_of_upd [simp]: "p \<notin> set as \<Longrightarrow> states_of (heap(p := x)) as = states_of heap as"
  by (auto simp: states_of_def)

lemma states_of_simps [simp]:
  "states_of heap (as @ bs) = states_of heap as @ states_of heap bs"
  "states_of heap (p # as) = map_option cf_state (heap p) # states_of heap as"
  "states_of heap [] = []" "length (states_of heap as) = length as"
  by (simp_all add: states_of_def)

lemma handles_running:
  assumes "handles_ok (ex(p \<mapsto> f)) as heap"
  shows "heap p = Some f" and "p \<notin> set as"
proof -
  have "(ex(p \<mapsto> f)) \<subseteq>\<^sub>m heap" using assms by (simp add: handles_ok_def)
  then show "heap p = Some f" by (metis fun_upd_same map_le_def domI)
qed (use assms in \<open>auto simp: handles_ok_def\<close>)

lemma handles_suspend:
  assumes "handles_ok (ex(p \<mapsto> f)) as heap" and "p \<notin> dom ex" and "cf_owner f'" and "as @ [p] = p' # as'"
  shows "\<exists>g. (heap(p \<mapsto> f')) p' = Some g \<and> cf_owner g \<and> p' \<notin> dom ex \<and> handles_ok (ex(p' \<mapsto> g)) as' (heap(p \<mapsto> f'))"
proof -
  let ?h = "heap(p \<mapsto> f')"
  have all: "\<forall>q\<in>set (p' # as'). \<exists>g. ?h q = Some g \<and> cf_owner g"
    using assms(1,3) unfolding assms(4) [symmetric] by (auto simp: handles_ok_def)
  then obtain g where g: "?h p' = Some g" "cf_owner g" by auto
  have d: "distinct (p' # as')" "set (p' # as') \<inter> dom ex = {}" "dom ?h = set (p' # as') \<union> dom ex"
    using assms(1,2) unfolding assms(4) [symmetric] by (auto simp: handles_ok_def)
  have "ex \<subseteq>\<^sub>m ?h" using assms(1,2) by (auto simp: handles_ok_def map_le_def split: if_splits)
  from map_le_upd [OF this, of p' "Some g"] have le: "ex(p' \<mapsto> g) \<subseteq>\<^sub>m ?h" unfolding fun_upd_idem [of ?h, OF g(1)] .
  have "dom (ex(p' \<mapsto> g)) = insert p' (dom ex)" by simp
  with d all le have "handles_ok (ex(p' \<mapsto> g)) as' ?h" unfolding handles_ok_def by (auto simp del: fun_upd_apply)
  then show ?thesis using g d by auto
qed

lemma handles_return:
  assumes "handles_ok (ex(p \<mapsto> f)) as heap" and "p \<notin> dom ex"
  shows "handles_ok ex as (heap(p := None))" and "dom (heap(p := None)) = dom heap - {p}" and "p \<in> dom heap"
  using assms handles_running [OF assms(1)] by (auto simp: handles_ok_def map_le_def split: if_splits)

text \<open>One resumption of a handle, up to the end of a coroutine, compared with that of its state.\<close>

definition resumes_alike ::
  "(nat \<Rightarrow> nat) \<Rightarrow> nat \<Rightarrow> nat \<Rightarrow> (nat \<Rightarrow> co_frame option) \<Rightarrow> int list \<Rightarrow> coro option \<Rightarrow> co_world \<Rightarrow> co_world result \<Rightarrow> bool" where
  "resumes_alike malloc sz n ex v x w r \<longleftrightarrow> (\<forall>hw p f. frames_rel malloc sz n (ex(p \<mapsto> f)) w hw \<and> p \<notin> dom ex \<and>
     cf_owner f \<and> x = Some (cf_state f) \<and> length (wd_items w) < 255 \<longrightarrow>
     (case r of Inl e \<Rightarrow> h_resume sz v (Some p) hw = Some (Inl e)
      | Inr w' \<Rightarrow> \<exists>hw'. h_resume sz v (Some p) hw = Some (Inr hw') \<and> frames_rel malloc sz n ex w' hw'))"

lemma resumes_alikeD:
  assumes "resumes_alike malloc sz n ex v x w r" and "frames_rel malloc sz n (ex(p \<mapsto> f)) w hw" and "p \<notin> dom ex"
    and "cf_owner f" and "x = Some (cf_state f)" and "length (wd_items w) < 255"
  shows "case r of Inl e \<Rightarrow> h_resume sz v (Some p) hw = Some (Inl e)
     | Inr w' \<Rightarrow> \<exists>hw'. h_resume sz v (Some p) hw = Some (Inr hw') \<and> frames_rel malloc sz n ex w' hw'"
  using assms unfolding resumes_alike_def by blast

lemma suspend_refines:
  assumes rel: "frames_rel malloc sz n (ex(p \<mapsto> f)) w hw" and p: "p \<notin> dom ex" "cf_owner f"
    and len: "length (wd_items w) < 255" and c: "co_resume v (cf_state f) = Inr (Suspend c)"
    and q: "pop_front (push_back c (wd_q w)) = (y, q)"
  shows "\<exists>p' g hw'. h_resume sz v (Some p) hw = h_resume sz v (Some p') hw' \<and> y = Some (cf_state g) \<and> cf_owner g \<and>
    p' \<notin> dom ex \<and> frames_rel malloc sz n (ex(p' \<mapsto> g)) (w\<lparr>wd_q := q\<rparr>) hw' \<and> length (ring_items q) < 255"
proof -
  let ?f = "f\<lparr>cf_state := c\<rparr>" let ?h = "(hw_heap hw)(p \<mapsto> ?f)"
  obtain as where as: "ring_items (hw_q hw) = map Some as" "wd_items w = states_of (hw_heap hw) as"
      "handles_ok (ex(p \<mapsto> f)) as (hw_heap hw)" using rel by (auto simp: frames_rel_def)
  note hp = handles_running [OF as(3)]
  have q': "ring_ok q" "y # ring_items q = wd_items w @ [Some c]"
    using ring.rotate [of "wd_q w" c] rel len q by (auto simp: frames_rel_def)
  obtain z hq where z: "pop_front (push_back p (hw_q hw)) = (z, hq)" "ring_ok hq" "z # ring_items hq = map Some (as @ [p])"
    using ring.rotate [of "hw_q hw" p] rel len as(1,2) by (auto simp: frames_rel_def)
  obtain p' as' where p': "as @ [p] = p' # as'" by (cases "as @ [p]") auto
  from handles_suspend [OF as(3) p(1) _ p', of ?f] p(2) obtain g where
    g: "?h p' = Some g" "cf_owner g" "p' \<notin> dom ex" "handles_ok (ex(p' \<mapsto> g)) as' ?h" by auto
  have "y # ring_items q = states_of ?h (as @ [p])" using q'(2) as(2) hp(2) by simp
  then have yq: "y = Some (cf_state g)" "ring_items q = states_of ?h as'" using g(1) by (simp_all add: p' del: fun_upd_apply)
  have zq: "z = Some p'" "ring_items hq = map Some as'" using z(3) by (simp_all add: p')
  have "dom ?h = dom (hw_heap hw)" using hp(1) by auto
  then have "frames_rel malloc sz n (ex(p' \<mapsto> g)) (w\<lparr>wd_q := q\<rparr>) (hw\<lparr>hw_heap := ?h, hw_q := hq\<rparr>)"
    using rel q'(1) z(2) yq(2) zq(2) g(4) unfolding frames_rel_def by auto
  moreover have "length (ring_items q) < 255" using len as(2) arg_cong [OF p', of length] by (simp add: yq(2))
  moreover have "h_resume sz v (Some p) hw = h_resume sz v (Some p') (hw\<lparr>hw_heap := ?h, hw_q := hq\<rparr>)"
    using c hp(1) z(1) zq(1) by (simp add: h_resume.simps [of sz v "Some p" hw])
  ultimately show ?thesis using yq(1) g(2,3) by blast
qed

lemma return_refines:
  assumes rel: "frames_rel malloc sz n (ex(p \<mapsto> f)) w hw" and p: "p \<notin> dom ex" "cf_owner f"
    and b: "co_resume v (cf_state f) = Inr (Return b)"
  shows "\<exists>hw'. h_resume sz v (Some p) hw = Some (Inr hw') \<and> frames_rel malloc sz n ex (w\<lparr>wd_limit := wd_limit w + 1,
    wd_found := (if b then Suc (wd_found w) else wd_found w),
    wd_not_found := (if b then wd_not_found w else Suc (wd_not_found w))\<rparr>) hw'"
proof -
  obtain as where as: "ring_items (hw_q hw) = map Some as" "wd_items w = states_of (hw_heap hw) as"
      "handles_ok (ex(p \<mapsto> f)) as (hw_heap hw)" using rel by (auto simp: frames_rel_def)
  have "mem_ok malloc sz n (tc_free p sz (hw_allocator hw)) (dom (hw_heap hw) - {p})"
    using rel handles_return(3) [OF as(3) p(1)] by (intro mem_ok_free) (auto simp: frames_rel_def)
  then show ?thesis using b p(2) as rel handles_running [OF as(3)] handles_return [OF as(3) p(1)]
    by (auto simp: h_resume.simps [of sz v "Some p"] co_return_def frames_rel_def)
qed

lemma h_resume_refines:
  assumes "co_run v x w = Some r"
  shows "resumes_alike malloc sz n ex v x w r"
proof (rule co_run.raw_induct [where P = "resumes_alike malloc sz n ex", OF _ assms])
  fix run v x w r
  assume IH: "\<And>v x w r. run v x w = Some r \<Longrightarrow> resumes_alike malloc sz n ex v x w r"
    and body: "(case x of
     None \<Rightarrow> Some (Inl NullPointer)
   | Some h \<Rightarrow> (case co_resume v h of
       Inl e \<Rightarrow> Some (Inl e)
     | Inr (Suspend h') \<Rightarrow> (case pop_front (push_back h' (wd_q w)) of (ho', q') \<Rightarrow> run v ho' (w\<lparr>wd_q := q'\<rparr>))
     | Inr (Return b) \<Rightarrow> Some (Inr (w\<lparr>wd_limit := wd_limit w + 1,
         wd_found := (if b then Suc (wd_found w) else wd_found w),
         wd_not_found := (if b then wd_not_found w else Suc (wd_not_found w))\<rparr>)))) = Some r"
  show "resumes_alike malloc sz n ex v x w r" unfolding resumes_alike_def
  proof (intro allI impI, elim conjE)
    fix hw p f
    assume rel: "frames_rel malloc sz n (ex(p \<mapsto> f)) w hw" and p: "p \<notin> dom ex" "cf_owner f" "x = Some (cf_state f)"
      and len: "length (wd_items w) < 255"
    have hp: "hw_heap hw p = Some f" using rel handles_running(1) by (auto simp: frames_rel_def)
    consider e where "co_resume v (cf_state f) = Inl e" | b where "co_resume v (cf_state f) = Inr (Return b)"
      | c where "co_resume v (cf_state f) = Inr (Suspend c)" by (metis co_outcome.exhaust sum.exhaust)
    then show "case r of Inl e \<Rightarrow> h_resume sz v (Some p) hw = Some (Inl e)
       | Inr w' \<Rightarrow> \<exists>hw'. h_resume sz v (Some p) hw = Some (Inr hw') \<and> frames_rel malloc sz n ex w' hw'"
    proof cases
      case (1 e)
      then show ?thesis using body p(3) hp by (auto simp: h_resume.simps [of sz v "Some p"])
    next
      case (2 b)
      then show ?thesis using return_refines [OF rel p(1,2) 2] body p(3) by auto
    next
      case (3 c)
      obtain y q where q: "pop_front (push_back c (wd_q w)) = (y, q)" by fastforce
      then have alike: "resumes_alike malloc sz n ex v y (w\<lparr>wd_q := q\<rparr>) r" using body p(3) 3 by (intro IH) simp
      from suspend_refines [OF rel p(1,2) len 3 q] obtain p' g hw' where
        g: "h_resume sz v (Some p) hw = h_resume sz v (Some p') hw'" "y = Some (cf_state g)" "cf_owner g" "p' \<notin> dom ex"
        "frames_rel malloc sz n (ex(p' \<mapsto> g)) (w\<lparr>wd_q := q\<rparr>) hw'" "length (ring_items q) < 255" by blast
      show ?thesis unfolding g(1) using resumes_alikeD [OF alike g(5,4,3,2)] g(6) by simp
    qed
  qed
qed

section \<open>Spawning and running\<close>

lemma frames_rel_alloc:
  assumes "inj malloc" and rel: "frames_rel malloc sz n Map.empty w hw" and "length (wd_items w) < n"
    and al: "new_coro malloc sz key hw = (p, hw')"
  shows "frames_rel malloc sz n [p \<mapsto> \<lparr>cf_state = CoInitial key, cf_owner = False\<rparr>] w hw'"
proof -
  obtain as where as: "ring_items (hw_q hw) = map Some as" "wd_items w = states_of (hw_heap hw) as"
      "handles_ok Map.empty as (hw_heap hw)" using rel by (auto simp: frames_rel_def)
  have dom: "dom (hw_heap hw) = set as" using as(3) by (simp add: handles_ok_def)
  obtain a where a: "tc_alloc (malloc (tc_alloc_count (hw_allocator hw))) sz (hw_allocator hw) = (p, a)"
    "hw' = hw\<lparr>hw_heap := (hw_heap hw)(p \<mapsto> \<lparr>cf_state = CoInitial key, cf_owner = False\<rparr>), hw_allocator := a\<rparr>"
    using al by (auto simp: new_coro_def split: prod.splits)
  have "card (dom (hw_heap hw)) < n" using assms(3) as(2) card_length [of as] dom by simp
  from mem_ok_alloc [OF assms(1) _ this a(1)] rel dom have
    "p \<notin> set as" "mem_ok malloc sz n a (insert p (set as))" by (auto simp: frames_rel_def)
  then show ?thesis using rel as dom by (auto simp: frames_rel_def a(2) handles_ok_def map_le_def)
qed

lemma frames_rel_pop:
  assumes rel: "frames_rel malloc sz n ex w hw" and q: "pop_front (wd_q w) = (x, q)" and "wd_items w \<noteq> []"
  shows "\<exists>p f hq. pop_front (hw_q hw) = (Some p, hq) \<and> x = Some (cf_state f) \<and> cf_owner f \<and> p \<notin> dom ex \<and>
    frames_rel malloc sz n (ex(p \<mapsto> f)) (w\<lparr>wd_q := q\<rparr>) (hw\<lparr>hw_q := hq\<rparr>) \<and> ring_items (hw_q hw) \<noteq> []"
proof -
  obtain as where as: "ring_items (hw_q hw) = map Some as" "wd_items w = states_of (hw_heap hw) as"
      "handles_ok ex as (hw_heap hw)" using rel by (auto simp: frames_rel_def)
  then obtain p as' where p: "as = p # as'" using assms(3) by (cases as) auto
  then obtain f where f: "hw_heap hw p = Some f" "cf_owner f" using as(3) by (auto simp: handles_ok_def)
  obtain hq where hq: "pop_front (hw_q hw) = (Some p, hq)" "ring_ok hq" "ring_items hq = map Some as'"
    using ring.pop_items [of "hw_q hw" "Some p" "map Some as'"] rel as(1) p by (auto simp: frames_rel_def)
  have x: "x = Some (cf_state f)" "ring_ok q" "ring_items q = states_of (hw_heap hw) as'"
    using ring.pop_items [of "wd_q w" "Some (cf_state f)" "states_of (hw_heap hw) as'"] rel as(2) p q f(1)
    by (auto simp: frames_rel_def)
  have "ex(p \<mapsto> f) \<subseteq>\<^sub>m hw_heap hw"
    using as(3) map_le_upd [of ex "hw_heap hw" p "Some f"] fun_upd_idem [of "hw_heap hw", OF f(1)] by (simp add: handles_ok_def)
  then have "handles_ok (ex(p \<mapsto> f)) as' (hw_heap hw)" using as(3) p by (auto simp: handles_ok_def simp del: fun_upd_apply)
  then have "frames_rel malloc sz n (ex(p \<mapsto> f)) (w\<lparr>wd_q := q\<rparr>) (hw\<lparr>hw_q := hq\<rparr>)"
    using rel hq x by (auto simp: frames_rel_def)
  moreover have "p \<notin> dom ex" using as(3) p by (auto simp: handles_ok_def)
  ultimately show ?thesis using hq(1) x(1) f(2) as(1) p by auto
qed

lemma pop_resume_refines:
  assumes v: "sorted v" and w: "spawned_ok v streams k h w" "wd_items w \<noteq> []" and s: "streams \<le> 255"
    and rel: "frames_rel malloc sz n ex w hw"
  shows "\<exists>x q w' p hq hw'. pop_front (wd_q w) = (x, q) \<and> co_run v x (w\<lparr>wd_q := q\<rparr>) = Some (Inr w') \<and>
    spawned_ok v streams k h w' \<and> length (wd_items w) = Suc (length (wd_items w')) \<and>
    pop_front (hw_q hw) = (Some p, hq) \<and> ring_items (hw_q hw) \<noteq> [] \<and>
    h_resume sz v (Some p) (hw\<lparr>hw_q := hq\<rparr>) = Some (Inr hw') \<and> frames_rel malloc sz n ex w' hw'"
proof -
  from pop_run [OF v w s] obtain x q w' where r: "pop_front (wd_q w) = (x, q)" "co_run v x (w\<lparr>wd_q := q\<rparr>) = Some (Inr w')"
    "spawned_ok v streams k h w'" "length (wd_items w) = Suc (length (wd_items w'))" by blast
  from frames_rel_pop [OF rel r(1) w(2)] obtain p f hq where p: "pop_front (hw_q hw) = (Some p, hq)" "x = Some (cf_state f)"
    "cf_owner f" "p \<notin> dom ex" "frames_rel malloc sz n (ex(p \<mapsto> f)) (w\<lparr>wd_q := q\<rparr>) (hw\<lparr>hw_q := hq\<rparr>)" "ring_items (hw_q hw) \<noteq> []" by blast
  obtain xs where xs: "wd_items w = x # xs" "ring_items q = xs"
    using ring.pop_items [of "wd_q w"] rel w(2) r(1) by (cases "wd_items w") (fastforce simp: frames_rel_def)+
  have "length (ring_items q) < 255" using w(1) s xs by (simp add: spawned_ok_def)
  with resumes_alikeD [OF h_resume_refines [OF r(2)] p(5,4,3,2)] obtain hw' where
    "h_resume sz v (Some p) (hw\<lparr>hw_q := hq\<rparr>) = Some (Inr hw')" "frames_rel malloc sz n ex w' hw'" by auto
  with r p(1,6) show ?thesis by blast
qed

lemma frames_rel_push:
  assumes rel: "frames_rel malloc sz n [p \<mapsto> f] w hw" and len: "length (wd_items w) < 255"
  shows "\<exists>hw'. set_owner p hw = Inr hw' \<and> frames_rel malloc sz n Map.empty
    (w\<lparr>wd_q := push_back (cf_state f) (wd_q w), wd_limit := wd_limit w - 1\<rparr>)
    (hw'\<lparr>hw_q := push_back p (hw_q hw'), hw_limit := hw_limit hw' - 1\<rparr>)"
proof -
  obtain as where as: "ring_items (hw_q hw) = map Some as" "wd_items w = states_of (hw_heap hw) as"
      "handles_ok [p \<mapsto> f] as (hw_heap hw)" using rel by (auto simp: frames_rel_def)
  let ?h = "(hw_heap hw)(p \<mapsto> f\<lparr>cf_owner := True\<rparr>)"
  have hp: "hw_heap hw p = Some f" "p \<notin> set as" using handles_running [OF as(3)] by auto
  have own: "set_owner p hw = Inr (hw\<lparr>hw_heap := ?h\<rparr>)" by (simp add: set_owner_def hp)
  have q: "ring_ok (push_back p (hw_q hw))" "ring_items (push_back p (hw_q hw)) = map Some (as @ [p])"
    using ring.push_items [of "hw_q hw" p] rel as(1,2) len by (auto simp: frames_rel_def)
  have wq: "ring_ok (push_back (cf_state f) (wd_q w))"
    "ring_items (push_back (cf_state f) (wd_q w)) = states_of ?h (as @ [p])"
    using ring.push_items [of "wd_q w" "cf_state f"] rel as(2) len hp(2) by (auto simp: frames_rel_def)
  have "dom ?h = dom (hw_heap hw)" using hp(1) by auto
  moreover have "handles_ok Map.empty (as @ [p]) ?h" using as(3) hp by (auto simp: handles_ok_def)
  ultimately show ?thesis using rel own q wq unfolding frames_rel_def
    by (auto simp del: fun_upd_apply dom_fun_upd intro!: exI [of _ "as @ [p]"])
qed

lemma h_spawn_refines:
  assumes "inj malloc" and v: "sorted v" and w: "spawned_ok v streams k h w" and s: "1 \<le> streams" "streams \<le> 255"
    and rel: "frames_rel malloc sz (Suc streams) Map.empty w hw" and sp: "throttler_spawn v key w = Some (Inr w')"
  shows "\<exists>hw'. h_spawn malloc sz v key hw = Some (Inr hw') \<and> frames_rel malloc sz (Suc streams) Map.empty w' hw'"
proof -
  obtain p hw0 where new: "new_coro malloc sz key hw = (p, hw0)" by fastforce
  let ?f = "\<lparr>cf_state = CoInitial key, cf_owner = False\<rparr>"
  have "length (wd_items w) < Suc streams" using w by (simp add: spawned_ok_def)
  from frames_rel_alloc [OF assms(1) rel this new] have rel0: "frames_rel malloc sz (Suc streams) [p \<mapsto> ?f] w hw0" .
  then have lim: "hw_limit hw0 = wd_limit w" by (simp add: frames_rel_def)
  obtain w1 hw1 where w1: "(if wd_limit w = 0 then (case pop_front (wd_q w) of (ho, q) \<Rightarrow> co_run v ho (w\<lparr>wd_q := q\<rparr>))
      else Some (Inr w)) = Some (Inr w1)" "spawned_ok v streams k h w1" "wd_limit w1 \<noteq> 0"
    "(if hw_limit hw0 = 0 then (case pop_front (hw_q hw0) of (ho, q) \<Rightarrow> h_resume sz v ho (hw0\<lparr>hw_q := q\<rparr>))
      else Some (Inr hw0)) = Some (Inr hw1)" "frames_rel malloc sz (Suc streams) [p \<mapsto> ?f] w1 hw1"
  proof (cases "wd_limit w = 0")
    case True
    then have "wd_items w \<noteq> []" using w s by (auto simp: spawned_ok_def)
    from pop_resume_refines [OF v w this s(2) rel0] obtain x q w' p' hq hw' where r: "pop_front (wd_q w) = (x, q)"
      "co_run v x (w\<lparr>wd_q := q\<rparr>) = Some (Inr w')" "spawned_ok v streams k h w'"
      "length (wd_items w) = Suc (length (wd_items w'))" "pop_front (hw_q hw0) = (Some p', hq)"
      "h_resume sz v (Some p') (hw0\<lparr>hw_q := hq\<rparr>) = Some (Inr hw')" "frames_rel malloc sz (Suc streams) [p \<mapsto> ?f] w' hw'" by blast
    have "wd_limit w' \<noteq> 0" using r(3,4) w True by (auto simp: spawned_ok_def)
    then show ?thesis using that r True lim by simp
  qed (use w that rel0 lim in simp)
  have "1 \<le> unat (wd_limit w1)" using w1(3) by (simp add: Suc_le_eq unat_gt_0)
  then have "length (wd_items w1) < 255" using w1(2) s by (simp add: spawned_ok_def)
  from frames_rel_push [OF w1(5) this] obtain hw2 where hw2: "set_owner p hw1 = Inr hw2"
    "frames_rel malloc sz (Suc streams) Map.empty (w1\<lparr>wd_q := push_back (CoInitial key) (wd_q w1), wd_limit := wd_limit w1 - 1\<rparr>)
       (hw2\<lparr>hw_q := push_back p (hw_q hw2), hw_limit := hw_limit hw2 - 1\<rparr>)" by auto
  have "w' = w1\<lparr>wd_q := push_back (CoInitial key) (wd_q w1), wd_limit := wd_limit w1 - 1\<rparr>"
    using sp w1(1) by (simp add: throttler_spawn_def)
  moreover have "h_spawn malloc sz v key hw = Some (Inr (hw2\<lparr>hw_q := push_back p (hw_q hw2), hw_limit := hw_limit hw2 - 1\<rparr>))"
    using w1(4) hw2(1) by (simp add: h_spawn_def new)
  ultimately show ?thesis using hw2(2) by simp
qed

lemma h_spawn_all_refines:
  assumes "inj malloc" and v: "sorted v" and w: "spawned_ok v streams k h w" and s: "1 \<le> streams" "streams \<le> 255"
    and rel: "frames_rel malloc sz (Suc streams) Map.empty w hw"
  shows "\<exists>w' hw'. spawned_ok v streams (k + length keys) (h + hits v keys) w' \<and>
    h_spawn_all malloc sz v keys hw = Some (Inr hw') \<and> frames_rel malloc sz (Suc streams) Map.empty w' hw'"
  using w rel
proof (induction keys arbitrary: k h w hw)
  case Nil
  then show ?case by (auto simp: hits_def)
next
  case (Cons key keys)
  obtain w1 where w1: "throttler_spawn v key w = Some (Inr w1)"
      "spawned_ok v streams (Suc k) (h + (if key \<in> set v then 1 else 0)) w1"
    using throttler_spawn_ok [OF v Cons.prems(1) s] by blast
  obtain hw1 where hw1: "h_spawn malloc sz v key hw = Some (Inr hw1)" "frames_rel malloc sz (Suc streams) Map.empty w1 hw1"
    using h_spawn_refines [OF assms(1) v Cons.prems(1) s Cons.prems(2) w1(1)] by blast
  from Cons.IH [OF w1(2) hw1(2)] hw1(1) show ?case by (auto simp: hits_def)
qed

lemma h_run_refines:
  assumes v: "sorted v" and w: "spawned_ok v streams k h w" and s: "streams \<le> 255" and rel: "frames_rel malloc sz n Map.empty w hw"
  shows "\<exists>w' hw'. spawned_ok v streams k h w' \<and> wd_items w' = [] \<and>
    h_run sz v hw = Some (Inr hw') \<and> frames_rel malloc sz n Map.empty w' hw'"
  using w rel
proof (induction "length (wd_items w)" arbitrary: w hw)
  case 0
  then have "ring_ok (hw_q hw)" "ring_items (hw_q hw) = []" by (auto simp: frames_rel_def states_of_def)
  then have "try_pop_front (hw_q hw) = (None, hw_q hw)" using ring.try_pop_items [of "hw_q hw"] by simp
  then show ?case using 0 by (auto simp: h_run.simps [of sz v hw])
next
  case (Suc m)
  then have ne: "wd_items w \<noteq> []" by auto
  from pop_resume_refines [OF v Suc.prems(1) ne s Suc.prems(2)] obtain w1 p hq hw1 where r: "spawned_ok v streams k h w1"
    "length (wd_items w) = Suc (length (wd_items w1))" "pop_front (hw_q hw) = (Some p, hq)" "ring_items (hw_q hw) \<noteq> []"
    "h_resume sz v (Some p) (hw\<lparr>hw_q := hq\<rparr>) = Some (Inr hw1)" "frames_rel malloc sz n Map.empty w1 hw1" by blast
  have "try_pop_front (hw_q hw) = (Some p, hq)"
    using ring.try_pop_items [of "hw_q hw"] r(3,4) Suc.prems(2) by (simp add: frames_rel_def)
  then have "h_run sz v hw = h_run sz v hw1" using r(5) by (simp add: h_run.simps [of sz v hw])
  then show ?case using Suc.hyps(1) [OF _ r(1,6)] Suc.hyps(2) r(2) by simp
qed

text \<open>Between two calls: no frame is live, no handle is in the ring, every block is on the free list.\<close>

definition frames_idle :: "(nat \<Rightarrow> nat) \<Rightarrow> nat \<Rightarrow> nat \<Rightarrow> heap_world \<Rightarrow> bool" where
  "frames_idle malloc sz n hw \<longleftrightarrow> ring_ok (hw_q hw) \<and> ring_items (hw_q hw) = [] \<and> hw_heap hw = Map.empty \<and>
     mem_ok malloc sz n (hw_allocator hw) {}"

definition new_heap_world :: heap_world where
  "new_heap_world = \<lparr>hw_heap = Map.empty, hw_allocator = new_tcalloc, hw_q = new_scheduler_queue,
     hw_limit = 0, hw_found = 0, hw_not_found = 0\<rparr>"

lemma new_heap_world_idle: "frames_idle malloc sz n new_heap_world"
  by (simp add: frames_idle_def new_heap_world_def new_scheduler_queue_def ring_ok_def ring_items_def ring_len_def
    mem_ok_def tc_inv_def new_tcalloc_def)

lemma idle_rel:
  "frames_idle malloc sz n hw \<Longrightarrow> frames_rel malloc sz n Map.empty
     \<lparr>wd_q = new_scheduler_queue, wd_limit = streams, wd_found = 0, wd_not_found = 0\<rparr>
     (hw\<lparr>hw_limit := streams, hw_found := 0, hw_not_found := 0\<rparr>)"
  by (auto simp: frames_idle_def frames_rel_def new_scheduler_queue_def ring_ok_def ring_items_def ring_len_def handles_ok_def)

lemma rel_idle:
  assumes "frames_rel malloc sz n Map.empty w hw" and "wd_items w = []"
  shows "frames_idle malloc sz n hw"
proof -
  obtain as where "ring_items (hw_q hw) = map Some as" "wd_items w = states_of (hw_heap hw) as"
      "handles_ok Map.empty as (hw_heap hw)" using assms(1) by (auto simp: frames_rel_def)
  then have "ring_items (hw_q hw) = []" "dom (hw_heap hw) = {}" using assms(2) by (auto simp: handles_ok_def states_of_def)
  then show ?thesis using assms(1) by (simp add: frames_idle_def frames_rel_def)
qed

lemma h_lookup_refines:
  assumes "inj malloc" and v: "sorted v" and s: "1 \<le> unat streams" "unat streams \<le> 255"
    and idle: "frames_idle malloc sz (Suc (unat streams)) hw"
  shows "\<exists>hw'. h_lookup malloc sz v lookups streams hw = Some (Inr ((hits v lookups, False), hw')) \<and>
    frames_idle malloc sz (Suc (unat streams)) hw'"
proof -
  let ?w = "\<lparr>wd_q = new_scheduler_queue, wd_limit = streams, wd_found = 0, wd_not_found = 0\<rparr>"
  have "spawned_ok v (unat streams) 0 0 ?w"
    by (simp add: spawned_ok_def world_ok_def ring_ok_def ring_items_def ring_len_def new_scheduler_queue_def)
  from h_spawn_all_refines [OF assms(1) v this s idle_rel [OF idle], of lookups] obtain w1 hw1 where
    w1: "spawned_ok v (unat streams) (length lookups) (hits v lookups) w1"
    "h_spawn_all malloc sz v lookups (hw\<lparr>hw_limit := streams, hw_found := 0, hw_not_found := 0\<rparr>) = Some (Inr hw1)"
    "frames_rel malloc sz (Suc (unat streams)) Map.empty w1 hw1" by auto
  from h_run_refines [OF v w1(1) s(2) w1(3)] obtain w2 hw2 where
    w2: "spawned_ok v (unat streams) (length lookups) (hits v lookups) w2" "wd_items w2 = []"
    "h_run sz v hw1 = Some (Inr hw2)" "frames_rel malloc sz (Suc (unat streams)) Map.empty w2 hw2" by blast
  from h_run_refines [OF v w2(1) s(2) w2(4)] obtain w3 hw3 where
    w3: "wd_items w3 = []" "h_run sz v hw2 = Some (Inr hw3)" "frames_rel malloc sz (Suc (unat streams)) Map.empty w3 hw3" by blast
  have "hw_found hw2 = hits v lookups" "hw_not_found hw2 + hits v lookups = length lookups"
    using w2(1,2,4) by (auto simp: frames_rel_def spawned_ok_def)
  then have "h_lookup malloc sz v lookups streams hw = Some (Inr ((hits v lookups, False), hw3))"
    using w1(2) w2(3) w3(2) by (simp add: h_lookup_def)
  with rel_idle [OF w3(3,1)] show ?thesis by blast
qed

text \<open>The destructor of the allocator frees each block \<open>malloc\<close> returned once.\<close>

lemma idle_destroy:
  assumes "inj malloc" and "frames_idle malloc sz n hw"
  shows "distinct (tc_destroy (hw_allocator hw))" and "set (tc_destroy (hw_allocator hw)) = malloc ` {..<tc_alloc_count (hw_allocator hw)}"
  using assms by (auto simp: frames_idle_def mem_ok_def tc_inv_def tc_destroy_def)

section \<open>Properties\<close>

text \<open>
  C19. The coroutine search over frames on a heap refines the search over coroutine states: with one to
  255 streams, from a state between two calls, it returns the same answer and never resumes a handle
  that is null or whose frame was deleted.  Afterwards all frames are deleted, the allocator has asked
  \<open>malloc\<close> for at most one block more than there are streams, and its destructor frees each block once.
\<close>

theorem coroutine_frames_refine:
  assumes "inj malloc" and "sorted v" and "1 \<le> unat streams" and "unat streams \<le> 255"
    and "frames_idle malloc sz (Suc (unat streams)) hw"
  shows "\<exists>r hw'. CoroMultiLookup v lookups streams = Some (Inr r) \<and>
    h_lookup malloc sz v lookups streams hw = Some (Inr (r, hw')) \<and> frames_idle malloc sz (Suc (unat streams)) hw' \<and>
    tc_alloc_count (hw_allocator hw') \<le> Suc (unat streams) \<and> distinct (tc_destroy (hw_allocator hw')) \<and>
    set (tc_destroy (hw_allocator hw')) = malloc ` {..<tc_alloc_count (hw_allocator hw')}"
proof -
  from h_lookup_refines [OF assms] obtain hw' where
    "h_lookup malloc sz v lookups streams hw = Some (Inr ((hits v lookups, False), hw'))"
    and idle: "frames_idle malloc sz (Suc (unat streams)) hw'" by blast
  with CoroMultiLookup_ok [OF assms(2-4), of lookups] idle_destroy [OF assms(1) idle] show ?thesis
    by (auto simp: frames_idle_def mem_ok_def)
qed

theorem coroutine_frames_refine_witness:
  "\<exists>r hw'. CoroMultiLookup [2, 3, 5, 8] [3, 4, 8, 8, 9] 2 = Some (Inr r) \<and>
    h_lookup (\<lambda>k. 4096 + 128 * k) 96 [2, 3, 5, 8] [3, 4, 8, 8, 9] 2 new_heap_world = Some (Inr (r, hw')) \<and>
    tc_alloc_count (hw_allocator hw') \<le> 3 \<and> distinct (tc_destroy (hw_allocator hw'))"
proof -
  have "inj (\<lambda>k :: nat. 4096 + 128 * k)" by (simp add: inj_on_def)
  from coroutine_frames_refine [OF this, of "[2, 3, 5, 8]" 2 96 new_heap_world "[3, 4, 8, 8, 9]"]
  show ?thesis using new_heap_world_idle by (auto simp: numeral_3_eq_3)
qed

end
