(* ===== verification/Tpcc_Dump.thy ===== *)
theory Tpcc_Dump
  imports Tpcc Latency_Log
begin

text \<open>
  The tool \<^verbatim>\<open>app/tpcc/gen-log/dump_txn.cc\<close>, which prints the transactions of a log.  The file is its list of
  bytes, \<open>None\<close> if it cannot be opened; what the stack holds where the code leaves a variable
  uninitialised is an argument.  The tool prints a log of its own record layout, and a log of the layout that \<^verbatim>\<open>tpcc.cc\<close>
  uses wrongly.
\<close>

section \<open>Reading\<close>

text \<open>\<open>fread\<close> of one element of \<open>n\<close> bytes into a buffer: what is left of a shorter file leaves the rest of the buffer.\<close>

definition fread :: "nat \<Rightarrow> u8 list \<Rightarrow> u8 list \<Rightarrow> u8 list \<times> u8 list" where
  "fread n buf file = (take n file @ drop (length (take n file)) buf, drop n file)"

definition DUMP_SIZE :: nat where
  "DUMP_SIZE = 512"

text \<open>Fields of the packed struct: the type, thirty cown addresses, sixty-five parameters, padding.\<close>

definition dump_type :: "u8 list \<Rightarrow> nat" where
  "dump_type rec = nat_of_bytes (take 1 rec)"

definition dump_param :: "u8 list \<Rightarrow> nat \<Rightarrow> nat" where
  "dump_param rec j = nat_of_bytes (take 4 (drop (1 + 8 * 30 + 4 * j) rec))"

definition dump_txn :: "nat \<Rightarrow> u8 list \<Rightarrow> string" where
  "dump_txn i rec =
     ''Transaction '' @ decimal i @ '' type: '' @ decimal (dump_type rec) @ [newline] @
     concat (map (\<lambda>j. decimal (dump_param rec j) @ '' '') [0..<65]) @ [newline]"

fun dump_loop :: "nat \<Rightarrow> nat \<Rightarrow> (nat \<Rightarrow> u8 list) \<Rightarrow> u8 list \<Rightarrow> string" where
  "dump_loop i 0 stack file = []"
| "dump_loop i (Suc n) stack file =
     (case fread DUMP_SIZE (stack i) file of (rec, rest) \<Rightarrow> dump_txn i rec @ dump_loop (Suc i) n stack rest)"

text \<open>\<open>num_txns\<close> has eight bytes, of which four are read.\<close>

definition read_file :: "u8 list \<Rightarrow> (nat \<Rightarrow> u8 list) \<Rightarrow> u8 list option \<Rightarrow> string result" where
  "read_file num_txns0 stack fp = (case fp of
     None \<Rightarrow> Inl NullPointer
   | Some file \<Rightarrow> (case fread 4 num_txns0 file of (num_txns, rest) \<Rightarrow>
       Inr (''sizeof TPCCTransactionMarshalled: '' @ decimal DUMP_SIZE @ [newline] @
            ''Number of transactions: '' @ decimal (nat_of_bytes num_txns) @ [newline] @
            dump_loop 0 (nat_of_bytes num_txns) stack rest)))"

section \<open>What is printed\<close>

text \<open>A file in the layout of the tool: the number of records in four bytes, then the records.\<close>

definition dump_file :: "u8 list list \<Rightarrow> u8 list" where
  "dump_file recs = bytes_of 4 (length recs) @ concat recs"

lemma fread_all: "length xs = n \<Longrightarrow> fread n buf (xs @ rest) = (xs @ drop n buf, rest)"
  by (simp add: fread_def)

lemma nat_of_bytes_append: "nat_of_bytes (xs @ ys) = nat_of_bytes xs + 256 ^ length xs * nat_of_bytes ys"
  by (induction xs) (simp_all add: algebra_simps)

lemma nat_of_zeros: "nat_of_bytes (replicate k 0) = 0"
  by (induction k) simp_all

lemma dump_loop_records:
  assumes "\<forall>r\<in>set recs. length r = DUMP_SIZE" and "\<forall>k. length (stack k) = DUMP_SIZE"
  shows "dump_loop i (length recs) stack (concat recs @ rest) = concat (map (\<lambda>k. dump_txn (i + k) (recs ! k)) [0..<length recs])"
  using assms(1)
proof (induction recs arbitrary: i)
  case (Cons r recs)
  have "fread DUMP_SIZE (stack i) (r @ concat recs @ rest) = (r, concat recs @ rest)"
    using fread_all [of r DUMP_SIZE "stack i" "concat recs @ rest"] Cons.prems assms(2) by simp
  then show ?case using Cons by (simp add: upt_conv_Cons map_Suc_upt [symmetric] comp_def del: upt_Suc)
qed simp

text \<open>
  With the upper half of \<open>num_txns\<close> zero the tool prints each record of the file once, in order; the
  number it prints and loops to is otherwise larger by a multiple of \<open>2 ^ 32\<close>.
\<close>

lemma read_file_prints:
  assumes "\<forall>r\<in>set recs. length r = DUMP_SIZE" and "\<forall>k. length (stack k) = DUMP_SIZE" and "length recs < 2 ^ 32"
    and "drop 4 num_txns0 = replicate 4 0"
  shows "read_file num_txns0 stack (Some (dump_file recs)) =
    Inr (''sizeof TPCCTransactionMarshalled: '' @ decimal 512 @ [newline] @
      ''Number of transactions: '' @ decimal (length recs) @ [newline] @
      concat (map (\<lambda>k. dump_txn k (recs ! k)) [0..<length recs]))"
proof -
  have "fread 4 num_txns0 (dump_file recs) = (bytes_of 4 (length recs) @ replicate 4 0, concat recs)"
    using fread_all [of "bytes_of 4 (length recs)" 4 num_txns0 "concat recs"] assms(4) by (simp add: dump_file_def)
  moreover have "nat_of_bytes (bytes_of 4 (length recs) @ replicate 4 0) = length recs"
    using assms(3) by (simp add: nat_of_bytes_append nat_of_bytes_bytes_of nat_of_zeros)
  ultimately show ?thesis using dump_loop_records [OF assms(1,2), of 0 "[]"]
    by (simp add: read_file_def DUMP_SIZE_def)
qed

lemma dumped_count:
  assumes "length file \<ge> 4" and "length num_txns0 = 8"
  shows "nat_of_bytes (fst (fread 4 num_txns0 file)) = nat_of_bytes (take 4 file) + 2 ^ 32 * nat_of_bytes (drop 4 num_txns0)"
  using assms by (simp add: fread_def nat_of_bytes_append min_def)

text \<open>On a log of the layout of \<^verbatim>\<open>tpcc.cc\<close> the first parameter printed lies sixty parameters further on.\<close>

lemma dump_param_shifted:
  assumes "length rec = sizeof_TPCCTransactionMarshalled" and "j < 5"
  shows "tpcc_param 0 (60 + j) rec = Inr (of_nat (dump_param rec j))"
  using assms by (simp add: tpcc_param_def load_u32_def load_def dump_param_def sizeof_TPCCTransactionMarshalled_def)

end
