(* ===== verification/Cpp_Preprocessor.thy ===== *)
theory Cpp_Preprocessor
  imports Prelude
begin

text \<open>
  Macro expansion of the C++ preprocessor, as far as the macros of the blockchain application use it:
  object-like and function-like macros with variadic parameters, \<open>##\<close>, the expansion of arguments before
  they are substituted and the rescan of the result together with the rest of the source.  While the
  replacement of a macro is rescanned the macro is disabled; a disabled name that is met is painted and never expanded again.
  \<open>'n\<close> is the type of identifiers; a macro table and the pasting of two tokens are given with it.
\<close>

section \<open>Tokens and macros\<close>

text \<open>\<open>Blue\<close> is a painted identifier.\<close>

datatype 'n tok = Id 'n | Blue 'n | Num nat | LP | RP | Comma | Txt string

text \<open>What is still to be scanned; \<open>End m\<close> marks the end of the replacement of \<open>m\<close>.\<close>

datatype 'n pp_item = T "'n tok" | End 'n

text \<open>A replacement list: tokens, parameters, \<open>##\<close>, and tokens that pasting has already produced.\<close>

datatype 'n bitem = BT "'n tok" | BP nat | BPaste | BSeq "'n tok list"

text \<open>\<open>Func n v\<close> has \<open>n\<close> named parameters; with \<open>v\<close>, \<open>__VA_ARGS__\<close> is the parameter with the number \<open>n\<close>.\<close>

datatype 'n macro = Obj "'n bitem list" | Func nat bool "'n bitem list"

record 'n cpp =
  lookup :: "'n \<Rightarrow> 'n macro option"
  paste :: "'n tok \<Rightarrow> 'n tok \<Rightarrow> 'n tok option"

section \<open>Arguments and substitution\<close>

definition arg_at :: "'n tok list list \<Rightarrow> nat \<Rightarrow> 'n tok list" where
  "arg_at args i = (if i < length args then args ! i else [])"

fun bitem_toks :: "'n tok list list \<Rightarrow> 'n bitem \<Rightarrow> 'n tok list" where
  "bitem_toks args (BT t) = [t]"
| "bitem_toks args (BP i) = arg_at args i"
| "bitem_toks args BPaste = []"
| "bitem_toks args (BSeq ts) = ts"

definition glue :: "'n cpp \<Rightarrow> 'n tok list \<Rightarrow> 'n tok list \<Rightarrow> 'n tok list option" where
  "glue C xs ys =
     (if xs = [] then Some ys else if ys = [] then Some xs
      else map_option (\<lambda>t. butlast xs @ t # tl ys) (paste C (last xs) (hd ys)))"

text \<open>An operand of \<open>##\<close> is the argument as written, any other parameter the expanded argument.\<close>

fun subst :: "'n cpp \<Rightarrow> 'n tok list list \<Rightarrow> 'n tok list list \<Rightarrow> 'n bitem list \<Rightarrow> 'n tok list option" where
  "subst C raw ex [] = Some []"
| "subst C raw ex (x # xs) = (case xs of
     BPaste # y # ys \<Rightarrow> Option.bind (glue C (bitem_toks raw x) (bitem_toks raw y)) (\<lambda>ts. subst C raw ex (BSeq ts # ys))
   | _ \<Rightarrow> map_option ((@) (bitem_toks ex x)) (subst C raw ex xs))"

text \<open>
  The arguments up to the closing parenthesis: \<open>d\<close> is the depth of nested parentheses and \<open>k\<close> the number of
  commas that may still separate arguments, \<open>None\<close> without a bound.
\<close>

fun collect :: "nat \<Rightarrow> nat option \<Rightarrow> 'n tok list \<Rightarrow> 'n tok list list \<Rightarrow> 'n pp_item list \<Rightarrow> ('n tok list list \<times> 'n pp_item list) option" where
  "collect d k cur acc [] = None"
| "collect d k cur acc (End m # s) = collect d k cur acc s"
| "collect d k cur acc (T t # s) =
     (if t = RP \<and> d = 0 then Some (acc @ [cur], s)
      else if t = Comma \<and> d = 0 \<and> k \<noteq> Some 0 then collect 0 (map_option (\<lambda>n. n - 1) k) [] (acc @ [cur]) s
      else collect (if t = LP then Suc d else if t = RP then d - 1 else d) k (cur @ [t]) acc s)"

definition actuals :: "nat \<Rightarrow> bool \<Rightarrow> 'n tok list list \<Rightarrow> 'n tok list list option" where
  "actuals n v args =
     (if v then (if length args = Suc n then Some args else if length args = n then Some (args @ [[]]) else None)
      else if n = 0 then (if args = [[]] then Some [] else None)
      else if length args = n then Some args else None)"

section \<open>Scanning\<close>

fun is_End :: "'n pp_item \<Rightarrow> bool" where
  "is_End (End m) \<longleftrightarrow> True"
| "is_End (T t) \<longleftrightarrow> False"

text \<open>The macros whose replacement the scan has not left yet.\<close>

fun ends :: "'n pp_item list \<Rightarrow> 'n list" where
  "ends [] = []"
| "ends (End m # s) = m # ends s"
| "ends (T t # s) = ends s"

text \<open>
  What becomes of a token in front of \<open>s\<close>: it is copied, or a macro is called and the scan goes on
  after the call, or the call is malformed.  The search for the opening parenthesis leaves
  replacements that end before it.
\<close>

datatype 'n action = Copy "'n tok" | Call 'n "'n bitem list" "'n tok list list" "'n pp_item list" | Malformed

definition invocation :: "'n cpp \<Rightarrow> 'n list \<Rightarrow> 'n tok \<Rightarrow> 'n pp_item list \<Rightarrow> 'n action" where
  "invocation C D t s = (case t of
     Id m \<Rightarrow> (case lookup C m of
       None \<Rightarrow> Copy t
     | Some d \<Rightarrow>
         if m \<in> set D \<or> m \<in> set (ends s) then Copy (Blue m)
         else (case d of
           Obj body \<Rightarrow> Call m body [] s
         | Func n v body \<Rightarrow> (case dropWhile is_End s of
             T t1 # s1 \<Rightarrow>
               if t1 = LP then (case collect 0 (if v then Some n else None) [] [] s1 of
                   None \<Rightarrow> Malformed
                 | Some (args, rest) \<Rightarrow> (case actuals n v args of
                     None \<Rightarrow> Malformed | Some as \<Rightarrow> Call m body as rest))
               else Copy t
           | _ \<Rightarrow> Copy t)))
   | _ \<Rightarrow> Copy t)"

fun omapM :: "('a \<Rightarrow> 'b option) \<Rightarrow> 'a list \<Rightarrow> 'b list option" where
  "omapM f [] = Some []"
| "omapM f (x # xs) = Option.bind (f x) (\<lambda>y. Option.bind (omapM f xs) (\<lambda>ys. Some (y # ys)))"

lemma omapM_mono [partial_function_mono]:
  assumes "\<And>y. mono_option (\<lambda>f. B y f)"
  shows "mono_option (\<lambda>f. omapM (\<lambda>y. B y f) xs)"
proof (induction xs)
  case Nil
  show ?case by (simp add: monotone_def option.leq_refl)
next
  case (Cons x xs)
  show ?case unfolding omapM.simps by (intro bind_mono assms Cons.IH option.const_mono)
qed

text \<open>\<open>D\<close> are the macros that are disabled outside of what is scanned.\<close>

partial_function (option) scan :: "'n cpp \<Rightarrow> 'n list \<Rightarrow> 'n pp_item list \<Rightarrow> 'n tok list option" where
  "scan C D s = (case s of
     [] \<Rightarrow> Some []
   | i # s' \<Rightarrow> (case i of
       End m \<Rightarrow> scan C D s'
     | T t \<Rightarrow> (case invocation C D t s' of
         Copy t' \<Rightarrow> Option.bind (scan C D s') (\<lambda>r. Some (t' # r))
       | Malformed \<Rightarrow> None
       | Call m body raw rest \<Rightarrow>
           Option.bind (omapM (\<lambda>a. scan C (D @ ends rest) (map T a)) raw) (\<lambda>ex.
             Option.bind (subst C raw ex body) (\<lambda>ts. scan C D (map T ts @ End m # rest))))))"

section \<open>Rules\<close>

lemma scan_simps [simp]:
  "scan C D [] = Some []"
  "scan C D (End m # s) = scan C D s"
  "scan C D (T t # s) = (case invocation C D t s of
     Copy t' \<Rightarrow> Option.bind (scan C D s) (\<lambda>r. Some (t' # r))
   | Malformed \<Rightarrow> None
   | Call m body raw rest \<Rightarrow>
       Option.bind (omapM (\<lambda>a. scan C (D @ ends rest) (map T a)) raw) (\<lambda>ex.
         Option.bind (subst C raw ex body) (\<lambda>ts. scan C D (map T ts @ End m # rest))))"
  by (subst scan.simps; simp)+

lemma ends_simps [simp]: "ends (xs @ ys) = ends xs @ ends ys" "ends (map T ts) = []" "ends (map End ms) = ms"
proof -
  show "ends (xs @ ys) = ends xs @ ends ys" by (induction xs rule: ends.induct) simp_all
  show "ends (map T ts) = []" by (induction ts) simp_all
  show "ends (map End ms) = ms" by (induction ms) simp_all
qed

lemma scan_map_End [simp]: "scan C D (map End ms) = Some []"
  by (induction ms) simp_all

text \<open>Tokens that name no macro are copied.\<close>

definition inert :: "'n cpp \<Rightarrow> 'n tok list \<Rightarrow> bool" where
  "inert C ts \<longleftrightarrow> (\<forall>m. Id m \<in> set ts \<longrightarrow> lookup C m = None)"

lemma scan_inert: "inert C ts \<Longrightarrow> scan C D (map T ts @ map End ms) = Some ts"
proof (induction ts)
  case (Cons t ts)
  then have "invocation C D t (map T ts @ map End ms) = Copy t"
    by (auto simp: invocation_def inert_def split: tok.splits)
  then show ?case using Cons by (simp add: inert_def)
qed simp

text \<open>Balanced arguments of a macro that is only variadic are collected whole.\<close>

fun depth :: "nat \<Rightarrow> 'n tok list \<Rightarrow> nat option" where
  "depth d [] = Some d"
| "depth d (t # ts) = (if t = LP then depth (Suc d) ts
     else if t = RP then (if d = 0 then None else depth (d - 1) ts) else depth d ts)"

lemma depth_append: "depth d (xs @ ys) = Option.bind (depth d xs) (\<lambda>d'. depth d' ys)"
  by (induction xs arbitrary: d) simp_all

lemma depth_shift: "depth d xs = Some d' \<Longrightarrow> depth (d + k) xs = Some (d' + k)"
proof (induction xs arbitrary: d)
  case (Cons t ts)
  show ?case using Cons.prems Cons.IH [of "Suc d"] Cons.IH [of "d - 1"] Cons.IH [of d] by (cases d) (auto split: if_splits)
qed simp

lemma collect_balanced:
  "depth d xs = Some d' \<Longrightarrow> collect d (Some 0) cur acc (map T xs @ s) = collect d' (Some 0) (cur @ xs) acc s"
proof (induction xs arbitrary: d cur)
  case (Cons t ts)
  show ?case using Cons.prems by (cases "t = LP \<or> t = RP"; cases d) (auto simp: Cons.IH split: if_splits)
qed simp

end
