(* ===== verification/Chain_Macros.thy ===== *)
theory Chain_Macros
  imports Chain Cpp_Preprocessor
begin

text \<open>
  The macros of \<^verbatim>\<open>app/chain/generic_macros.hpp\<close> and the macro \<open>GET_COWN\<close> of \<^verbatim>\<open>macros.hpp\<close>, and what the
  preprocessor makes of the line \<open>EVAL(REPEAT(n, GET_COWN, ~))\<close> with which every arm of the switch over
  \<open>num_writes\<close> begins.
\<close>

section \<open>Identifiers\<close>

text \<open>
  The identifiers that are built by pasting are a stem and a number, as \<open>DEC_7\<close>; those that are no
  macros and not pasted are plain text.
\<close>

datatype stem = S_COMPL | S_BITAND | S_INC | S_DEC | S_NOT | S_IIF | S_COMPARE | S_r

datatype ident =
    M_CAT | M_PRIMITIVE_CAT | M_COMPL | M_BITAND | M_INC | M_DEC | M_CHECK_N | M_CHECK | M_PROBE
  | M_IS_PAREN | M_IS_PAREN_PROBE | M_NOT | M_BOOL | M_IIF | M_IF | M_EAT | M_EXPAND | M_WHEN
  | M_EMPTY | M_DEFER | M_OBSTRUCT | M_EVAL nat | M_REPEAT | M_REPEAT_INDIRECT | M_WHILE | M_WHILE_INDIRECT
  | M_PRIMITIVE_COMPARE | M_IS_COMPARABLE | M_NOT_EQUAL | M_EQUAL | M_COMMA | M_COMMA_IF | M_GET_COWN
  | Stem stem | Numbered stem nat

abbreviation bi :: "ident \<Rightarrow> ident bitem" where "bi m \<equiv> BT (Id m)"
abbreviation bl :: "ident bitem" where "bl \<equiv> BT LP"
abbreviation br :: "ident bitem" where "br \<equiv> BT RP"
abbreviation bc :: "ident bitem" where "bc \<equiv> BT Comma"
abbreviation tilde :: "ident tok" where "tilde \<equiv> Txt ''~''"

section \<open>The macro table\<close>

text \<open>Macros with a number in their name.\<close>

definition numbered_macro :: "stem \<Rightarrow> nat \<Rightarrow> ident macro option" where
  "numbered_macro st n = (case st of
     S_COMPL \<Rightarrow> if n = 0 then Some (Obj [BT (Num 1)]) else if n = 1 then Some (Obj [BT (Num 0)]) else None
   | S_BITAND \<Rightarrow> if n = 0 then Some (Func 1 False [BT (Num 0)]) else if n = 1 then Some (Func 1 False [BP 0]) else None
   | S_INC \<Rightarrow> if n < 9 then Some (Obj [BT (Num (n + 1))]) else if n = 9 then Some (Obj [BT (Num 9)]) else None
   | S_DEC \<Rightarrow> if n \<le> 40 then Some (Obj [BT (Num (n - 1))]) else None
   | S_NOT \<Rightarrow> if n = 0 then Some (Obj [bi M_PROBE, bl, BT tilde, br]) else None
   | S_IIF \<Rightarrow> if n = 0 then Some (Func 1 True [BP 1]) else if n = 1 then Some (Func 1 True [BP 0]) else None
   | _ \<Rightarrow> None)"

text \<open>\<open>PRIMITIVE_CAT(st, x)\<close>, the body of most of the arithmetic.\<close>

definition cat_body :: "stem \<Rightarrow> ident macro option" where
  "cat_body st = Some (Func 1 False [bi M_PRIMITIVE_CAT, bl, bi (Stem st), bc, BP 0, br])"

text \<open>\<open>EVAL\<close> is \<open>M_EVAL 0\<close>, \<open>EVAL5\<close> is \<open>M_EVAL 5\<close>.\<close>

definition eval_body :: "nat \<Rightarrow> ident bitem list" where
  "eval_body k = (if k = 5 then [BP 0]
     else [bi (M_EVAL (Suc k)), bl, bi (M_EVAL (Suc k)), bl, bi (M_EVAL (Suc k)), bl, BP 0, br, br, br])"

text \<open>\<open>REPEAT(count, macro, ...)\<close>\<close>

definition repeat_body :: "ident bitem list" where
  "repeat_body =
     [bi M_WHEN, bl, BP 0, br, bl,
        bi M_OBSTRUCT, bl, bi M_REPEAT_INDIRECT, br, bl, br,
          bl, bi M_DEC, bl, BP 0, br, bc, BP 1, bc, BP 2, br,
        bi M_OBSTRUCT, bl, BP 1, br,
          bl, bi M_DEC, bl, BP 0, br, bc, BP 2, br,
      br]"

definition while_body :: "ident bitem list" where
  "while_body =
     [bi M_IF, bl, BP 0, bl, BP 2, br, br, bl,
        bi M_OBSTRUCT, bl, bi M_WHILE_INDIRECT, br, bl, br,
          bl, BP 0, bc, BP 1, bc, BP 1, bl, BP 2, br, br,
        bc, BP 2, br]"

text \<open>\<open>cown_ptr<Resource> r##i = get_cown_ptr_from_addr<Resource>(reinterpret_cast<void*>(txm->cown_ptrs[i]));\<close>\<close>

definition get_cown_body :: "ident bitem list" where
  "get_cown_body =
     [BT (Txt ''cown_ptr<Resource>''), bi (Stem S_r), BPaste, BP 0, BT (Txt ''=''),
      BT (Txt ''get_cown_ptr_from_addr<Resource>''), bl, BT (Txt ''reinterpret_cast<void*>''), bl,
      BT (Txt ''txm->cown_ptrs[''), BP 0, BT (Txt '']''), br, br, BT (Txt '';'')]"

definition compare_body :: "ident bitem list" where
  "compare_body =
     [bi M_IS_PAREN, bl, bi (Stem S_COMPARE), BPaste, BP 0, bl, bi (Stem S_COMPARE), BPaste, BP 1, br, bl, bl, br, br, br]"

definition not_equal_body :: "ident bitem list" where
  "not_equal_body =
     [bi M_IIF, bl, bi M_BITAND, bl, bi M_IS_COMPARABLE, bl, BP 0, br, br, bl, bi M_IS_COMPARABLE, bl, BP 1, br, br, br,
      bl, bi M_PRIMITIVE_COMPARE, bc, BT (Num 1), bi M_EAT, br, bl, BP 0, bc, BP 1, br]"

fun chain_macro :: "ident \<Rightarrow> ident macro option" where
  "chain_macro M_CAT = Some (Func 1 True [bi M_PRIMITIVE_CAT, bl, BP 0, bc, BP 1, br])"
| "chain_macro M_PRIMITIVE_CAT = Some (Func 1 True [BP 0, BPaste, BP 1])"
| "chain_macro M_COMPL = cat_body S_COMPL"
| "chain_macro M_BITAND = cat_body S_BITAND"
| "chain_macro M_INC = cat_body S_INC"
| "chain_macro M_DEC = cat_body S_DEC"
| "chain_macro M_CHECK_N = Some (Func 2 True [BP 1])"
| "chain_macro M_CHECK = Some (Func 0 True [bi M_CHECK_N, bl, BP 0, bc, BT (Num 0), bc, br])"
| "chain_macro M_PROBE = Some (Func 1 False [BP 0, bc, BT (Num 1), bc])"
| "chain_macro M_IS_PAREN = Some (Func 1 False [bi M_CHECK, bl, bi M_IS_PAREN_PROBE, BP 0, br])"
| "chain_macro M_IS_PAREN_PROBE = Some (Func 0 True [bi M_PROBE, bl, BT tilde, br])"
| "chain_macro M_NOT = Some (Func 1 False [bi M_CHECK, bl, bi M_PRIMITIVE_CAT, bl, bi (Stem S_NOT), bc, BP 0, br, br])"
| "chain_macro M_BOOL = Some (Func 1 False [bi M_COMPL, bl, bi M_NOT, bl, BP 0, br, br])"
| "chain_macro M_IIF = cat_body S_IIF"
| "chain_macro M_IF = Some (Func 1 False [bi M_IIF, bl, bi M_BOOL, bl, BP 0, br, br])"
| "chain_macro M_EAT = Some (Func 0 True [])"
| "chain_macro M_EXPAND = Some (Func 0 True [BP 0])"
| "chain_macro M_WHEN = Some (Func 1 False [bi M_IF, bl, BP 0, br, bl, bi M_EXPAND, bc, bi M_EAT, br])"
| "chain_macro M_EMPTY = Some (Func 0 False [])"
| "chain_macro M_DEFER = Some (Func 1 False [BP 0, bi M_EMPTY, bl, br])"
| "chain_macro M_OBSTRUCT = Some (Func 1 False [BP 0, bi M_DEFER, bl, bi M_EMPTY, br, bl, br])"
| "chain_macro (M_EVAL k) = (if k \<le> 5 then Some (Func 0 True (eval_body k)) else None)"
| "chain_macro M_REPEAT = Some (Func 2 True repeat_body)"
| "chain_macro M_REPEAT_INDIRECT = Some (Func 0 False [bi M_REPEAT])"
| "chain_macro M_WHILE = Some (Func 2 True while_body)"
| "chain_macro M_WHILE_INDIRECT = Some (Func 0 False [bi M_WHILE])"
| "chain_macro M_PRIMITIVE_COMPARE = Some (Func 2 False compare_body)"
| "chain_macro M_IS_COMPARABLE =
     Some (Func 1 False [bi M_IS_PAREN, bl, bi M_CAT, bl, bi (Stem S_COMPARE), bc, BP 0, br, bl, bl, br, br, br])"
| "chain_macro M_NOT_EQUAL = Some (Func 2 False not_equal_body)"
| "chain_macro M_EQUAL = Some (Func 2 False [bi M_COMPL, bl, bi M_NOT_EQUAL, bl, BP 0, bc, BP 1, br, br])"
| "chain_macro M_COMMA = Some (Func 0 False [bc])"
| "chain_macro M_COMMA_IF = Some (Func 1 False [bi M_IF, bl, BP 0, br, bl, bi M_COMMA, bc, bi M_EAT, br, bl, br])"
| "chain_macro M_GET_COWN = Some (Func 2 False get_cown_body)"
| "chain_macro (Stem st) = None"
| "chain_macro (Numbered st n) = numbered_macro st n"

fun chain_paste :: "ident tok \<Rightarrow> ident tok \<Rightarrow> ident tok option" where
  "chain_paste (Id (Stem st)) (Num n) = Some (Id (Numbered st n))"
| "chain_paste _ _ = None"

definition chain_cpp :: "ident cpp" where
  "chain_cpp = \<lparr>lookup = chain_macro, paste = chain_paste\<rparr>"

section \<open>One scan\<close>

named_theorems macro_simps \<open>the macro table and the steps of the preprocessor\<close>

lemmas [macro_simps] = chain_cpp_def invocation_def glue_def arg_at_def actuals_def cat_body_def numbered_macro_def

definition decl :: "nat \<Rightarrow> ident tok list" where
  "decl i = [Txt ''cown_ptr<Resource>'', Id (Numbered S_r i), Txt ''='', Txt ''get_cown_ptr_from_addr<Resource>'', LP,
     Txt ''reinterpret_cast<void*>'', LP, Txt ''txm->cown_ptrs['', Num i, Txt '']'', RP, RP, Txt '';'']"

definition repeat_call :: "nat \<Rightarrow> ident tok list" where
  "repeat_call n = [Id M_REPEAT, LP, Num n, Comma, Id M_GET_COWN, Comma, tilde, RP]"

definition repeat_left :: "nat \<Rightarrow> ident tok list" where
  "repeat_left k = [Id M_REPEAT_INDIRECT, LP, RP, LP, Num k, Comma, Id M_GET_COWN, Comma, tilde, RP,
     Id M_GET_COWN, LP, Num k, Comma, tilde, RP]"

text \<open>The macros that may be disabled around a scan: \<open>EVAL\<close> to \<open>EVAL5\<close>.\<close>

definition only_eval :: "ident list \<Rightarrow> bool" where
  "only_eval D \<longleftrightarrow> (\<forall>m\<in>set D. \<exists>k. m = M_EVAL k)"

lemma only_evalD: "only_eval D \<Longrightarrow> \<forall>k. m \<noteq> M_EVAL k \<Longrightarrow> m \<notin> set D"
  by (auto simp: only_eval_def)

lemma scan_call_nonzero:
  assumes "only_eval D" "only_eval es" "0 < n" "n \<le> 40"
  shows "scan chain_cpp D (map T (repeat_call n) @ map End es) = Some (repeat_left (n - 1))"
  using assms by (simp add: macro_simps repeat_call_def repeat_left_def repeat_body_def only_evalD)

lemma scan_call_zero:
  assumes "only_eval D" "only_eval es"
  shows "scan chain_cpp D (map T (repeat_call 0) @ map End es) = Some []"
  using assms by (simp add: macro_simps repeat_call_def repeat_body_def only_evalD)

lemma scan_left_nonzero:
  assumes "only_eval D" "only_eval es" "0 < k" "k \<le> 40" "inert chain_cpp X"
  shows "scan chain_cpp D (map T (repeat_left k) @ map T X @ map End es) = Some (repeat_left (k - 1) @ decl k @ X)"
  using assms scan_inert [OF assms(5), unfolded chain_cpp_def]
  by (simp add: macro_simps repeat_left_def repeat_body_def get_cown_body_def decl_def only_evalD)

lemma scan_left_zero:
  assumes "only_eval D" "only_eval es" "inert chain_cpp X"
  shows "scan chain_cpp D (map T (repeat_left 0) @ map T X @ map End es) = Some (decl 0 @ X)"
  using assms scan_inert [OF assms(3), unfolded chain_cpp_def]
  by (simp add: macro_simps repeat_left_def repeat_body_def get_cown_body_def decl_def only_evalD)

section \<open>Repeated scans\<close>

definition decls :: "nat \<Rightarrow> nat \<Rightarrow> ident tok list" where
  "decls i n = concat (map decl [i..<n])"

text \<open>The source after \<open>i\<close> scans.\<close>

fun stage :: "nat \<Rightarrow> nat \<Rightarrow> ident tok list" where
  "stage n 0 = repeat_call n"
| "stage n (Suc i) = (if i < n then repeat_left (n - 1 - i) @ decls (n - i) n else decls 0 n)"

lemma decls_Cons: "i < n \<Longrightarrow> decls i n = decl i @ decls (Suc i) n"
  by (simp add: decls_def upt_conv_Cons)

lemma decls_inert: "inert chain_cpp (decls i n)"
  by (auto simp: inert_def decls_def decl_def chain_cpp_def numbered_macro_def)

lemma scan_stage:
  assumes "n \<le> 40" and "only_eval D" and "only_eval es"
  shows "scan chain_cpp D (map T (stage n i) @ map End es) = Some (stage n (Suc i))"
proof -
  note inert = scan_inert [OF decls_inert]
  consider "i = 0" | j where "i = Suc j" "Suc j < n" | j where "i = Suc j" "Suc j = n" | j where "i = Suc j" "n < Suc j"
    by (metis linorder_neqE_nat not0_implies_Suc)
  then show ?thesis
  proof cases
    case 1
    then show ?thesis using scan_call_nonzero [OF assms(2,3), of n] scan_call_zero [OF assms(2,3)] assms(1)
      by (cases "n = 0") (simp_all add: decls_def)
  next
    case (2 j)
    then have k: "n - 1 - j = Suc (n - 2 - j)" "n - j = Suc (n - 1 - j)" by auto
    then show ?thesis using 2 assms(1) scan_left_nonzero [OF assms(2,3) _ _ decls_inert, of "n - 1 - j" "n - j" n]
        decls_Cons [of "n - 1 - j" n] by (simp add: numeral_2_eq_2)
  next
    case (3 j)
    then have "stage n i = repeat_left 0 @ decls 1 n" "stage n (Suc i) = decls 0 n" by auto
    then show ?thesis using 3 scan_left_zero [OF assms(2,3) decls_inert, of 1 n] decls_Cons [of 0 n] by simp
  next
    case (4 j)
    then show ?thesis using inert by simp
  qed
qed

lemma decl_depth [simp]: "depth d (decl i) = Some d"
  by (simp add: decl_def)

lemma decls_depth [simp]: "depth d (decls i n) = Some d"
proof -
  have "depth d (concat (map decl is)) = Some d" for "is" by (induction "is") (simp_all add: depth_append)
  then show ?thesis by (simp add: decls_def)
qed

lemma stage_depth: "depth 0 (stage n i) = Some 0"
  by (cases i) (simp_all add: repeat_call_def repeat_left_def depth_append)

section \<open>EVAL\<close>

definition wrap :: "nat \<Rightarrow> ident tok list \<Rightarrow> ident tok list" where
  "wrap k A = [Id (M_EVAL k), LP] @ A @ [RP]"

definition below :: "nat \<Rightarrow> ident list \<Rightarrow> bool" where
  "below k D \<longleftrightarrow> (\<forall>m\<in>set D. \<exists>j<k. m = M_EVAL j)"

text \<open>\<open>A\<close> is what a scan turns into the source after \<open>i\<close> scans, when at most the outer \<open>EVAL\<close>s are disabled.\<close>

definition reaches :: "nat \<Rightarrow> nat \<Rightarrow> ident tok list \<Rightarrow> nat \<Rightarrow> bool" where
  "reaches n k A i \<longleftrightarrow> depth 0 A = Some 0 \<and>
     (\<forall>D es. below k D \<longrightarrow> below k es \<longrightarrow> scan chain_cpp D (map T A @ map End es) = Some (stage n i))"

lemma reaches_stage: "n \<le> 40 \<Longrightarrow> reaches n k (stage n i) (Suc i)"
proof -
  assume "n \<le> 40"
  moreover have "only_eval D" if "below k D" for D using that by (auto simp: below_def only_eval_def)
  ultimately show ?thesis unfolding reaches_def using scan_stage stage_depth by blast
qed

lemma wrap_depth: "depth 0 A = Some 0 \<Longrightarrow> depth 0 (wrap k A) = Some 0"
  using depth_shift [of 0 A 0 1] by (simp add: wrap_def depth_append)

text \<open>A call of an \<open>EVAL\<close>: the argument is scanned, then its copy in the body.\<close>

lemma scan_wrap:
  assumes A: "reaches n k A i" and k: "k \<le> 5" and D: "below k D" and es: "below k es"
  shows "scan chain_cpp D (map T (wrap k A) @ map End es) =
    scan chain_cpp D (map T (if k = 5 then stage n i else wrap (Suc k) (wrap (Suc k) (wrap (Suc k) (stage n i)))) @
      map End (M_EVAL k # es))"
proof -
  have "below k (D @ es)" using D es by (auto simp: below_def)
  then have arg: "scan chain_cpp (D @ es) (map T A) = Some (stage n i)"
    using A unfolding reaches_def below_def by (metis append_Nil2 empty_iff list.simps(8) set_empty)
  have "collect 0 (Some 0) [] [] (map T A @ T RP # map End es) = Some ([A], map End es)"
    using collect_balanced [of 0 A 0 "[]" "[]" "T RP # map End es"] A by (simp add: reaches_def)
  moreover have "M_EVAL k \<notin> set D" "M_EVAL k \<notin> set es" using D es by (auto simp: below_def)
  ultimately have "invocation chain_cpp D (Id (M_EVAL k)) (T LP # map T A @ T RP # map End es) =
      Call (M_EVAL k) (eval_body k) [A] (map End es)"
    using k by (simp add: invocation_def chain_cpp_def actuals_def)
  moreover have "subst chain_cpp [A] [stage n i] (eval_body k) =
      Some (if k = 5 then stage n i else wrap (Suc k) (wrap (Suc k) (wrap (Suc k) (stage n i))))"
    by (simp add: eval_body_def arg_at_def wrap_def)
  ultimately show ?thesis using arg by (simp add: wrap_def)
qed

text \<open>The number of scans an \<open>EVAL\<close> adds to those of its argument.\<close>

fun rescans :: "nat \<Rightarrow> nat" where
  "rescans 0 = 1"
| "rescans (Suc j) = 1 + 3 * rescans j"

lemma reaches_wrap:
  assumes n: "n \<le> 40"
  shows "j \<le> 5 \<Longrightarrow> reaches n (5 - j) A i \<Longrightarrow> reaches n (5 - j) (wrap (5 - j) A) (i + rescans j)"
proof (induction j arbitrary: A i)
  case 0
  have "scan chain_cpp D (map T (wrap 5 A) @ map End es) = Some (stage n (Suc i))" if "below 5 D" "below 5 es" for D es
  proof -
    have "below 6 D" "below 6 (M_EVAL 5 # es)" using that by (auto simp: below_def less_Suc_eq numeral_eq_Suc)
    then have "scan chain_cpp D (map T (stage n i) @ map End (M_EVAL 5 # es)) = Some (stage n (Suc i))"
      using reaches_stage [OF n, of 6 i] unfolding reaches_def by blast
    then show ?thesis using scan_wrap [of n 5 A i D es] 0 that by simp
  qed
  then show ?case using 0 wrap_depth by (auto simp: reaches_def)
next
  case (Suc j)
  let ?k = "5 - Suc j" and ?A = "wrap (5 - j) (wrap (5 - j) (wrap (5 - j) (stage n i)))"
  have k: "Suc ?k = 5 - j" "?k \<noteq> 5" using Suc.prems by auto
  have inner: "reaches n (5 - j) ?A (Suc i + rescans j + rescans j + rescans j)"
    using Suc.prems(1) by (intro Suc.IH reaches_stage [OF n]) auto
  have "scan chain_cpp D (map T (wrap ?k A) @ map End es) = Some (stage n (i + rescans (Suc j)))"
    if "below ?k D" "below ?k es" for D es
  proof -
    have b: "below (5 - j) D" "below (5 - j) (M_EVAL ?k # es)" using that unfolding k(1) [symmetric] by (auto simp: below_def less_Suc_eq)
    have sum: "Suc i + rescans j + rescans j + rescans j = i + rescans (Suc j)" by simp
    have "scan chain_cpp D (map T ?A @ map End (M_EVAL ?k # es)) = Some (stage n (i + rescans (Suc j)))"
      using inner b unfolding reaches_def sum by blast
    moreover have "?k \<le> 5" by simp
    ultimately show ?thesis using scan_wrap [OF Suc.prems(2) _ that] unfolding if_not_P [OF k(2)] k(1) by simp
  qed
  then show ?case using Suc.prems(2) wrap_depth by (auto simp: reaches_def)
qed

text \<open>\<open>EVAL(REPEAT(n, GET_COWN, ~))\<close> is the declarations of \<open>r0\<close> to \<open>r\<close>\<^emph>\<open>n-1\<close>, for \<open>n\<close> up to the last \<open>DEC_\<close> macro.\<close>

lemma eval_repeat:
  assumes "n \<le> 40"
  shows "scan chain_cpp [] (map T (wrap 0 (repeat_call n))) = Some (decls 0 n)"
proof -
  have "reaches n 0 (stage n 0) 1" using reaches_stage [OF assms, of 0 0] by simp
  then have "reaches n 0 (wrap 0 (stage n 0)) (1 + rescans 5)"
    using reaches_wrap [OF assms, of 5 "stage n 0" 1] by simp
  moreover have "rescans 5 = 364" by (simp add: numeral_eq_Suc)
  moreover have "stage n (Suc 364) = decls 0 n" using assms by (simp only: stage.simps) simp
  ultimately have "scan chain_cpp [] (map T (wrap 0 (stage n 0)) @ map End []) = Some (decls 0 n)"
    unfolding reaches_def below_def by (metis Suc_eq_plus1_left empty_iff set_empty)
  then show ?thesis by simp
qed

section \<open>The other macros\<close>

text \<open>What a line of source with these tokens expands to.\<close>

definition expands :: "ident tok list \<Rightarrow> ident tok list \<Rightarrow> bool" where
  "expands ts out \<longleftrightarrow> scan chain_cpp [] (map T ts) = Some out"

abbreviation app :: "ident \<Rightarrow> ident tok list \<Rightarrow> ident tok list" where
  "app m ts \<equiv> Id m # LP # ts @ [RP]"

lemma logic_macros:
  "expands (app M_NOT [Num n]) [Num (if n = 0 then 1 else 0)]"
  "expands (app M_BOOL [Num n]) [Num (if n = 0 then 0 else 1)]"
  "expands (app M_IF [Num n] @ [LP, Txt t, Comma, Txt e, RP]) [Txt (if n = 0 then e else t)]"
  "expands (app M_WHEN [Num n] @ [LP, Txt t, RP]) (if n = 0 then [] else [Txt t])"
  "expands (app M_COMMA_IF [Num n]) (if n = 0 then [] else [Comma])"
  by (cases "n = 0"; simp add: expands_def macro_simps)+

lemma bit_macros:
  "b \<le> 1 \<Longrightarrow> expands (app M_COMPL [Num b]) [Num (1 - b)]"
  "b \<le> 1 \<Longrightarrow> expands (app M_BITAND [Num b] @ [LP, Num c, RP]) [Num (if b = 0 then 0 else c)]"
  by (cases "b = 0"; simp add: expands_def macro_simps)+

text \<open>\<open>INC\<close> stops at 9, \<open>DEC\<close> at 0; outside of their tables both leave a name that is no macro.\<close>

lemma counting_macros:
  "n \<le> 9 \<Longrightarrow> expands (app M_INC [Num n]) [Num (min 9 (n + 1))]"
  "n \<le> 40 \<Longrightarrow> expands (app M_DEC [Num n]) [Num (n - 1)]"
  "9 < n \<Longrightarrow> expands (app M_INC [Num n]) [Id (Numbered S_INC n)]"
  "40 < n \<Longrightarrow> expands (app M_DEC [Num n]) [Id (Numbered S_DEC n)]"
  by (simp_all add: expands_def macro_simps min_def)

lemma paren_macros:
  "expands (app M_IS_PAREN [LP, Txt t, RP]) [Num 1]"
  "expands (app M_IS_PAREN [Txt t]) [Num 0]"
  by (simp_all add: expands_def macro_simps)

text \<open>No \<open>COMPARE_\<close> macro is defined, so that all numbers compare as different, also a number and itself.\<close>

lemma equal_macro: "expands (app M_EQUAL [Num a, Comma, Num b]) [Num 0]"
  by (simp add: expands_def macro_simps not_equal_body_def)

section \<open>Properties\<close>

text \<open>
  C34. The thirty-eight arms of the switch over \<open>num_writes\<close>.  For every value from 1 to 38 there is an arm, for other
  values none; and what the preprocessor makes of its first line, \<open>EVAL(REPEAT(num_writes, GET_COWN, ~))\<close>,
  is the declarations of exactly the cown pointers that the arm's \<open>when\<close> names, in the same order, the
  \<open>i\<close>-th from \<open>cown_ptrs[i]\<close>.
\<close>

theorem mixed_arms_expand:
  "case mixed_switch num_writes of
     None \<Rightarrow> num_writes \<notin> {1..38}
   | Some (n, ws) \<Rightarrow> num_writes \<in> {1..38} \<and> n = num_writes \<and> ws = [0..<num_writes] \<and>
       scan chain_cpp [] (map T (wrap 0 (repeat_call n))) = Some (concat (map decl ws))"
  using eval_repeat [of num_writes] by (simp add: mixed_switch_eq decls_def)

end
