(* ===== verification/Warm_Up.thy ===== *)
theory Warm_Up
  imports Behaviours
begin

text \<open>
  What a stage does before its loop: its thread is pinned to a core (\<^verbatim>\<open>doradd/pin-thread.hpp\<close>) and, in the
  spawner and the unpipelined dispatcher, ten empty behaviours over one cown of their own are spawned
  to warm up the workers (\<^verbatim>\<open>doradd/warmup.hpp\<close>).  The latter are shown not to change what the runtime may do
  with the transactions.
\<close>

section \<open>Pinning\<close>

text \<open>\<open>CPU_SET\<close> on an empty set; the macro ignores numbers of \<open>CPU_SETSIZE\<close> and more.\<close>

definition cpu_set :: "nat \<Rightarrow> nat set" where
  "cpu_set cpu = (if cpu < 1024 then {cpu} else {})"

text \<open>
  \<open>setaffinity\<close> is the result of \<open>pthread_setaffinity_np\<close> on a set of cores.  The result of pinning is the set
  asked for, \<open>None\<close> if nothing is done.
\<close>

definition pin_thread :: "(nat set \<Rightarrow> int) \<Rightarrow> int \<Rightarrow> nat set option result" where
  "pin_thread setaffinity cpu =
     (if cpu < 0 then Inr None
      else if setaffinity (cpu_set (nat cpu)) = - 1 then Inl ExitFailure
      else Inr (Some (cpu_set (nat cpu))))"

text \<open>
  The function of the library returns 0 or the number of an error, which is positive: the program never ends
  here, also when the thread could not be pinned.
\<close>

lemma pin_thread_unchecked:
  assumes "\<And>S. 0 \<le> setaffinity S" and "0 \<le> cpu" and "cpu < 1024"
  shows "pin_thread setaffinity cpu = Inr (Some {nat cpu})"
proof -
  have "setaffinity {nat cpu} \<noteq> - 1" using assms(1) [of "{nat cpu}"] by linarith
  then show ?thesis using assms(2,3) by (simp add: pin_thread_def cpu_set_def)
qed

section \<open>Warm-up\<close>

text \<open>The behaviours of a run: the empty ones, by number, and the transactions.\<close>

datatype 'b job = Warm nat | Txn (the_txn: 'b)

definition prepare_run :: "'b job list" where
  "prepare_run = map Warm [0..<10]"

text \<open>The empty behaviours share a cown, and share none with the transactions.\<close>

fun job_conflict :: "('b \<Rightarrow> 'b \<Rightarrow> bool) \<Rightarrow> 'b job \<Rightarrow> 'b job \<Rightarrow> bool" where
  "job_conflict conflict (Warm i) (Warm j) \<longleftrightarrow> True"
| "job_conflict conflict (Txn x) (Txn y) \<longleftrightarrow> conflict x y"
| "job_conflict conflict _ _ \<longleftrightarrow> False"

fun job_run :: "('b \<Rightarrow> 's \<Rightarrow> 's) \<Rightarrow> 'b job \<Rightarrow> 's \<Rightarrow> 's" where
  "job_run run (Warm i) s = s"
| "job_run run (Txn b) s = run b s"

fun txns :: "'b job list \<Rightarrow> 'b list" where
  "txns [] = []"
| "txns (Warm i # js) = txns js"
| "txns (Txn b # js) = b # txns js"

lemma txns_append [simp]: "txns (xs @ ys) = txns xs @ txns ys"
  by (induction xs rule: txns.induct) simp_all

lemma txns_map [simp]: "txns (map Txn bs) = bs" "txns (map Warm ns) = []"
  by (induction bs, simp_all) (induction ns, simp_all)

lemma set_txns: "x \<in> set (txns js) \<longleftrightarrow> Txn x \<in> set js"
  by (induction js rule: txns.induct) auto

lemma fold_txns: "fold (job_run run) js s = fold run (txns js) s"
  by (induction js arbitrary: s rule: txns.induct) simp_all

lemma boc_order_txns: "boc_order (job_conflict conflict) js ord \<Longrightarrow> boc_order conflict (txns js) (txns ord)"
proof (induction rule: boc_order.induct)
  case (boc_pick xs b ys ord)
  show ?case
  proof (cases b)
    case (Txn x)
    have "\<forall>y\<in>set (txns xs). \<not> conflict y x" using boc_pick.hyps(1) by (fastforce simp: Txn set_txns)
    then show ?thesis using boc_pick.IH boc_order.boc_pick [of "txns xs" conflict x "txns ys" "txns ord"] by (simp add: Txn)
  qed (use boc_pick.IH in simp)
qed (simp add: boc_done)

text \<open>
  A run with the warm-up in front: the transactions complete in an order that is allowed without it, with
  the same effect, and the empty behaviours complete in the order they were spawned.
\<close>

fun warms :: "'b job list \<Rightarrow> nat list" where
  "warms [] = []"
| "warms (Warm i # js) = i # warms js"
| "warms (Txn b # js) = warms js"

lemma warms_append [simp]: "warms (xs @ ys) = warms xs @ warms ys"
  by (induction xs rule: warms.induct) simp_all

lemma warms_map [simp]: "warms (map Txn bs) = []" "warms (map Warm ns) = ns"
  by (induction bs, simp_all) (induction ns, simp_all)

lemma no_warms: "(\<And>i. Warm i \<notin> set js) \<Longrightarrow> warms js = []"
  by (induction js rule: warms.induct) auto

lemma boc_order_warms: "boc_order (job_conflict conflict) js ord \<Longrightarrow> warms ord = warms js"
proof (induction rule: boc_order.induct)
  case (boc_pick xs b ys ord)
  show ?case
  proof (cases b)
    case (Warm i)
    have "Warm j \<notin> set xs" for j using boc_pick.hyps(1) by (auto simp: Warm)
    then show ?thesis using boc_pick.IH no_warms [of xs] by (simp add: Warm)
  qed (use boc_pick.IH in simp)
qed simp

lemma warmed_up_run:
  assumes "boc_order (job_conflict conflict) (prepare_run @ map Txn bs) ord"
  shows "boc_order conflict bs (txns ord)" and "fold (job_run run) ord s = fold run (txns ord) s" and "warms ord = [0..<10]"
  using boc_order_txns [OF assms] boc_order_warms [OF assms] by (simp_all add: prepare_run_def fold_txns)

end
