(* ===== verification/Arr_Seq.thy ===== *)
theory Arr_Seq
  imports Prelude
begin

text \<open>
  The benchmark of a loop over two arrays, \<^verbatim>\<open>app/prefetch/arr_seq/arr_seq.cpp\<close>.  \<open>add\<close> is the addition of floats; the
  number of iterations is the choice of the benchmark library.  With \<open>PREFETCH\<close> the loop also forms references to elements
  \<open>PD\<close> places ahead.
\<close>

definition arr_step :: "bool \<Rightarrow> nat \<Rightarrow> ('f \<Rightarrow> 'f \<Rightarrow> 'f) \<Rightarrow> 'f list \<Rightarrow> nat \<Rightarrow> 'f list \<Rightarrow> 'f list result" where
  "arr_step prefetch PD add b i a =
     (if prefetch \<and> (length a \<le> i + PD \<or> length b \<le> i + PD) then Inl OutOfBounds
      else rbind (vec_at a i) (\<lambda>x. rbind (vec_at b i) (\<lambda>y. vec_put i (add x y) a)))"

definition arr_pass :: "bool \<Rightarrow> nat \<Rightarrow> ('f \<Rightarrow> 'f \<Rightarrow> 'f) \<Rightarrow> 'f list \<Rightarrow> 'f list \<Rightarrow> 'f list result" where
  "arr_pass prefetch PD add b a = rfold (arr_step prefetch PD add b) [0..<length a] a"

definition measurePrefetchThroughput :: "bool \<Rightarrow> nat \<Rightarrow> ('f \<Rightarrow> 'f \<Rightarrow> 'f) \<Rightarrow> nat \<Rightarrow> 'f list \<Rightarrow> 'f list \<Rightarrow> 'f list result" where
  "measurePrefetchThroughput prefetch PD add iterations b a = rfold (\<lambda>_. arr_pass prefetch PD add b) [0..<iterations] a"

text \<open>Both loops run over the same state: \<open>iterations\<close> has, for each pass of the outer one, those of the inner one.\<close>

definition BM_PrefetchThroughput :: "bool \<Rightarrow> 'f \<Rightarrow> ('f \<Rightarrow> 'f \<Rightarrow> 'f) \<Rightarrow> nat \<Rightarrow> nat \<Rightarrow> nat list \<Rightarrow> 'f list result" where
  "BM_PrefetchThroughput prefetch zero add ArraySize PD iterations =
     rfold (\<lambda>k. measurePrefetchThroughput prefetch PD add k (replicate ArraySize zero)) iterations (replicate ArraySize zero)"

text \<open>Without prefetching a pass adds the arrays element by element.\<close>

lemma arr_pass_adds:
  assumes "length b = length a"
  shows "arr_pass False PD add b a = Inr (map2 add a b)"
proof -
  have "\<exists>s'. rfold (arr_step False PD add b) [0..<length a] a = Inr s' \<and>
      (length s' = length a \<and> (\<forall>j<length a. s' ! j = (if j < length a then add (a ! j) (b ! j) else a ! j)))"
    by (rule rfold_upt_total [where P = "\<lambda>i s. length s = length a \<and>
        (\<forall>j<length a. s ! j = (if j < i then add (a ! j) (b ! j) else a ! j))"])
      (auto simp: arr_step_def vec_at_def vec_put_def assms nth_list_update)
  then obtain s where s: "rfold (arr_step False PD add b) [0..<length a] a = Inr s" "length s = length a"
    "\<And>j. j < length a \<Longrightarrow> s ! j = add (a ! j) (b ! j)" by auto
  have "s = map2 add a b" by (rule nth_equalityI) (simp_all add: s assms)
  with s(1) show ?thesis by (simp add: arr_pass_def)
qed

text \<open>The benchmark keeps the number of elements, and sums of zeros are zeros.\<close>

lemma BM_PrefetchThroughput_zeros:
  assumes "add zero zero = zero"
  shows "BM_PrefetchThroughput False zero add n PD iterations = Inr (replicate n zero)"
proof -
  have one: "arr_pass False PD add (replicate n zero) (replicate n zero) = Inr (replicate n zero)"
    by (simp add: arr_pass_adds zip_replicate assms)
  have "rfold (\<lambda>_ :: nat. arr_pass False PD add (replicate n zero)) is (replicate n zero) = Inr (replicate n zero)" for "is"
    by (induction "is") (simp_all add: one)
  then have "measurePrefetchThroughput False PD add k (replicate n zero) (replicate n zero) = Inr (replicate n zero)" for k
    by (simp add: measurePrefetchThroughput_def)
  then show ?thesis unfolding BM_PrefetchThroughput_def by (induction iterations) simp_all
qed

text \<open>With prefetching the last \<open>PD\<close> steps of a pass index past the end.\<close>

lemma arr_pass_prefetch:
  assumes "0 < PD" and "a \<noteq> []" and "length b = length a"
  shows "arr_pass True PD add b a = Inl OutOfBounds"
proof -
  have keeps: "rfold (arr_step True PD add b) is s = Inl OutOfBounds \<or>
      (\<exists>s'. rfold (arr_step True PD add b) is s = Inr s' \<and> length s' = length s)"
    if "length s = length b" "\<forall>i\<in>set is. i < length b" for "is" s
    using that by (induction "is" arbitrary: s) (auto simp: arr_step_def vec_at_def vec_put_def)
  obtain n where n: "length a = Suc n" using assms(2) by (cases a) auto
  have "\<forall>i\<in>set [0..<n]. i < length b" using n assms(3) by simp
  from keeps [OF _ this, of a] assms n show ?thesis
    by (auto simp: arr_pass_def rfold_append arr_step_def)
qed

end
