(* ===== verification/Spec2Isabelle.thy ===== *)
theory Spec2Isabelle
  imports Tpcc_Split Programs Ycsb_Tier Ycsb_Gen Slot_Exchange Pipe_Profile Fast_Hash_Map Nano_Test Coro_Frames Tpcc_Dump
    Chain_Macros Warm_Up Arr_Seq
begin

text \<open>
  A verification of DORADD storage, a deterministic transaction pipeline over the Verona runtime
  with three applications (YCSB, TPC-C and a blockchain workload).  File names are relative to the
  repository's \<^verbatim>\<open>src/\<close> and \<^verbatim>\<open>app/\<close> directories.

  \<^bold>\<open>The program.\<close>  A log file of fixed-size transaction records is mapped into memory.  The request
  generator (\<open>RPCHandler\<close>) announces requests by incrementing a counter and logs their arrival times.
  The indexer takes up to four announced requests at a time and writes, into each record, the
  addresses of the rows (cowns) the transaction names; it passes the batch size through a ring to
  the prefetcher, which touches those addresses and passes the batch on through a second ring to the
  spawner, which parses the records and spawns one behaviour per transaction.  The runtime executes
  behaviours that share a cown in the order they were spawned and all others in any order.  All
  stages wrap around to the first record near the end of the log.

  \<^bold>\<open>Theories.\<close>
  \<^item> \<open>Prelude\<close>, \<open>Memory\<close>: the error type and its sequencing, loops that may fail, words; the mapped log
    as a list of bytes with little-endian loads and stores, checked against its bounds.
  \<^item> \<open>Behaviours\<close>: what the program relies on of the runtime.  \<open>verona\<close> holds the operations on cown
    addresses and \<open>verona_ok\<close> their documented laws; \<open>boc_order\<close> is the order in which spawned
    behaviours may run.  The locale \<open>cown_bodies\<close> shows that bodies that touch only the cowns they
    name have one result, that of the spawning order.
  \<^item> \<open>Row_Tables\<close>: \<open>Index\<close> (\<^verbatim>\<open>ycsb/db.hpp\<close>) and \<open>Table\<close> (\<^verbatim>\<open>tpcc/tables.hpp\<close>, \<^verbatim>\<open>chain/tables.hpp\<close>), both
    interpretations of the locale \<open>row_table\<close>.
  \<^item> \<open>Tx_Counter\<close>: \<^verbatim>\<open>doradd/txcounter.hpp\<close> and the sums the dispatchers compute from it.
  \<^item> \<open>Dispatcher\<close>, \<open>Stages\<close>, \<open>Pipeline\<close>, \<open>Runs\<close>: \<^verbatim>\<open>doradd/dispatcher.hpp\<close>, \<^verbatim>\<open>rpc_handler.hpp\<close> and
    \<^verbatim>\<open>pipeline.hpp\<close>.  The locale \<open>txn_contract\<close> (three operations on a record, what each promises)
    is what the stages need of a transaction type; each application interprets it.  \<open>pipe_step\<close>
    is one pass of one stage, in any interleaving; a stage that waits at a full ring waits in its own
    state.  \<open>pipe_inv\<close> is the invariant of all reachable states.
  \<^item> \<open>Ycsb\<close>, \<open>Ycsb_Log\<close>: \<^verbatim>\<open>ycsb.cc\<close> and the log generator \<^verbatim>\<open>ycsb/gen-log\<close>.
  \<^item> \<open>Tpcc_Keys\<close>, \<open>Tpcc_Rand\<close>, \<open>Tpcc_Db\<close>, \<open>Tpcc_Load\<close>, \<open>Tpcc\<close>, \<open>Tpcc_Replay\<close>: constants and hash keys at
    their width, random numbers, rows and tables, the loader, the transaction type and its bodies, and
    what whole sequences of transactions do to the loaded database.
  \<^item> \<open>Chain\<close>: \<^verbatim>\<open>chain.cc\<close> and \<^verbatim>\<open>chain/\<close>, for all four transaction classes.
  \<^item> \<open>Progress\<close>: moves of the pipeline, their number and that one is always possible while a request waits.
  \<^item> \<open>Warm_Up\<close>: \<^verbatim>\<open>doradd/pin-thread.hpp\<close> and the empty behaviours of \<^verbatim>\<open>warmup.hpp\<close>, which the runtime executes beside
    the transactions.
  \<^item> \<open>Cpp_Preprocessor\<close>, \<open>Chain_Macros\<close>: macro expansion, and the macros of \<^verbatim>\<open>chain/generic_macros.hpp\<close>, from which the
    arms of the switch in \<^verbatim>\<open>chain.cc\<close> are made.
  \<^item> \<open>Latency_Log\<close>: the end of \<^verbatim>\<open>pipeline.hpp\<close>, which writes the sampled latencies to a file.
  \<^item> \<open>Tpcc_Split\<close>: the \<open>WAREHOUSE_SPLIT\<close> build of \<^verbatim>\<open>tpcc.cc\<close>, two behaviours per transaction.
  \<^item> \<open>Tpcc_Dump\<close>: \<^verbatim>\<open>tpcc/gen-log/dump_txn.cc\<close>.
  \<^item> \<open>Ycsb_Tier\<close>: the \<open>STORAGE_TIER\<close> build of \<^verbatim>\<open>ycsb.cc\<close> as a refinement of the build with rows in the cowns.
  \<^item> \<open>Lcg_Period\<close>, \<open>Zipfian\<close>, \<open>Ycsb_Gen\<close>: the full period of \<^verbatim>\<open>ycsb/gen-log/uniform_random.h\<close>,
    \<^verbatim>\<open>zipfian_random.h\<close>, and the whole program \<^verbatim>\<open>generate_ycsb_zipf.cc\<close>.  The locale \<open>draw_source\<close> is what
    the loops that reject numbers need to end, interpreted for both distributions.
  \<^item> \<open>Args\<close>, \<open>Hpage\<close>, \<open>Inter_Arrival\<close>, \<open>Programs\<close>: the command line, \<^verbatim>\<open>doradd/hugepage.hpp\<close>,
    \<^verbatim>\<open>misc/inter_arrival.hpp\<close> with \<^verbatim>\<open>rand_gen.h\<close>, and the three \<open>main\<close> functions up to the started pipeline.
  \<^item> \<open>Fast_Hash_Map\<close>, \<open>Bin_Search\<close>, \<open>Coro_Search\<close>, \<open>Coro_Frames\<close>, \<open>Nano_Test\<close>, \<open>Arr_Seq\<close>: the
    experiments of \<^verbatim>\<open>prefetch/\<close>.  The locale \<open>value_set\<close> is the contract of a set of values, \<open>bounded_fifo\<close> that of the scheduler's
    ring.  \<open>Coro_Search\<close> queues the states of coroutines, \<open>Coro_Frames\<close> handles to frames on a heap.
  \<^item> \<open>Txn_Profile\<close>, \<open>Slot_Exchange\<close>, \<open>Pipe_Profile\<close>: the profilers \<^verbatim>\<open>txn_profile.cpp\<close>,
    \<^verbatim>\<open>atomic_exchange_profile.cpp\<close> and \<^verbatim>\<open>pipeline-profile\<close>.  The locale \<open>record_process\<close> is the contract of
    the transactions of the latter.
  This theory holds the properties that span components.

  \<^bold>\<open>How code is modelled.\<close>  Classes are records, functions are HOL functions, exceptions, failed
  assertions, accesses outside an array or the log and uses of an empty \<open>cown_ptr\<close> are values of
  \<open>error\<close>.  Integers are words of their width; addresses in the mapped log are offsets.  Times are
  integers and clock readings arguments.  Variables the code leaves uninitialised are arguments of the
  constructors.  Loops that end are folds over their range; spins take the list of values they read.

  \<^bold>\<open>What is shown.\<close>  Safety and order of every reachable pipeline state, and that announced requests
  reach the spawner under every schedule, for each application; determinism of YCSB runs from the generated
  log to the rows; serial execution of TPC-C, gap-free order numbers and stock bounds; the
  effect of each transaction; that the loaders return and place every row under its key; that
  keys identify rows and lie in their tables; round trip of the generated log; ranges
  of all random generators; consistency of the counters.  Six properties state defects of the code.
  The programs reach the started pipeline from a valid command line; the tables of TPC-C do not
  overlap; the storage tier refines the build with rows in the cowns, and the split build of TPC-C
  agrees with the default one on every table that is not inserted into; the log generator returns;
  the macros of the blockchain arms expand to the
  declarations the arms need; latencies are read back from the file as sampled; stores of rows stay well formed; interleaved,
  unrolled and prefetching formulations give the answers of the plain ones, and the search with
  frames on a heap refines the one without; the request generator keeps its
  schedule; the pipeline profiler ends under every schedule.

  \<^bold>\<open>Bounds.\<close>  The pipeline theorems take logs of at least eight records and no more requests than
  records, because the indexer's wrap-around check can otherwise leave the log (\<open>wrap_around_slips\<close>);
  generated logs have a million records and the request generator stops at a million.  A replay has
  at most a million transactions for the same reason, which keeps all tables below their capacity.
  A spin or retry that may not end returns \<open>None\<close>, and where the code relies on its end, that it
  returns is shown.

  \<^bold>\<open>Parameters.\<close>  The runtime (\<open>verona_ok\<close>), the single-producer single-consumer queue (\<open>spsc_ok\<close>), the
  standard library's generators and shuffles, the floating-point rounding (\<open>rand_env\<close>) and the blocks
  that \<open>malloc\<close> returns are code outside the repository.  \<open>flat_verona\<close>, \<open>list_ring\<close> and \<open>least_env\<close> are instances that satisfy the
  hypotheses.

  \<^bold>\<open>Not modelled.\<close>  Sleeps, the messages of \<^verbatim>\<open>misc/error.h\<close> and other printed text that nothing reads, and cache effects.
  Builds with \<open>CORE_PIPE\<close> and without \<open>INDEXER\<close>: \<open>Prefetcher\<close> does not compile there; builds without \<open>RPC_LATENCY\<close>, which
  differ in that no arrival time is read.  The latency logging of
  \<^verbatim>\<open>chain/macros.hpp\<close>, which passes a number where \<open>TxCounter\<close> takes a time and does not compile.
  The constants of \<^verbatim>\<open>tpcc/constants.hpp\<close> that no code uses and the procedures of \<^verbatim>\<open>tpcc/db.hpp\<close> that are commented out.
  \<open>Table::start_addr\<close> of TPC-C is written by \<open>main\<close> and never read, and left out.  The bounds of the
  zipfian generator and the end of the log generator are shown for exact arithmetic.
\<close>

section \<open>Lemmas that span components\<close>

text \<open>Every run over a generated log, and the bound on its requests.\<close>

lemma generated_log_facts:
  assumes "gen_log contention ds rs = Some m" and "length ds = TX_COUNT" and "verona_ok V"
    and "ycsb_load V a DB_SIZE = Inr index"
  shows "ycsb_wf V index TX_COUNT m" and "log_count m = Inr TX_COUNT"
proof -
  have len: "length ds < 2 ^ 32" using assms(2) by (simp add: TX_COUNT_def)
  show "ycsb_wf V index TX_COUNT m" using gen_log_wf [OF assms(3,1) len assms(4)] assms(2) by simp
  show "log_count m = Inr TX_COUNT"
    by (rule gen_log_records [OF assms(1) len]) (use assms(2) len in \<open>simp add: log_count_def unat_of_nat_small\<close>)
qed

lemma sample_store:
  obtains index where "ycsb_load flat_verona 0 DB_SIZE = Inr index"
  using ycsb_load_row [of flat_verona DB_SIZE 0] by auto

section \<open>YCSB from the generator to the rows\<close>

text \<open>
  Any log that the generator writes, the full store, any interleaving of the stages and any order of
  execution that the runtime may choose.
\<close>

lemma ycsb_generated_run:
  assumes "spsc_ok Q items" and "verona_ok V"
    and "gen_log contention ds rs = Some m" and "length ds = TX_COUNT"
    and "ycsb_load V a DB_SIZE = Inr index"
    and "build_pipelines m wc batch0 reg0 exec0 print0 q1 q2 start = Inr s0" and "items q1 = []" and "items q2 = []"
    and "pipe_reachable Q (YCSBTransaction V index) s0 s"
    and "boc_order (job_conflict (\<lambda>x y. set (yw_rows x) \<inter> set (yw_rows y) \<noteq> {})) (prepare_run @ map Txn (p_spawned s)) completed"
  shows "\<not> pipe_fault Q (YCSBTransaction V index) s \<and>
    (\<exists>W. TX_COUNT - 4 < W \<and> fold (job_run ycsb_body) completed st =
       fold ycsb_body (map (\<lambda>j. ycsb_decode V index (record_of W j) (p_times s j) m) [0..<length (p_spawned s)]) st)"
proof -
  note wf = generated_log_facts [OF assms(3,4,2,5)]
  have n: "8 \<le> TX_COUNT" by (simp add: TX_COUNT_def)
  have "rpc_i (p_rpc s) \<le> TX_COUNT"
    using pipe_reachable_rpc_limit [OF assms(9) build_pipelines_rpc [OF assms(6)]] by (simp add: TX_COUNT_def)
  note run = assms(1,6) wf n assms(7,8,9) this
  obtain W where W: "TX_COUNT - 4 < W"
      "p_spawned s = map (\<lambda>j. ycsb_decode V index (record_of W j) (p_times s j) m) [0..<length (p_spawned s)]"
    using ycsb_log.run_spawned [OF run] by blast
  have "fold ycsb_body (txns completed) st =
      fold ycsb_body (map (\<lambda>j. ycsb_decode V index (record_of W j) (p_times s j) m) [0..<length (p_spawned s)]) st"
    using ycsb_bodies.boc_deterministic [OF warmed_up_run(1) [OF assms(10)]] arg_cong [OF W(2), of "\<lambda>bs. fold ycsb_body bs st"]
    by (rule trans)
  with ycsb_log.run_no_fault [OF run] W(1) show ?thesis unfolding fold_txns by blast
qed

text \<open>
  C1. The YCSB programs from end to end.  Take any log that the generator program writes, a command line with a
  core count the machine has, huge pages to be had and a known request generator.  Then \<open>main\<close> reaches the
  started pipeline, with every key finding its row.  And for rings that keep their documented
  contract, every interleaving of the request generator, indexer, prefetcher and spawner, and every
  order of execution that the runtime may choose for the behaviours of the warm-up and the spawned
  transactions: no stage reaches an access outside the log or an empty cown, and the rows end up as if the
  transactions of the log had run one by one in log order (with the records wrapping around at the last
  batch), each with its own arrival time.
\<close>

theorem ycsb_program_deterministic:
  fixes I :: "'q initial" and V :: "'c verona"
  assumes "spsc_ok Q items" and "verona_ok V" and "generate_main rounding gen_argv perms draws = Inr (name, Some m)"
    and "argv_ok cores argv" and "1 < cores" and "cores \<le> sy_cores Y" and "sy_cores Y < 256"
    and "alloc_ok Y (unat COWN_STRIDE * DB_SIZE)" and "he_alloc (sy_hpage Y) (alloc_sz (unat COWN_STRIDE * DB_SIZE)) = base"
    and "starts_with Y argv m gen" and "items (in_ring_idx_pref I) = []" and "items (in_ring_pref_disp I) = []"
  shows "\<exists>index s0. ycsb_main Y I V argv = Inr (index, Some gen, s0) \<and>
    (\<forall>key. unat key < DB_SIZE \<longrightarrow> index_get_row key index = Inr (Some (make_cown_custom V (base + COWN_STRIDE * key)))) \<and>
    (\<forall>s completed st. pipe_reachable Q (YCSBTransaction V index) s0 s \<longrightarrow>
       boc_order (job_conflict (\<lambda>x y. set (yw_rows x) \<inter> set (yw_rows y) \<noteq> {})) (prepare_run @ map Txn (p_spawned s)) completed \<longrightarrow>
       \<not> pipe_fault Q (YCSBTransaction V index) s \<and>
       (\<exists>W. TX_COUNT - 4 < W \<and> fold (job_run ycsb_body) completed st =
          fold ycsb_body (map (\<lambda>j. ycsb_decode V index (record_of W j) (p_times s j) m) [0..<length (p_spawned s)]) st))"
proof -
  obtain rs where log: "gen_log (contended gen_argv) (map perms [0..<TX_COUNT]) rs = Some m" and len: "length (map perms [0..<TX_COUNT]) = TX_COUNT"
    using generate_main_log [OF assms(3)] by auto
  obtain index where index: "ycsb_load V base DB_SIZE = Inr index"
    "\<And>key. unat key < DB_SIZE \<Longrightarrow> index_get_row key index = Inr (Some (make_cown_custom V (base + COWN_STRIDE * key)))"
    using ycsb_load_row [OF assms(2) order.refl, of base] by blast
  note cnt = generated_log_facts(2) [OF log len assms(2) index(1)]
  obtain s0 :: "('q, mem, 'c ycsb_when) pipeline" where s0: "stages I m (of_nat cores - 1) = Inr s0" by (rule log_count_image [OF cnt])
  have main: "ycsb_main Y I V argv = Inr (index, Some gen, s0)"
    by (simp add: ycsb_main_def core_cnt_ok(2) [OF assms(4-7)] alloc_hpage [OF assms(8), unfolded assms(9)] index(1)
        start_pipelines_ok [OF assms(10) s0])
  with index(2) ycsb_generated_run [OF assms(1,2) log len index(1) s0 assms(11,12)] show ?thesis by blast
qed

lemma sample_generated: "\<exists>k m. generate_main (\<lambda>x. x) [''gen'', ''-d'', ''uniform'', ''-c'', ''no_cont''] (\<lambda>_. sample_digits) k =
    Inr (log_name [''gen'', ''-d'', ''uniform'', ''-c'', ''no_cont''], Some m)"
  using generate_main_returns [of "[''gen'', ''-d'', ''uniform'', ''-c'', ''no_cont'']" "\<lambda>_. sample_digits"] by auto

theorem ycsb_program_deterministic_witness:
  "\<exists>k name m index gen s0.
     generate_main (\<lambda>x. x) [''gen'', ''-d'', ''uniform'', ''-c'', ''no_cont''] (\<lambda>_. sample_digits) k = Inr (name, Some m) \<and>
     ycsb_main (sample_system m) sample_initial flat_verona sample_argv = Inr (index, gen, s0) \<and>
     (\<forall>s. pipe_reachable list_ring (YCSBTransaction flat_verona index) s0 s \<longrightarrow>
        \<not> pipe_fault list_ring (YCSBTransaction flat_verona index) s)"
proof -
  obtain k name m where m: "generate_main (\<lambda>x. x) [''gen'', ''-d'', ''uniform'', ''-c'', ''no_cont''] (\<lambda>_. sample_digits) k = Inr (name, Some m)"
    using sample_generated by blast
  obtain gen where gen: "starts_with (sample_system m) sample_argv m gen" by (rule sample_starts)
  have cores: "4 \<le> sy_cores (sample_system m)" "sy_cores (sample_system m) < 256" by (simp_all add: sample_system_def)
  have rings: "in_ring_idx_pref sample_initial = []" "in_ring_pref_disp sample_initial = []" by (simp_all add: sample_initial_def)
  obtain index s0 where p: "ycsb_main (sample_system m) sample_initial flat_verona sample_argv = Inr (index, Some gen, s0)"
    "\<And>s completed. pipe_reachable list_ring (YCSBTransaction flat_verona index) s0 s \<Longrightarrow>
       boc_order (job_conflict (\<lambda>x y. set (yw_rows x) \<inter> set (yw_rows y) \<noteq> {})) (prepare_run @ map Txn (p_spawned s)) completed \<Longrightarrow>
       \<not> pipe_fault list_ring (YCSBTransaction flat_verona index) s"
    using ycsb_program_deterministic [OF list_ring_ok flat_verona_ok m sample_argv_ok _ cores sample_alloc refl gen rings]
    by auto
  show ?thesis using m p(1) p(2) [OF _ boc_order_serial] by blast
qed

text \<open>
  C3. Safety and order of a YCSB pipeline over any well-formed log of at least eight records, as long
  as no more requests arrive than the log has records: no stage reaches an access outside the log or an
  empty cown, and the transactions spawned are those of the log, in log order, each with the arrival
  time of its own request.
\<close>

theorem ycsb_pipeline_in_order:
  assumes "spsc_ok Q items" and "build_pipelines m wc batch0 reg0 exec0 print0 q1 q2 start = Inr s0"
    and "ycsb_wf V index n m" and "log_count m = Inr n" and "8 \<le> n" and "items q1 = []" and "items q2 = []"
    and "pipe_reachable Q (YCSBTransaction V index) s0 s" and "rpc_i (p_rpc s) \<le> n"
  shows "\<not> pipe_fault Q (YCSBTransaction V index) s \<and> length (p_spawned s) \<le> rpc_i (p_rpc s) \<and>
    (\<exists>W. n - 4 < W \<and>
       p_spawned s = map (\<lambda>j. ycsb_decode V index (record_of W j) (p_times s j) m) [0..<length (p_spawned s)])"
  using ycsb_log.run_no_fault [OF assms] ycsb_log.run_spawned [OF assms] by blast

lemma sample_small_log:
  obtains m index and s0 :: "(int list, mem, u64 ycsb_when) pipeline"
  where "ycsb_wf flat_verona index 8 m" "log_count m = Inr 8" "build_pipelines m 4 0 False 0 0 [] [] 0 = Inr s0"
proof -
  obtain m where m: "gen_log False (replicate 8 sample_digits) (concat (replicate 8 sample_draws)) = Some m"
    using sample_log by blast
  obtain index where index: "ycsb_load flat_verona 0 DB_SIZE = Inr index" by (rule sample_store)
  have wf: "ycsb_wf flat_verona index 8 m" using gen_log_wf [OF flat_verona_ok m _ index] by simp
  have cnt: "log_count m = Inr 8"
    by (rule gen_log_records [OF m]) (simp_all add: log_count_def)
  show ?thesis by (rule log_count_image [OF cnt]) (rule that [OF wf cnt])
qed

theorem ycsb_pipeline_in_order_witness:
  "\<exists>m index s0 s W. ycsb_wf flat_verona index 8 m \<and> build_pipelines m 4 0 False 0 0 [] [] 0 = Inr s0 \<and>
     pipe_reachable list_ring (YCSBTransaction flat_verona index) s0 s \<and> length (p_spawned s) = 8 \<and>
     p_spawned s = map (\<lambda>j. ycsb_decode flat_verona index (record_of W j) (p_times s j) m) [0..<8]"
proof -
  obtain m index and s0 :: "(int list, mem, u64 ycsb_when) pipeline" where
    wf: "ycsb_wf flat_verona index 8 m" "log_count m = Inr 8" "build_pipelines m 4 0 False 0 0 [] [] 0 = Inr s0"
    by (rule sample_small_log)
  obtain s where s: "pipe_reachable list_ring (YCSBTransaction flat_verona index) s0 s"
      "rpc_i (p_rpc s) = 8" "length (p_spawned s) = 8"
    using ycsb_log.run_exists [OF list_ring_ok wf(3,1,2), of 8] by auto
  obtain W where W: "p_spawned s =
      map (\<lambda>j. ycsb_decode flat_verona index (record_of W j) (p_times s j) m) [0..<length (p_spawned s)]"
    using ycsb_pipeline_in_order [OF list_ring_ok wf(3,1,2) _ _ _ s(1)] s(2) by auto
  from wf(1,3) s(1,3) W [unfolded s(3)] show ?thesis by blast
qed

text \<open>
  C4. A YCSB pipeline never gets stuck: from every state it can reach, the stages can bring every
  announced request to the spawner without a further request arriving.  Moreover every schedule does
  so: until the next announcement any run makes at most five moves (a batch taken up, handed on or
  spawned) for each request not yet spawned and one more, and as long as a request is missing at the
  spawner another move is possible.
\<close>

theorem ycsb_pipeline_drains:
  assumes "spsc_ok Q items" and "build_pipelines m wc batch0 reg0 exec0 print0 q1 q2 start = Inr s0"
    and "ycsb_wf V index n m" and "log_count m = Inr n" and "8 \<le> n" and "items q1 = []" and "items q2 = []"
    and "pipe_reachable Q (YCSBTransaction V index) s0 s" and "rpc_i (p_rpc s) \<le> n"
  shows "(\<exists>t. pipe_reachable Q (YCSBTransaction V index) s t \<and> p_rpc t = p_rpc s \<and>
      length (p_spawned t) = rpc_i (p_rpc s)) \<and>
    (\<forall>k t. pipe_run Q (YCSBTransaction V index) s k t \<longrightarrow>
       k \<le> 5 * (rpc_i (p_rpc s) - length (p_spawned s)) + 1 \<and>
       (length (p_spawned t) = rpc_i (p_rpc s) \<or> (\<exists>u. pipe_run Q (YCSBTransaction V index) s (Suc k) u)))"
  using ycsb_log.run_drains [OF assms] ycsb_log.run_progress [OF assms] by blast

theorem ycsb_pipeline_drains_witness:
  "\<exists>m index s0 s t. ycsb_wf flat_verona index 8 m \<and> build_pipelines m 4 0 False 0 0 [] [] 0 = Inr s0 \<and>
     pipe_reachable list_ring (YCSBTransaction flat_verona index) s0 s \<and> rpc_i (p_rpc s) = 5 \<and>
     pipe_reachable list_ring (YCSBTransaction flat_verona index) s t \<and> length (p_spawned t) = 5"
proof -
  obtain m index and s0 :: "(int list, mem, u64 ycsb_when) pipeline" where
    wf: "ycsb_wf flat_verona index 8 m" "log_count m = Inr 8" "build_pipelines m 4 0 False 0 0 [] [] 0 = Inr s0"
    by (rule sample_small_log)
  obtain s where s: "pipe_reachable list_ring (YCSBTransaction flat_verona index) s0 s" "rpc_i (p_rpc s) = 5"
    using pipe_announce [OF build_pipelines_rpc [OF wf(3)], of 5] by auto
  show ?thesis
    using ycsb_pipeline_drains [OF list_ring_ok wf(3,1,2) _ _ _ s(1)] wf(1,3) s by fastforce
qed

section \<open>TPC-C from the loader to the rows\<close>

text \<open>Transactions of a log on the loaded database all name the one warehouse.\<close>

lemma tpcc_decoded_conflict:
  assumes "db_loaded V a db" and "tpcc_wf V db n m" and "k < n" and "k' < n"
  shows "tpcc_cowns (tpcc_decode V db k ts m) \<inter> tpcc_cowns (tpcc_decode V db k' ts' m) \<noteq> {}"
proof -
  have w: "tpcc_p j m 0 = 1" if j: "j < n" for j
  proof -
    have "0 \<in> slots (tpcc_type j m) (unat (tpcc_p j m 50))" by (simp add: slots_def)
    then obtain c where "get_row_addr (Warehouse_hash_key (tpcc_p j m 0)) (rs_table (warehouse_table db)) = Inr (Some c)"
      using assms(2) j by (fastforce simp: tpcc_wf_def tpcc_record_wf_def slot_row_def)
    with loaded_found [OF assms(1) [unfolded db_loaded_def, THEN conjunct1]]
    have "unat (Warehouse_hash_key (tpcc_p j m 0)) < 1" by blast
    then have "tpcc_p j m 0 - 1 = 0" by (simp add: Warehouse_hash_key_def unat_eq_0)
    then show ?thesis by simp
  qed
  show ?thesis
    using tpcc_common_warehouse(1) [OF assms(2,3) w [OF assms(3)], of ts]
      tpcc_common_warehouse(1) [OF assms(2,4) w [OF assms(4)], of ts']
      tpcc_common_warehouse(2) [OF assms(2,3) w [OF assms(3)]]
      tpcc_common_warehouse(2) [OF assms(2,4) w [OF assms(4)]] by auto
qed

text \<open>
  C2. A TPC-C run from end to end, on the database the loader builds and any well-formed log with at
  least eight records: while no more requests arrive than the log has records, no stage reaches an
  access outside the log or an empty cown; whatever it does with the behaviours of the warm-up, the runtime has no choice but to
  run the transactions in the order of the log; and running them, up to the million the pipeline accepts, raises no
  exception, numbers the orders of every district without gaps and, if no item is ordered more than
  ten times at once, keeps every stock level between 10 and 100.
\<close>

theorem tpcc_run_serial:
  assumes "spsc_ok Q items" and "verona_ok V" and "pick_ok e" and "shuffle_ok e"
    and "tpcc_load V e a = Inr (db, rs)"
    and "build_pipelines m wc batch0 reg0 exec0 print0 q1 q2 start = Inr s0"
    and "tpcc_wf V db n m" and "log_count m = Inr n" and "8 \<le> n" and "items q1 = []" and "items q2 = []"
    and "pipe_reachable Q (TPCCTransaction V db) s0 s" and "rpc_i (p_rpc s) \<le> n"
    and "boc_order (job_conflict (\<lambda>x y. tpcc_cowns x \<inter> tpcc_cowns y \<noteq> {})) (prepare_run @ map Txn (p_spawned s)) completed"
  shows "\<not> pipe_fault Q (TPCCTransaction V db) s \<and> txns completed = p_spawned s \<and>
    (\<exists>db' k'. rfold (tpcc_body e' alloc) (txns completed) (db, k) = Inr (db', k') \<and>
       (\<forall>c. next_o_id c db' = next_o_id c db + orders_of c (txns completed)) \<and>
       ((\<forall>b\<in>set (txns completed). quantities_ok b) \<longrightarrow> stock_levels_ok (stock_table db')))"
proof -
  have db: "db_loaded V a db" using tpcc_load_ok [OF assms(3,2,4), of a] assms(5) by auto
  note run = assms(1,6-13)
  have beh: "\<exists>k<n. \<exists>ts. b = tpcc_decode V db k ts m" if "b \<in> set (p_spawned s)" for b
    using tpcc_log.run_decoded [OF run that] .
  have serial: "txns completed = p_spawned s"
  proof (rule boc_order_total [OF warmed_up_run(1) [OF assms(14)]])
    fix x y
    assume "x \<in> set (p_spawned s)" "y \<in> set (p_spawned s)"
    then show "tpcc_cowns x \<inter> tpcc_cowns y \<noteq> {}"
      using beh tpcc_decoded_conflict [OF db assms(7)] by metis
  qed
  have "\<forall>b\<in>set (p_spawned s). targeted b db"
    using beh decoded_targeted [OF db] assms(7) unfolding tpcc_wf_def by metis
  moreover have "length (p_spawned s) \<le> 1000000"
    using tpcc_log.run_spawned [OF run] pipe_reachable_rpc_limit [OF assms(12) build_pipelines_rpc [OF assms(6)]] by auto
  ultimately show ?thesis
    using replay_run [OF _ db_loaded_replay(1) [OF db], of "p_spawned s" e' alloc k] db_loaded_replay(2) [OF db]
      tpcc_log.run_no_fault [OF run] serial by fastforce
qed

lemma sample_tpcc_log:
  obtains db rs m and s0 :: "(int list, mem, u64 tpcc_when) pipeline"
  where "tpcc_load flat_verona least_env sample_addrs = Inr (db, rs)" "tpcc_wf flat_verona db 8 m"
    "log_count m = Inr 8" "build_pipelines m 4 0 False 0 0 [] [] 0 = Inr s0"
proof (rule sample_payment_log)
  fix db rs
  assume db: "tpcc_load flat_verona least_env sample_addrs = Inr (db, rs)"
    and wf: "tpcc_wf flat_verona db 8 (log_of (replicate 8 sample_payment))"
    and cnt: "log_count (log_of (replicate 8 sample_payment)) = Inr 8"
  show ?thesis by (rule log_count_image [OF cnt]) (rule that [OF db wf cnt])
qed

theorem tpcc_run_serial_witness:
  "\<exists>db rs m s0 s db' k'. tpcc_load flat_verona least_env sample_addrs = Inr (db, rs) \<and>
     build_pipelines m 4 0 False 0 0 [] [] 0 = Inr s0 \<and>
     pipe_reachable list_ring (TPCCTransaction flat_verona db) s0 s \<and> length (p_spawned s) = 8 \<and>
     rfold (tpcc_body least_env of_nat) (p_spawned s) (db, 0) = Inr (db', k')"
proof -
  obtain db rs m and s0 :: "(int list, mem, u64 tpcc_when) pipeline" where
    wf: "tpcc_load flat_verona least_env sample_addrs = Inr (db, rs)" "tpcc_wf flat_verona db 8 m"
      "log_count m = Inr 8" "build_pipelines m 4 0 False 0 0 [] [] 0 = Inr s0"
    by (rule sample_tpcc_log)
  obtain s where s: "pipe_reachable list_ring (TPCCTransaction flat_verona db) s0 s"
      "rpc_i (p_rpc s) = 8" "length (p_spawned s) = 8"
    using tpcc_log.run_exists [OF list_ring_ok wf(4,2,3), of 8] by auto
  from tpcc_run_serial [OF list_ring_ok flat_verona_ok least_env_pick least_env_shuffle wf(1,4,2,3) _ _ _ s(1) _
      boc_order_serial, of least_env of_nat 0] s(2)
  obtain db' k' where "rfold (tpcc_body least_env of_nat) (p_spawned s) (db, 0) = Inr (db', k')" by auto
  with wf(1,4) s(1,3) show ?thesis by blast
qed

text \<open>
  C7. Safety and order of a TPC-C pipeline over any well-formed log on any database, as long as no more
  requests arrive than the log has records: no stage reaches an access outside the log or an empty cown,
  and the behaviours spawned are those of the log, in log order, each with its own arrival time.  The
  pipeline never gets stuck: the announced requests can all be brought to the spawner, and until the
  next announcement every schedule makes a bounded number of moves and can go on until they are.
\<close>

theorem tpcc_pipeline_correct:
  assumes "spsc_ok Q items" and "build_pipelines m wc batch0 reg0 exec0 print0 q1 q2 start = Inr s0"
    and "tpcc_wf V db n m" and "log_count m = Inr n" and "8 \<le> n" and "items q1 = []" and "items q2 = []"
    and "pipe_reachable Q (TPCCTransaction V db) s0 s" and "rpc_i (p_rpc s) \<le> n"
  shows "\<not> pipe_fault Q (TPCCTransaction V db) s \<and> length (p_spawned s) \<le> rpc_i (p_rpc s) \<and>
    (\<exists>W. n - 4 < W \<and>
       p_spawned s = map (\<lambda>j. tpcc_decode V db (record_of W j) (p_times s j) m) [0..<length (p_spawned s)]) \<and>
    (\<exists>t. pipe_reachable Q (TPCCTransaction V db) s t \<and> p_rpc t = p_rpc s \<and>
      length (p_spawned t) = rpc_i (p_rpc s)) \<and>
    (\<forall>k t. pipe_run Q (TPCCTransaction V db) s k t \<longrightarrow>
       k \<le> 5 * (rpc_i (p_rpc s) - length (p_spawned s)) + 1 \<and>
       (length (p_spawned t) = rpc_i (p_rpc s) \<or> (\<exists>u. pipe_run Q (TPCCTransaction V db) s (Suc k) u)))"
  using tpcc_log.run_no_fault [OF assms] tpcc_log.run_spawned [OF assms] tpcc_log.run_drains [OF assms]
      tpcc_log.run_progress [OF assms] by (intro conjI) blast+

theorem tpcc_pipeline_correct_witness:
  "\<exists>db m s0 s W. tpcc_wf flat_verona db 8 m \<and> build_pipelines m 4 0 False 0 0 [] [] 0 = Inr s0 \<and>
     pipe_reachable list_ring (TPCCTransaction flat_verona db) s0 s \<and> length (p_spawned s) = 8 \<and>
     p_spawned s = map (\<lambda>j. tpcc_decode flat_verona db (record_of W j) (p_times s j) m) [0..<8]"
proof -
  obtain db rs m and s0 :: "(int list, mem, u64 tpcc_when) pipeline" where
    wf: "tpcc_load flat_verona least_env sample_addrs = Inr (db, rs)" "tpcc_wf flat_verona db 8 m"
      "log_count m = Inr 8" "build_pipelines m 4 0 False 0 0 [] [] 0 = Inr s0"
    by (rule sample_tpcc_log)
  obtain s where s: "pipe_reachable list_ring (TPCCTransaction flat_verona db) s0 s"
      "rpc_i (p_rpc s) = 8" "length (p_spawned s) = 8"
    using tpcc_log.run_exists [OF list_ring_ok wf(4,2,3), of 8] by auto
  obtain W where W: "p_spawned s =
      map (\<lambda>j. tpcc_decode flat_verona db (record_of W j) (p_times s j) m) [0..<length (p_spawned s)]"
    using tpcc_pipeline_correct [OF list_ring_ok wf(4,2,3) _ _ _ s(1)] s(2) by auto
  from wf(2,4) s(1,3) W [unfolded s(3)] show ?thesis by blast
qed

section \<open>The blockchain transactions\<close>

text \<open>
  C8. Safety and order of a pipeline of blockchain transactions, for each of the four classes, on the
  tables the generator builds and any log whose parameters number existing rows: no stage reaches an
  access outside the log or an empty cown, and the behaviours spawned are those of the log, in log
  order, each naming the cowns of its record.  Until the next announcement every schedule makes a bounded
  number of moves and can go on until every announced request is spawned.
\<close>

theorem chain_pipeline_correct:
  assumes "spsc_ok Q items" and "verona_ok V" and "chain_load K V a = Inr db" and "chain_log_ok K n m"
    and "build_pipelines m wc batch0 reg0 exec0 print0 q1 q2 start = Inr s0"
    and "log_count m = Inr n" and "8 \<le> n" and "items q1 = []" and "items q2 = []"
    and "pipe_reachable Q (ChainTransaction K V db) s0 s" and "rpc_i (p_rpc s) \<le> n"
  shows "\<not> pipe_fault Q (ChainTransaction K V db) s \<and> length (p_spawned s) \<le> rpc_i (p_rpc s) \<and>
    (\<exists>W. n - 4 < W \<and>
       p_spawned s = map (\<lambda>j. chain_decode K V db (record_of W j) (p_times s j) m) [0..<length (p_spawned s)]) \<and>
    (\<exists>t. pipe_reachable Q (ChainTransaction K V db) s t \<and> p_rpc t = p_rpc s \<and>
      length (p_spawned t) = rpc_i (p_rpc s)) \<and>
    (\<forall>k t. pipe_run Q (ChainTransaction K V db) s k t \<longrightarrow>
       k \<le> 5 * (rpc_i (p_rpc s) - length (p_spawned s)) + 1 \<and>
       (length (p_spawned t) = rpc_i (p_rpc s) \<or> (\<exists>u. pipe_run Q (ChainTransaction K V db) s (Suc k) u)))"
proof -
  note run = assms(1,5) chain_log_wf [OF assms(3,2,4)] assms(6-11)
  show ?thesis using chain_log.run_no_fault [OF run] chain_log.run_spawned [OF run] chain_log.run_drains [OF run]
      chain_log.run_progress [OF run] by (intro conjI) blast+
qed

text \<open>A log of transfers from account 1 to account 2.\<close>

definition sample_transfer :: "u8 list" where
  "sample_transfer = bytes_of 4 1 @ bytes_of 4 2 @ replicate 56 0"

lemma sample_transfers_ok: "chain_log_ok P2p n (log_of (replicate n sample_transfer))"
proof -
  let ?m = "log_of (replicate n sample_transfer)"
  have all: "\<forall>x\<in>set (replicate n sample_transfer). length x = 64" by (simp add: sample_transfer_def)
  have "load 4 0 sample_transfer = Inr 1" "load 4 4 sample_transfer = Inr 2"
    by (simp_all add: sample_transfer_def load_def nat_of_bytes_bytes_of)
  then have "load_u32 (chain_off P2p k + 4 * i) ?m = Inr (of_nat (Suc i))" if "k < n" "i < 2" for k i
    using load_log_of [OF all, of k "4 * i" 4] that by (auto simp: load_u32_def chain_off_def less_2_cases_iff)
  then show ?thesis
    using length_log_of [OF all]
    by (auto simp: chain_log_ok_def chain_cnt_def chain_param_def chain_limit_def NUM_ACCOUNTS_def chain_off_def
        less_2_cases_iff)
qed

lemma sample_chain_log:
  obtains db and s0 :: "(int list, mem, u64 chain_when) pipeline" where "chain_load P2p flat_verona 0 = Inr db"
    "log_count (log_of (replicate 8 sample_transfer)) = Inr 8"
    "build_pipelines (log_of (replicate 8 sample_transfer)) 4 0 False 0 0 [] [] 0 = Inr s0"
proof -
  obtain db where db: "chain_load P2p flat_verona 0 = Inr (db :: u64 chain_db)" using chain_load_ok by blast
  have cnt: "log_count (log_of (replicate 8 sample_transfer)) = Inr 8" by (subst log_count_log_of) simp_all
  show ?thesis by (rule log_count_image [OF cnt]) (rule that [OF db cnt])
qed

theorem chain_pipeline_correct_witness:
  "\<exists>db s0 s. chain_load P2p flat_verona 0 = Inr db \<and>
     build_pipelines (log_of (replicate 8 sample_transfer)) 4 0 False 0 0 [] [] 0 = Inr s0 \<and>
     pipe_reachable list_ring (ChainTransaction P2p flat_verona db) s0 s \<and> length (p_spawned s) = 8 \<and>
     \<not> pipe_fault list_ring (ChainTransaction P2p flat_verona db) s"
proof -
  obtain db and s0 :: "(int list, mem, u64 chain_when) pipeline" where c: "chain_load P2p flat_verona 0 = Inr db"
      "log_count (log_of (replicate 8 sample_transfer)) = Inr 8"
      "build_pipelines (log_of (replicate 8 sample_transfer)) 4 0 False 0 0 [] [] 0 = Inr s0"
    by (rule sample_chain_log)
  obtain s where s: "pipe_reachable list_ring (ChainTransaction P2p flat_verona db) s0 s"
      "rpc_i (p_rpc s) = 8" "length (p_spawned s) = 8"
    using chain_log.run_exists [OF list_ring_ok c(3) chain_log_wf [OF c(1) flat_verona_ok sample_transfers_ok] c(2), of 8]
    by auto
  show ?thesis
    using chain_pipeline_correct [OF list_ring_ok flat_verona_ok c(1) sample_transfers_ok c(3,2) _ _ _ s(1)] c s by auto
qed

section \<open>The single-threaded dispatcher, and the indexer past the end of the log\<close>

text \<open>
  C27. One pass of the loop of \<open>FileDispatcher::run\<close> over a YCSB log: when a load of the request counter
  shows a new request, it spawns one to four transactions, those of the next records of the log, in
  order, each with its own arrival time; it stays inside the log and keeps its heads on its index.
\<close>

theorem file_dispatcher_pass:
  assumes "ycsb_wf V index n m" and "fd_ok 128 4 d" and "unat (fd_count d) = n"
    and "fd_txn_log_id d < 1000000" and "v \<in> set loads" and "v \<noteq> fd_handled_req_cnt d"
    and "\<forall>u\<in>set loads. fd_handled_req_cnt d \<le> u"
  shows "\<exists>d' m' b ann. fd_run_iter (YCSBTransaction V index) arrivals w now loads d m = Inr (Some (d', m',
      map (\<lambda>i. ycsb_decode V index (wrap_pos n (unat (fd_idx d)) + i) (arrivals (nat (fd_txn_log_id d) + i)) m) [0..<b], ann)) \<and>
    1 \<le> b \<and> b \<le> 4 \<and> (\<exists>u\<in>set loads. unat (fd_handled_req_cnt d) + b \<le> unat u) \<and>
    wrap_pos n (unat (fd_idx d)) + b \<le> n \<and> unat (fd_idx d') = wrap_pos n (unat (fd_idx d)) + b \<and>
    ycsb_wf V index n m' \<and> fd_ok 128 4 d' \<and> fd_txn_log_id d' = fd_txn_log_id d + int b"
  using ycsb.fd_run_iter_ok [OF assms] .

theorem file_dispatcher_pass_witness:
  "\<exists>m index d d' m' b ann. ycsb_wf flat_verona index 8 m \<and> new_file_dispatcher m 4 0 0 = Inr d \<and>
     fd_run_iter (YCSBTransaction flat_verona index) (\<lambda>_. 0) (no_counters :: nat counters) 0 [0, 3] d m = Inr (Some (d', m',
       map (\<lambda>i. ycsb_decode flat_verona index i 0 m) [0..<b], ann)) \<and> 1 \<le> b"
proof -
  obtain m index and s0 :: "(int list, mem, u64 ycsb_when) pipeline" where
    wf: "ycsb_wf flat_verona index 8 m" "log_count m = Inr 8" "build_pipelines m 4 0 False 0 0 [] [] 0 = Inr s0"
    by (rule sample_small_log)
  obtain d where d: "new_file_dispatcher m 4 0 0 = Inr d" "unat (fd_count d) = 8" "fd_ok 128 4 d"
      "fd_txn_log_id d = 0" "fd_handled_req_cnt d = 0" "fd_idx d = 0"
    using wf(2) by (auto simp: log_count_def result_simps new_file_dispatcher_def fd_ok_def)
  have "wrap_pos 8 0 = 0" by (simp add: wrap_pos_def)
  with file_dispatcher_pass [OF wf(1) d(3,2), of 3 "[0, 3]" "\<lambda>_. 0" "no_counters :: nat counters" 0] d(4-6)
  obtain d' m' b ann where "fd_run_iter (YCSBTransaction flat_verona index) (\<lambda>_. 0) (no_counters :: nat counters) 0 [0, 3] d m =
      Inr (Some (d', m', map (\<lambda>i. ycsb_decode flat_verona index i 0 m) [0..<b], ann))" "1 \<le> b" by auto
  with wf(1) d(1) show ?thesis by blast
qed

text \<open>
  C35. Two wrap-around checks let a stage leave the log.  That of \<open>Indexer::run\<close> uses the size of the
  previous batch: an indexer that stands at the last record after a batch of one does not wrap around,
  and when two or more requests are waiting it prepares a record behind the end of the log.  That of
  \<open>FileDispatcher\<close> subtracts \<open>MAX_BATCH\<close> from the count, and the difference is unsigned: a log of fewer
  than four records is never wrapped around.
\<close>

theorem wrap_around_slips:
  assumes "ycsb_wf V index n m" and "8 \<le> n" and "n < 2 ^ 32" and "ix_ok 128 4 x"
    and "unat (ix_read_count x) = n" and "unat (ix_read_idx x) = n - 1" and "ix_batch x = 1"
    and "2 \<le> unat (load_val - ix_handled_req_cnt x)"
  shows "indexer_iter (YCSBTransaction V index) load_val x m = Inl OutOfBounds \<and>
    (\<forall>d. unat (fd_count d) < 4 \<longrightarrow> fd_wrap d = d)"
proof -
  let ?T = "YCSBTransaction V index" and ?b = "dyn_batch (ix_handled_req_cnt x) load_val"
  let ?x1 = "x\<lparr>ix_handled_req_cnt := ix_handled_req_cnt x + ?b, ix_batch := uint ?b\<rparr>"
  have stay: "ix_wrap x = x"
    using ix_wrap_unat [OF assms(5,2)] assms(2,6,7) by (auto simp: ix_wrap_def split: if_splits)
  have b: "2 \<le> unat ?b" using assms(8) by (simp add: dyn_batch_def MAX_BATCH_def Let_def)
  have k: "n - 1 < n" using assms(2) by simp
  obtain m1 where m1: "ycsb_prepare_cowns V index (ycsb_off (n - 1)) m = Inr (128, m1)" "cown_area (n - 1) m m1"
    using ycsb_prepare_ok [OF assms(1) k] by blast
  have head: "ix_read_head x = ycsb_off (n - 1)" "ycsb_off (n - 1) + 128 = ycsb_off n"
    using assms(2,4,6) by (simp_all add: ix_ok_def ycsb_off_def algebra_simps)
  have s1: "ix_prepare_step ?T (?x1, m) = Inr (?x1\<lparr>ix_read_head := ycsb_off n, ix_read_idx := ix_read_idx x + 1\<rparr>, m1)"
    using m1(1) head by (simp add: ix_prepare_step_def YCSBTransaction_def)
  have "length m1 = ycsb_off n" using m1(2) assms(1) by (simp add: same_outside_length ycsb_wf_def)
  then have "ycsb_prepare_cowns V index (ycsb_off n) m1 = Inl OutOfBounds"
    by (simp add: ycsb_prepare_cowns_def ROWS_PER_TX_def upt_conv_Cons load_u32_def load_def ycsb_layout)
  then have s2: "ix_prepare_step ?T (?x1\<lparr>ix_read_head := ycsb_off n, ix_read_idx := ix_read_idx x + 1\<rparr>, m1) = Inl OutOfBounds"
    by (simp add: ix_prepare_step_def YCSBTransaction_def)
  have "[0..<unat ?b] = 0 # 1 # [2..<unat ?b]" using b by (simp add: upt_conv_Cons numeral_2_eq_2)
  then have "rfold (\<lambda>_. ix_prepare_step ?T) [0..<unat ?b] (?x1, m) = Inl OutOfBounds" using s1 s2 by simp
  moreover have "load_val - ix_handled_req_cnt x \<noteq> 0" using assms(8) by auto
  ultimately have "indexer_iter ?T load_val x m = Inl OutOfBounds" by (simp add: indexer_iter_def stay Let_def)
  then show ?thesis using fd_wrap_short by blast
qed

theorem wrap_around_slips_witness:
  "\<exists>m index x. ycsb_wf flat_verona index 8 m \<and> ix_read_idx x = 7 \<and>
     indexer_iter (YCSBTransaction flat_verona index) 11 x m = Inl OutOfBounds"
proof -
  obtain m index and s0 :: "(int list, mem, u64 ycsb_when) pipeline" where wf: "ycsb_wf flat_verona index 8 m"
    by (rule sample_small_log)
  let ?x = "\<lparr>ix_read_count = 8, ix_read_top = 4, ix_handled_req_cnt = 7, ix_read_idx = 7,
     ix_read_head = 900, ix_batch = 1\<rparr>"
  show ?thesis
    using wrap_around_slips [OF wf, of ?x 11] wf by (intro exI [of _ m] exI [of _ index] exI [of _ ?x]) (simp add: ix_ok_def)
qed

end
